(* ===== verification/Exceptions.thy ===== *)
theory Exceptions
  imports Main
begin

text \<open>
  The exception classes of \<^verbatim>\<open>src/threads/exception.h\<close> as one datatype, one constructor per
  class (\<open>RuntimeError\<close> is the \<^verbatim>\<open>std::runtime_error\<close> that \<^verbatim>\<open>Monitor::Impl::Wait\<close> throws).
  A constructor without an argument is a class whose only constructor leaves the message
  empty. \<open>fault\<close> lists the ways a call ends without a value: it throws, an assertion
  aborts the process, or the C++ standard gives it no meaning.
\<close>

datatype exn =
    Exception string
  | NoSuchTaskException
  | UncancellableTaskException
  | InvalidArgumentException
  | IllegalStateException string
  | TimedOutException string
  | SystemResourceException string
  | TooManyPendingTasksException string
  | RuntimeError string

text \<open>The default constructors that set a message.\<close>

definition TimedOut_default :: exn where
  "TimedOut_default = TimedOutException ''TimedOutException''"

definition TooManyPendingTasks_default :: exn where
  "TooManyPendingTasks_default = TooManyPendingTasksException ''TooManyPendingTasksException''"

definition SystemResource_default :: exn where
  "SystemResource_default = SystemResourceException ''''"

fun message :: "exn \<Rightarrow> string" where
  "message (Exception m) = m"
| "message NoSuchTaskException = ''''"
| "message UncancellableTaskException = ''''"
| "message InvalidArgumentException = ''''"
| "message (IllegalStateException m) = m"
| "message (TimedOutException m) = m"
| "message (SystemResourceException m) = m"
| "message (TooManyPendingTasksException m) = m"
| "message (RuntimeError m) = m"

text \<open>
  \<^verbatim>\<open>Exception::what()\<close>. A \<^verbatim>\<open>std::runtime_error\<close> is not a subclass of \<^verbatim>\<open>Exception\<close>: its
  \<^verbatim>\<open>what()\<close> is the message itself.
\<close>

definition what :: "exn \<Rightarrow> string" where
  "what e = (case e of RuntimeError m \<Rightarrow> m
     | _ \<Rightarrow> if message e = [] then ''Default Exception'' else message e)"

datatype fault = Thrown exn | Aborted | Undefined

type_synonym 'a res = "fault + 'a"

lemma what_nonempty: "\<forall>m. e \<noteq> RuntimeError m \<Longrightarrow> what e \<noteq> []"
  by (cases e) (auto simp: what_def)

end
