(* ===== verification/Prelude.thy ===== *)
theory Prelude
  imports Exceptions "HOL-Library.Word" "HOL-Library.Signed_Division"
begin

text \<open>
  Shared vocabulary of the development: the machine integer types of the C++ sources, the
  outcome type of a fallible call, checked 64-bit signed arithmetic (signed overflow and
  division by zero have no defined result in C++), and the list lemmas used to count the
  threads of a pool by control point.

  \<^item> \<open>size_t\<close> is a 64-bit word: \<open>+\<close> and \<open>-\<close> wrap around, as in the sources.
  \<^item> \<open>int64_t\<close> is an \<open>int\<close> kept in range by \<open>checked64\<close>; leaving the range is
    \<open>Undefined\<close>, because the C++ standard gives signed overflow no meaning.
  \<^item> \<open>'a res\<close> is \<open>fault + 'a\<close>: a C++ exception, an aborting assertion or undefined
    behaviour on the left, the value on the right.
\<close>

type_synonym size_t = "64 word"
type_synonym int64 = int

named_theorems section_simps \<open>unfolding equations of the critical sections of the thread manager\<close>
named_theorems count_simps \<open>how the thread counters react to one thread moving\<close>

subsection \<open>Outcomes\<close>

definition bind_res :: "'a res \<Rightarrow> ('a \<Rightarrow> 'b res) \<Rightarrow> 'b res" where
  "bind_res r f = (case r of Inl e \<Rightarrow> Inl e | Inr x \<Rightarrow> f x)"

lemma bind_res_simps [simp]:
  "bind_res (Inl e) f = Inl e"
  "bind_res (Inr x) f = f x"
  by (simp_all add: bind_res_def)

lemma bind_res_eq_Inr:
  "bind_res r f = Inr y \<longleftrightarrow> (\<exists>x. r = Inr x \<and> f x = Inr y)"
  by (cases r) simp_all

text \<open>A call that may also never return (it blocks in the operating system).\<close>

datatype 'a call = Returns 'a | Blocks | Fails fault

definition call_of_res :: "'a res \<Rightarrow> 'a call" where
  "call_of_res r = (case r of Inl e \<Rightarrow> Fails e | Inr x \<Rightarrow> Returns x)"

definition bind_call :: "'a call \<Rightarrow> ('a \<Rightarrow> 'b call) \<Rightarrow> 'b call" where
  "bind_call c f = (case c of Returns x \<Rightarrow> f x | Blocks \<Rightarrow> Blocks | Fails e \<Rightarrow> Fails e)"

lemma bind_call_simps [simp]:
  "bind_call (Returns x) f = f x"
  "bind_call Blocks f = Blocks"
  "bind_call (Fails e) f = Fails e"
  by (simp_all add: bind_call_def)

lemma bind_call_eq_Returns:
  "bind_call c f = Returns y \<longleftrightarrow> (\<exists>x. c = Returns x \<and> f x = Returns y)"
  by (cases c) simp_all

lemma call_of_res_simps [simp]:
  "call_of_res (Inl e) = Fails e"
  "call_of_res (Inr x) = Returns x"
  by (simp_all add: call_of_res_def)

lemma call_of_res_eq_Returns: "call_of_res r = Returns y \<longleftrightarrow> r = Inr y"
  by (cases r) simp_all

subsection \<open>Checked signed 64-bit arithmetic\<close>

definition INT64_MIN :: int where "INT64_MIN = - (2 ^ 63)"
definition INT64_MAX :: int where "INT64_MAX = 2 ^ 63 - 1"

definition in_int64 :: "int \<Rightarrow> bool" where
  "in_int64 x \<longleftrightarrow> INT64_MIN \<le> x \<and> x \<le> INT64_MAX"

definition checked64 :: "int \<Rightarrow> int res" where
  "checked64 x = (if in_int64 x then Inr x else Inl Undefined)"

definition add64 :: "int \<Rightarrow> int \<Rightarrow> int res" where
  "add64 a b = checked64 (a + b)"

definition mul64 :: "int \<Rightarrow> int \<Rightarrow> int res" where
  "mul64 a b = checked64 (a * b)"

text \<open>C++ division truncates towards zero; the remainder has the sign of the dividend.\<close>

definition div64 :: "int \<Rightarrow> int \<Rightarrow> int res" where
  "div64 a b = (if b = 0 then Inl Undefined else checked64 (a sdiv b))"

definition mod64 :: "int \<Rightarrow> int \<Rightarrow> int res" where
  "mod64 a b = (if b = 0 \<or> \<not> in_int64 (a sdiv b) then Inl Undefined else Inr (a smod b))"

text \<open>The implicit conversion of an \<^verbatim>\<open>int64_t\<close> to a 32-bit \<^verbatim>\<open>int\<close>: modulo \<open>2 ^ 32\<close>, signed.\<close>

definition narrow32 :: "int \<Rightarrow> int" where
  "narrow32 x = (x + 2 ^ 31) mod 2 ^ 32 - 2 ^ 31"

lemma narrow32_id: "- (2 ^ 31) \<le> x \<Longrightarrow> x < 2 ^ 31 \<Longrightarrow> narrow32 x = x"
  by (simp add: narrow32_def)

lemma narrow32_bounds: "- (2 ^ 31) \<le> narrow32 x \<and> narrow32 x < 2 ^ 31"
  by (simp add: narrow32_def)

lemmas int64_bounds = INT64_MIN_def INT64_MAX_def in_int64_def
lemmas arith64_defs = add64_def mul64_def div64_def mod64_def checked64_def

lemma sdiv_nonneg: "0 \<le> a \<Longrightarrow> 0 < b \<Longrightarrow> a sdiv b = a div (b::int)"
  by (simp add: signed_divide_int_def sgn_if)

lemma smod_nonneg: "0 \<le> a \<Longrightarrow> 0 < b \<Longrightarrow> a smod b = a mod (b::int)"
  by (simp add: signed_modulo_int_def sgn_if)

lemma sdiv_neg: "a < 0 \<Longrightarrow> 0 < b \<Longrightarrow> a sdiv b = - ((- a) div (b::int))"
  by (simp add: signed_divide_int_def sgn_if)

lemma smod_neg: "a < 0 \<Longrightarrow> 0 < b \<Longrightarrow> a smod b = - ((- a) mod (b::int))"
  by (simp add: signed_modulo_int_def sgn_if)

lemma sdiv_smod_recompose: "(a sdiv b) * b + a smod b = (a::int)"
  by (rule sdiv_mult_smod_eq)

subsection \<open>Counting the elements of a list that satisfy a predicate\<close>

definition cnt :: "('a \<Rightarrow> bool) \<Rightarrow> 'a list \<Rightarrow> nat" where
  "cnt P xs = length (filter P xs)"

lemma cnt_Nil [simp]: "cnt P [] = 0"
  by (simp add: cnt_def)

lemma cnt_Cons [simp]: "cnt P (x # xs) = (if P x then 1 else 0) + cnt P xs"
  by (simp add: cnt_def)

lemma cnt_append [simp]: "cnt P (xs @ ys) = cnt P xs + cnt P ys"
  by (simp add: cnt_def)

lemma cnt_replicate [simp]: "cnt P (replicate n x) = (if P x then n else 0)"
  by (simp add: cnt_def filter_replicate)

text \<open>Moving one thread: the count changes by the thread alone.\<close>

lemma cnt_update:
  "i < length xs \<Longrightarrow>
   cnt P (xs[i := y]) + (if P (xs ! i) then 1 else 0) = cnt P xs + (if P y then 1 else 0)"
proof (induction xs arbitrary: i)
  case Nil
  then show ?case by simp
next
  case (Cons x xs)
  then show ?case by (cases i) (simp_all add: add.assoc add.left_commute)
qed

lemma of_nat_cnt_update [count_simps]:
  "i < length xs \<Longrightarrow>
   (of_nat (cnt P (xs[i := y])) :: size_t) =
     of_nat (cnt P xs) + (if P y then 1 else 0) - (if P (xs ! i) then 1 else 0)"
proof -
  assume "i < length xs"
  from cnt_update [OF this, of P y]
  have "(of_nat (cnt P (xs[i := y]) + (if P (xs ! i) then 1 else 0)) :: size_t)
      = of_nat (cnt P xs + (if P y then 1 else 0))"
    by simp
  then show ?thesis by (auto simp: algebra_simps split: if_splits)
qed

lemma cnt_zero_iff: "cnt P xs = 0 \<longleftrightarrow> (\<forall>x \<in> set xs. \<not> P x)"
  by (auto simp: cnt_def filter_empty_conv)

lemma cnt_pos_iff: "0 < cnt P xs \<longleftrightarrow> (\<exists>x \<in> set xs. P x)"
  using cnt_zero_iff [of P xs] by auto

lemma cnt_pos_nth: "0 < cnt P xs \<longleftrightarrow> (\<exists>i < length xs. P (xs ! i))"
  unfolding cnt_pos_iff by (metis in_set_conv_nth)

lemma cnt_le_length: "cnt P xs \<le> length xs"
  by (simp add: cnt_def)

lemma cnt_mono: "(\<And>x. P x \<Longrightarrow> Q x) \<Longrightarrow> cnt P xs \<le> cnt Q xs"
  by (induction xs) (auto intro: le_SucI)

lemma cnt_list_all2:
  "list_all2 (\<lambda>a b. P a = Q b) xs ys \<Longrightarrow> cnt P xs = cnt Q ys"
  by (induction rule: list_all2_induct) auto

lemma sum_upd:
  "w < (n :: nat) \<Longrightarrow> (\<Sum>v < n. (g ((f(w := q)) v) :: nat)) + g (f w) = (\<Sum>v < n. g (f v)) + g q"
proof -
  assume w: "w < n"
  have "(\<Sum>v < n. h v) = h w + (\<Sum>v \<in> {..<n} - {w}. h v)" for h :: "nat \<Rightarrow> nat"
    using w by (intro sum.remove) simp_all
  moreover have "(\<Sum>v \<in> {..<n} - {w}. g ((f(w := q)) v)) = (\<Sum>v \<in> {..<n} - {w}. g (f v))"
    by (intro sum.cong) auto
  ultimately show ?thesis by simp
qed

subsection \<open>Transition systems and invariants\<close>

inductive reachable :: "('s \<Rightarrow> bool) \<Rightarrow> ('s \<Rightarrow> 's \<Rightarrow> bool) \<Rightarrow> 's \<Rightarrow> bool"
  for init :: "'s \<Rightarrow> bool" and step :: "'s \<Rightarrow> 's \<Rightarrow> bool" where
  reachable_init: "init s \<Longrightarrow> reachable init step s"
| reachable_step: "reachable init step s \<Longrightarrow> step s t \<Longrightarrow> reachable init step t"

lemma reachable_steps: "step\<^sup>*\<^sup>* s t \<Longrightarrow> reachable init step s \<Longrightarrow> reachable init step t"
  by (induction rule: rtranclp_induct) (auto intro: reachable_step)

text \<open>
  The interface between a component and its safety properties: an inductive invariant holds
  in every reachable state. A second invariant may be proved relative to a first one.
\<close>

locale inductive_invariant =
  fixes init :: "'s \<Rightarrow> bool" and step :: "'s \<Rightarrow> 's \<Rightarrow> bool" and inv :: "'s \<Rightarrow> bool"
  assumes initially: "init s \<Longrightarrow> inv s"
    and preserved: "inv s \<Longrightarrow> step s t \<Longrightarrow> inv t"
begin

lemma always: "reachable init step s \<Longrightarrow> inv s"
  by (induction rule: reachable.induct) (auto intro: initially preserved)

lemma onwards: "step\<^sup>*\<^sup>* s t \<Longrightarrow> inv s \<Longrightarrow> inv t"
  by (induction rule: rtranclp_induct) (auto intro: preserved)

end

locale relative_invariant = base: inductive_invariant init step base_inv
  for init :: "'s \<Rightarrow> bool" and step :: "'s \<Rightarrow> 's \<Rightarrow> bool" and base_inv :: "'s \<Rightarrow> bool" +
  fixes rel_inv :: "'s \<Rightarrow> bool"
  assumes rel_initially: "init s \<Longrightarrow> rel_inv s"
    and rel_preserved: "base_inv s \<Longrightarrow> base_inv t \<Longrightarrow> rel_inv s \<Longrightarrow> step s t \<Longrightarrow> rel_inv t"

text \<open>Being reachable is an invariant, so an invariant may rest on anything that holds in reachable states.\<close>

lemma reachable_invariant: "inductive_invariant init step (reachable init step)"
  by unfold_locales (auto intro: reachable_init reachable_step)

text \<open>A rank in a well-founded order bounds every run.\<close>

abbreviation rank_less :: "((nat \<times> nat \<times> nat) \<times> (nat \<times> nat \<times> nat)) set" where
  "rank_less \<equiv> less_than <*lex*> less_than <*lex*> less_than"

lemma rank_ends:
  assumes "P (f 0)" "wf r" and "\<And>s t. P s \<Longrightarrow> step s t \<Longrightarrow> P t \<and> (rank t, rank s) \<in> r"
  shows "\<not> (\<forall>n. step (f n) (f (Suc n)))"
proof
  assume steps: "\<forall>n. step (f n) (f (Suc n))"
  have P: "P (f n)" for n by (induction n) (use assms steps in blast)+
  then have "\<forall>n. (rank (f (Suc n)), rank (f n)) \<in> r" using assms(3) steps by blast
  then have "\<exists>g. \<forall>n. (g (Suc n), g n) \<in> r" by (rule exI [of _ "\<lambda>n. rank (f n)"])
  with assms(2) show False unfolding wf_iff_no_infinite_down_chain by contradiction
qed

lemma ranked_ends:
  assumes "P (f 0)" and "\<And>s t. P s \<Longrightarrow> step s t \<Longrightarrow> P t \<and> rank t < (rank s :: nat)"
  shows "\<not> (\<forall>n. step (f n) (f (Suc n)))"
  by (rule rank_ends [where P = P and rank = rank and r = less_than and f = f]) (use assms in simp_all)

sublocale relative_invariant \<subseteq> both: inductive_invariant init step "\<lambda>s. base_inv s \<and> rel_inv s"
  by unfold_locales
    (auto intro: base.initially base.preserved rel_initially rel_preserved)

end
