(* ===== verification/Time_Util.thy ===== *)
theory Time_Util
  imports Prelude
begin

text \<open>
  \<^verbatim>\<open>src/base/time_util.h\<close> and \<^verbatim>\<open>src/base/time_util.cc\<close>: conversion between a tick count and
  \<^verbatim>\<open>timespec\<close>/\<^verbatim>\<open>timeval\<close>, and the two clocks. All arithmetic is \<^verbatim>\<open>int64_t\<close>, so each product,
  sum and quotient of \<open>ToTicks\<close> is checked: leaving the range is \<open>Undefined\<close>. The calls
  of \<^verbatim>\<open>clock_gettime\<close> are a parameter: the return code and the time it stored. The build
  does not define \<^verbatim>\<open>NDEBUG\<close>, so a failing \<^verbatim>\<open>DCHECK\<close> or \<^verbatim>\<open>assert\<close> aborts.
\<close>

record timespec =
  tv_sec :: int
  tv_nsec :: int

record timeval =
  tvl_sec :: int
  tvl_usec :: int

definition NS_PER_S :: int where "NS_PER_S = 1000000000"
definition US_PER_S :: int where "US_PER_S = 1000000"
definition MS_PER_S :: int where "MS_PER_S = 1000"
definition NS_PER_MS :: int where "NS_PER_MS = NS_PER_S sdiv MS_PER_S"
definition NS_PER_US :: int where "NS_PER_US = NS_PER_S sdiv US_PER_S"
definition US_PER_MS :: int where "US_PER_MS = US_PER_S sdiv MS_PER_S"

definition ToTimespec :: "int64 \<Rightarrow> timespec" where
  "ToTimespec value =
     \<lparr>tv_sec = value sdiv MS_PER_S, tv_nsec = (value smod MS_PER_S) * NS_PER_MS\<rparr>"

definition ToTimeval :: "int64 \<Rightarrow> timeval" where
  "ToTimeval value =
     \<lparr>tvl_sec = value sdiv MS_PER_S, tvl_usec = (value smod MS_PER_S) * US_PER_MS\<rparr>"

definition ToTicks :: "int64 \<Rightarrow> int64 \<Rightarrow> int64 \<Rightarrow> int64 \<Rightarrow> int64 res" where
  "ToTicks secs old_ticks old_ticks_per_sec new_ticks_per_sec =
     bind_res (mul64 secs new_ticks_per_sec) (\<lambda>result.
     bind_res (mul64 old_ticks new_ticks_per_sec) (\<lambda>scaled.
     bind_res (div64 scaled old_ticks_per_sec) (\<lambda>quot.
     bind_res (add64 result quot) (\<lambda>result.
     bind_res (div64 old_ticks_per_sec new_ticks_per_sec) (\<lambda>old_per_new.
       if old_per_new \<noteq> 0 then
         bind_res (mod64 old_ticks old_per_new) (\<lambda>rem.
         bind_res (div64 old_per_new 2) (\<lambda>half.
           if rem \<ge> half then add64 result 1 else Inr result))
       else Inr result)))))"

definition ToTicks_timespec :: "timespec \<Rightarrow> int64 \<Rightarrow> int64 res" where
  "ToTicks_timespec value ticks_per_sec =
     ToTicks (tv_sec value) (tv_nsec value) NS_PER_S ticks_per_sec"

definition ToTicks_timeval :: "timeval \<Rightarrow> int64 \<Rightarrow> int64 res" where
  "ToTicks_timeval value ticks_per_sec =
     ToTicks (tvl_sec value) (tvl_usec value) US_PER_S ticks_per_sec"

definition ToMilliseconds_timespec :: "timespec \<Rightarrow> int64 res" where
  "ToMilliseconds_timespec value = ToTicks_timespec value MS_PER_S"

definition ToMilliseconds_timeval :: "timeval \<Rightarrow> int64 res" where
  "ToMilliseconds_timeval value = ToTicks_timeval value MS_PER_S"

definition ToUsec_timespec :: "timespec \<Rightarrow> int64 res" where
  "ToUsec_timespec value = ToTicks_timespec value US_PER_S"

definition ToUsec_timeval :: "timeval \<Rightarrow> int64 res" where
  "ToUsec_timeval value = ToTicks_timeval value US_PER_S"

text \<open>
  The clocks. A reading is what one \<^verbatim>\<open>clock_gettime\<close> call returned, the code and the time
  stored; \<open>errno\<close> is the value the failing monotonic call left.
\<close>

type_synonym clock_reading = "int \<times> timespec"

definition EINVAL :: int where "EINVAL = 22"

definition CurrentTimeTicks :: "clock_reading \<Rightarrow> int64 \<Rightarrow> int64 res" where
  "CurrentTimeTicks realtime ticks_per_sec =
     (case realtime of (ret, now) \<Rightarrow>
       if ret \<noteq> 0 then Inl Aborted else ToTicks_timespec now ticks_per_sec)"

definition CurrentTime :: "clock_reading \<Rightarrow> int64 res" where
  "CurrentTime realtime = CurrentTimeTicks realtime MS_PER_S"

definition CurrentTimeUsec :: "clock_reading \<Rightarrow> int64 res" where
  "CurrentTimeUsec realtime = CurrentTimeTicks realtime US_PER_S"

text \<open>The function-local \<^verbatim>\<open>static bool use_realtime\<close> is threaded: zero-initialised, returned updated.\<close>

definition MonotonicTimeTicks ::
  "clock_reading \<Rightarrow> int \<Rightarrow> clock_reading \<Rightarrow> int64 \<Rightarrow> bool \<Rightarrow> int64 res \<times> bool" where
  "MonotonicTimeTicks monotonic errno realtime ticks_per_sec use_realtime =
     (if use_realtime then (CurrentTimeTicks realtime ticks_per_sec, use_realtime)
      else case monotonic of (ret, now) \<Rightarrow>
        if ret \<noteq> 0 then
          if errno \<noteq> EINVAL then (Inl Aborted, use_realtime)
          else (CurrentTimeTicks realtime ticks_per_sec, True)
        else (ToTicks_timespec now ticks_per_sec, use_realtime))"

definition MonotonicTime ::
  "clock_reading \<Rightarrow> int \<Rightarrow> clock_reading \<Rightarrow> bool \<Rightarrow> int64 res \<times> bool" where
  "MonotonicTime monotonic errno realtime use_realtime =
     MonotonicTimeTicks monotonic errno realtime MS_PER_S use_realtime"

definition MonotonicTimeUsec ::
  "clock_reading \<Rightarrow> int \<Rightarrow> clock_reading \<Rightarrow> bool \<Rightarrow> int64 res \<times> bool" where
  "MonotonicTimeUsec monotonic errno realtime use_realtime =
     MonotonicTimeTicks monotonic errno realtime US_PER_S use_realtime"

subsection \<open>Lemmas\<close>

lemmas time_consts = NS_PER_S_def US_PER_S_def MS_PER_S_def NS_PER_MS_def NS_PER_US_def US_PER_MS_def

lemma unit_ratios [simp]:
  "NS_PER_MS = 1000000" "NS_PER_US = 1000" "US_PER_MS = 1000"
  by (simp_all add: time_consts)

text \<open>A time value the operating system stores: seconds from 0, a fraction below one second.\<close>

definition valid_timespec :: "timespec \<Rightarrow> bool" where
  "valid_timespec ts \<longleftrightarrow> 0 \<le> tv_sec ts \<and> tv_sec ts \<le> 2 ^ 40 \<and>
     0 \<le> tv_nsec ts \<and> tv_nsec ts < NS_PER_S"

lemma div_int_less: "x < b * c \<Longrightarrow> 0 < b \<Longrightarrow> x div b < (c::int)"
proof -
  assume "x < b * c" "0 < b"
  moreover have "b * (x div b) \<le> x"
    using \<open>0 < b\<close> by (simp add: minus_mod_eq_mult_div [symmetric])
  ultimately have "b * (x div b) < b * c" by linarith
  with \<open>0 < b\<close> show "x div b < c" by simp
qed

text \<open>
  What \<open>ToTicks\<close> computes on such values when the new rate divides the old one: the whole
  seconds, the whole new ticks of the fraction, and one more when the rest is at least the
  (truncated) half of a new tick.
\<close>

lemma ToTicks_value:
  assumes secs: "0 \<le> secs" "secs \<le> 2 ^ 40"
    and ticks: "0 \<le> old_ticks" "old_ticks < opn * new"
    and rates: "0 < new" "new \<le> 1000000" "0 < opn" "opn * new \<le> 1000000000"
  shows "ToTicks secs old_ticks (opn * new) new =
     Inr (secs * new + old_ticks div opn + (if old_ticks mod opn \<ge> opn div 2 then 1 else 0))"
proof -
  have sn: "0 \<le> secs * new" "secs * new \<le> 2 ^ 40 * 1000000"
    using secs rates mult_mono [of secs "2 ^ 40" new 1000000] by simp_all
  have tn: "0 \<le> old_ticks * new" "old_ticks * new \<le> 1000000000 * 1000000"
    using ticks rates mult_mono [of old_ticks 1000000000 new 1000000] by simp_all
  have quot: "old_ticks * new div (opn * new) = old_ticks div opn"
    using rates by simp
  have q: "0 \<le> old_ticks div opn" using ticks rates by (simp add: pos_imp_zdiv_nonneg_iff)
  have q': "old_ticks div opn < new" using ticks rates by (intro div_int_less) auto
  have opn: "opn * new div new = opn" "opn \<le> 1000000000" "opn div 2 \<le> opn" "0 \<le> opn div 2"
    using rates by (auto intro: order_trans [of opn "opn * new"])
  have m: "0 \<le> old_ticks mod opn" using rates by simp
  have pos: "0 < opn * new" using rates by simp
  have dvs: "(old_ticks * new) sdiv (opn * new) = old_ticks div opn"
       "(opn * new) sdiv new = opn" "old_ticks smod opn = old_ticks mod opn"
       "old_ticks sdiv opn = old_ticks div opn" "opn sdiv 2 = opn div 2"
    using tn pos quot rates ticks opn by (simp_all add: sdiv_nonneg smod_nonneg)
  have rng: "in_int64 (secs * new)" "in_int64 (old_ticks * new)" "in_int64 (old_ticks div opn)"
       "in_int64 (secs * new + old_ticks div opn)" "in_int64 opn" "in_int64 (opn div 2)"
       "in_int64 (secs * new + old_ticks div opn + 1)"
    using sn tn q q' opn rates by (auto simp: int64_bounds)
  show ?thesis
    using rates rng dvs pos by (simp add: ToTicks_def arith64_defs)
qed

lemma round_half_up:
  assumes "0 < d" and "even d"
  shows "k + x div d + (if x mod d \<ge> d div 2 then 1 else 0) = (k * d + x + d div 2) div (d::int)"
proof -
  define q m where "q = x div d" and "m = x mod d"
  have x: "x = d * q + m" and m: "0 \<le> m" "m < d"
    using assms by (simp_all add: q_def m_def)
  have d: "2 * (d div 2) = d" using assms by simp
  have "(k * d + x + d div 2) div d = (d * (k + q) + (m + d div 2)) div d"
    by (simp add: x algebra_simps)
  also have "\<dots> = k + q + (m + d div 2) div d"
    using assms by (intro div_mult_self4) simp
  finally have *: "(k * d + x + d div 2) div d = k + q + (m + d div 2) div d" .
  have "(m + d div 2) div d = (if m \<ge> d div 2 then 1 else 0)"
  proof (cases "m \<ge> d div 2")
    case True
    then have "(m + d div 2) div d = (d + (m + d div 2 - d)) div d" by simp
    also have "\<dots> = 1 + (m + d div 2 - d) div d"
      using assms by (metis add.commute div_add_self1 less_irrefl)
    also have "(m + d div 2 - d) div d = 0"
      using True m d by (intro div_pos_pos_trivial) linarith+
    finally show ?thesis using True by simp
  next
    case False
    then show ?thesis using m d by (simp add: div_pos_pos_trivial)
  qed
  with * show ?thesis by (simp add: q_def m_def)
qed

lemma ToMilliseconds_timespec_value:
  assumes "valid_timespec ts"
  shows "ToMilliseconds_timespec ts = Inr ((tv_sec ts * NS_PER_S + tv_nsec ts + 500000) div 1000000)"
proof -
  have "ToTicks (tv_sec ts) (tv_nsec ts) (1000000 * 1000) 1000 =
     Inr (tv_sec ts * 1000 + tv_nsec ts div 1000000 +
       (if tv_nsec ts mod 1000000 \<ge> 1000000 div 2 then 1 else 0))"
    using assms by (intro ToTicks_value) (auto simp: valid_timespec_def time_consts)
  moreover have "tv_sec ts * 1000 + tv_nsec ts div 1000000 +
       (if tv_nsec ts mod 1000000 \<ge> 500000 then 1 else 0) =
     (tv_sec ts * 1000000000 + tv_nsec ts + 500000) div 1000000"
    using round_half_up [of 1000000 "tv_sec ts * 1000" "tv_nsec ts"] by (simp add: mult.assoc)
  ultimately show ?thesis
    by (simp add: ToMilliseconds_timespec_def ToTicks_timespec_def time_consts)
qed

text \<open>Whole new ticks convert without a rest, whatever their sign.\<close>

lemma smod_1000: "-1000 < v smod (1000::int) \<and> v smod 1000 < 1000 \<and>
    (0 \<le> v smod 1000 \<or> v sdiv 1000 \<le> 0) \<and> (v smod 1000 \<le> 0 \<or> 0 \<le> v sdiv 1000)"
proof (cases "v < 0")
  case True
  have "0 \<le> (- v) mod 1000" "(- v) mod 1000 < 1000" by simp_all
  moreover have "0 \<le> (- v) div 1000" using True by (simp add: pos_imp_zdiv_nonneg_iff)
  ultimately show ?thesis using True by (simp add: smod_neg sdiv_neg)
next
  case False
  then show ?thesis by (simp add: smod_nonneg sdiv_nonneg pos_imp_zdiv_nonneg_iff)
qed

lemma mult_sdiv_smod:
  "0 < k \<Longrightarrow> (r * k) sdiv k = (r::int)" "0 < k \<Longrightarrow> (r * k) smod k = 0"
  by (cases "r < 0"; simp add: sdiv_neg sdiv_nonneg smod_neg smod_nonneg mult_neg_pos
      flip: mult_minus_left)+

lemma ToTicks_whole:
  assumes r: "-1000 < r \<and> r < 1000 \<and> (0 \<le> r \<or> s \<le> 0) \<and> (r \<le> 0 \<or> 0 \<le> s)"
    and v: "v = s * 1000 + r" and "in_int64 v"
  shows "ToTicks s (r * 1000000) 1000000000 1000 = Inr v \<and>
         ToTicks s (r * 1000) 1000000 1000 = Inr v"
proof -
  have rng: "in_int64 (s * 1000)" "in_int64 v" "in_int64 r" "in_int64 (r * 1000000000)"
    "in_int64 (r * 1000000)"
    using assms by (auto simp: int64_bounds)
  have ratios: "(1000000000::int) sdiv 1000 = 1000000" "(1000000::int) sdiv 1000 = 1000"
    "(1000000::int) sdiv 2 = 500000" "(1000::int) sdiv 2 = 500"
    by (simp_all add: sdiv_nonneg)
  have small: "in_int64 1000000" "in_int64 1000" "in_int64 500000" "in_int64 500"
    by (simp_all add: int64_bounds)
  show ?thesis
    using rng ratios small mult_sdiv_smod [of 1000000000 r] mult_sdiv_smod [of 1000000 r]
      mult_sdiv_smod [of 1000 r] v
    by (simp add: ToTicks_def arith64_defs mult.assoc)
qed

lemma ToTimespec_exact:
  assumes "0 \<le> v"
  shows "0 \<le> tv_sec (ToTimespec v) \<and> 0 \<le> tv_nsec (ToTimespec v) \<and> tv_nsec (ToTimespec v) < NS_PER_S
       \<and> tv_sec (ToTimespec v) * NS_PER_S + tv_nsec (ToTimespec v) = v * NS_PER_MS
       \<and> 0 \<le> tvl_usec (ToTimeval v) \<and> tvl_usec (ToTimeval v) < US_PER_S
       \<and> tvl_sec (ToTimeval v) * US_PER_S + tvl_usec (ToTimeval v) = v * US_PER_MS"
proof -
  have m: "0 \<le> v mod 1000" "v mod 1000 < 1000" by simp_all
  have e: "v div 1000 * 1000 + v mod 1000 = v" by simp
  have "v div 1000 * 1000000000 + v mod 1000 * 1000000 = v * 1000000"
    "v div 1000 * 1000000 + v mod 1000 * 1000 = v * 1000"
    using arg_cong [OF e, of "\<lambda>x. x * 1000000"] arg_cong [OF e, of "\<lambda>x. x * 1000"]
    by (simp_all only: distrib_right mult.assoc)
  with m show ?thesis
    using assms by (simp add: ToTimespec_def ToTimeval_def MS_PER_S_def NS_PER_S_def US_PER_S_def
        sdiv_nonneg smod_nonneg pos_imp_zdiv_nonneg_iff)
qed

subsection \<open>Properties\<close>

text \<open>C25. Converting milliseconds to a \<^verbatim>\<open>timespec\<close> and back is the identity on every
  \<^verbatim>\<open>int64_t\<close>, negative values included, and no step overflows; the same through
  \<^verbatim>\<open>timeval\<close>.\<close>

theorem milliseconds_roundtrip:
  assumes "in_int64 v"
  shows "ToMilliseconds_timespec (ToTimespec v) = Inr v \<and>
         ToMilliseconds_timeval (ToTimeval v) = Inr v"
proof -
  have v: "v = (v sdiv 1000) * 1000 + v smod 1000" by (simp only: sdiv_smod_recompose)
  have "ToTicks (v sdiv 1000) ((v smod 1000) * 1000000) 1000000000 1000 = Inr v"
    "ToTicks (v sdiv 1000) ((v smod 1000) * 1000) 1000000 1000 = Inr v"
    using ToTicks_whole [OF smod_1000 v assms] by simp_all
  then show ?thesis
    by (simp add: ToMilliseconds_timespec_def ToTicks_timespec_def ToMilliseconds_timeval_def
        ToTicks_timeval_def ToTimespec_def ToTimeval_def NS_PER_S_def US_PER_S_def MS_PER_S_def)
qed

theorem milliseconds_roundtrip_witness:
  "in_int64 (-1500) \<and> ToMilliseconds_timespec (ToTimespec (-1500)) = Inr (-1500)"
proof -
  have h: "in_int64 (-1500)" by (simp add: int64_bounds)
  show ?thesis using h milliseconds_roundtrip [OF h] by blast
qed

text \<open>The timeout of every timed wait is well formed: for a non-negative number of
  milliseconds \<open>ToTimespec\<close> and \<open>ToTimeval\<close> return a fraction in
  \<^verbatim>\<open>[0, 1 s)\<close> and together with the seconds it is exactly the requested time.\<close>

theorem ToTimespec_wellformed:
  assumes "0 \<le> v"
  shows "0 \<le> tv_sec (ToTimespec v) \<and> 0 \<le> tv_nsec (ToTimespec v) \<and> tv_nsec (ToTimespec v) < NS_PER_S
       \<and> tv_sec (ToTimespec v) * NS_PER_S + tv_nsec (ToTimespec v) = v * NS_PER_MS
       \<and> 0 \<le> tvl_usec (ToTimeval v) \<and> tvl_usec (ToTimeval v) < US_PER_S
       \<and> tvl_sec (ToTimeval v) * US_PER_S + tvl_usec (ToTimeval v) = v * US_PER_MS"
  using assms by (rule ToTimespec_exact)

theorem ToTimespec_wellformed_witness:
  "(0::int) \<le> 1999 \<and> tv_sec (ToTimespec 1999) * NS_PER_S + tv_nsec (ToTimespec 1999) = 1999 * NS_PER_MS"
  using ToTimespec_wellformed [of 1999] by simp

text \<open>The clock is read to the nearest millisecond: on a valid \<^verbatim>\<open>CLOCK_REALTIME\<close>
  reading \<open>CurrentTime\<close> returns (no overflow, no abort) and is within half a millisecond
  of the time read.\<close>

theorem CurrentTime_nearest:
  assumes "valid_timespec ts"
  shows "\<exists>t. CurrentTime (0, ts) = Inr t \<and>
     \<bar>t * NS_PER_MS - (tv_sec ts * NS_PER_S + tv_nsec ts)\<bar> \<le> 500000"
proof -
  define x where "x = tv_sec ts * NS_PER_S + tv_nsec ts"
  have "\<bar>((x + 500000) div 1000000) * 1000000 - x\<bar> \<le> 500000"
    using div_mult_mod_eq [of "x + 500000" 1000000] pos_mod_bound [of 1000000 "x + 500000"]
      pos_mod_sign [of 1000000 "x + 500000"] by linarith
  moreover have "CurrentTime (0, ts) = Inr ((x + 500000) div 1000000)"
    using ToMilliseconds_timespec_value [OF assms]
    by (simp add: CurrentTime_def CurrentTimeTicks_def ToMilliseconds_timespec_def x_def)
  ultimately show ?thesis by (auto simp: x_def)
qed

theorem CurrentTime_nearest_witness:
  "valid_timespec \<lparr>tv_sec = 7, tv_nsec = 999600000\<rparr> \<and>
   (\<exists>t. CurrentTime (0, \<lparr>tv_sec = 7, tv_nsec = 999600000\<rparr>) = Inr t)"
proof -
  have h: "valid_timespec \<lparr>tv_sec = 7, tv_nsec = 999600000\<rparr>"
    by (simp add: valid_timespec_def NS_PER_S_def)
  show ?thesis using h CurrentTime_nearest [OF h] by blast
qed

text \<open>Time does not run backwards through the conversion: of two valid readings the
  later one gives a millisecond count that is not smaller.\<close>

theorem CurrentTime_mono:
  assumes "valid_timespec a" and "valid_timespec b"
    and "tv_sec a * NS_PER_S + tv_nsec a \<le> tv_sec b * NS_PER_S + tv_nsec b"
    and "CurrentTime (0, a) = Inr s" and "CurrentTime (0, b) = Inr t"
  shows "s \<le> t"
  using assms ToMilliseconds_timespec_value [of a] ToMilliseconds_timespec_value [of b]
  by (auto simp: CurrentTime_def CurrentTimeTicks_def ToMilliseconds_timespec_def zdiv_mono1)

theorem CurrentTime_mono_witness:
  "CurrentTime (0, \<lparr>tv_sec = 1, tv_nsec = 0\<rparr>) = Inr 1000 \<and>
   CurrentTime (0, \<lparr>tv_sec = 1, tv_nsec = 500000\<rparr>) = Inr 1001 \<and> (1000::int) \<le> 1001"
proof -
  let ?a = "\<lparr>tv_sec = 1, tv_nsec = 0\<rparr>" and ?b = "\<lparr>tv_sec = 1, tv_nsec = 500000\<rparr>"
  have v: "valid_timespec ?a" "valid_timespec ?b"
    by (simp_all add: valid_timespec_def NS_PER_S_def)
  have c: "CurrentTime (0, ?a) = Inr 1000" "CurrentTime (0, ?b) = Inr 1001"
    using ToMilliseconds_timespec_value [OF v(1)] ToMilliseconds_timespec_value [OF v(2)]
    by (simp_all add: CurrentTime_def CurrentTimeTicks_def ToMilliseconds_timespec_def NS_PER_S_def)
  show ?thesis using c CurrentTime_mono [OF v _ c] by simp
qed

text \<open>Where the two rates are equal the rounding test always succeeds (the rest modulo 1
  is 0 and so is the truncated half of 1), so \<open>ToUsec\<close> of a \<^verbatim>\<open>timeval\<close> is one microsecond
  more than the value it converts.\<close>

theorem ToUsec_timeval_off_by_one:
  assumes "0 \<le> tvl_sec tv" and "tvl_sec tv \<le> 2 ^ 40" and "0 \<le> tvl_usec tv" and "tvl_usec tv < US_PER_S"
  shows "ToUsec_timeval tv = Inr (tvl_sec tv * US_PER_S + tvl_usec tv + 1)"
proof -
  have "ToTicks (tvl_sec tv) (tvl_usec tv) (1 * 1000000) 1000000 =
     Inr (tvl_sec tv * 1000000 + tvl_usec tv div 1 + (if tvl_usec tv mod 1 \<ge> 1 div 2 then 1 else 0))"
    using assms by (intro ToTicks_value) (auto simp: US_PER_S_def)
  then show ?thesis by (simp add: ToUsec_timeval_def ToTicks_timeval_def US_PER_S_def)
qed

theorem ToUsec_timeval_off_by_one_witness:
  "ToUsec_timeval \<lparr>tvl_sec = 0, tvl_usec = 0\<rparr> = Inr 1"
  using ToUsec_timeval_off_by_one [of "\<lparr>tvl_sec = 0, tvl_usec = 0\<rparr>"] by (simp add: US_PER_S_def)

text \<open>The monotonic clock falls back for good: once a \<^verbatim>\<open>CLOCK_MONOTONIC\<close> call failed
  with \<^verbatim>\<open>EINVAL\<close> this and every later call, whatever the monotonic clock then answers, is a
  reading of the real-time clock.\<close>

lemma MonotonicTimeTicks_fallback:
  assumes "ret \<noteq> 0"
  shows "MonotonicTimeTicks (ret, ts) EINVAL rt k u = (CurrentTimeTicks rt k, True) \<and>
     MonotonicTimeTicks any errno rt' k' (snd (MonotonicTimeTicks (ret, ts) EINVAL rt k u))
       = (CurrentTimeTicks rt' k', True)"
  using assms by (cases u) (simp_all add: MonotonicTimeTicks_def)

text \<open>C29. What the conversions and clocks return is an \<^verbatim>\<open>int64_t\<close>: for any arguments, \<open>ToTicks\<close> ends with a value in range or
  overflows, and never throws; \<open>CurrentTimeTicks\<close> aborts exactly if its clock fails; \<open>MonotonicTimeTicks\<close> aborts exactly
  if the clock it ends up reading fails, and it ends up with the realtime clock if the flag is set or the monotonic clock
  fails with \<^verbatim>\<open>EINVAL\<close>, which sets the flag.\<close>

theorem time_results_typed:
  "ToTicks secs old_ticks old_rate rate \<in> insert (Inl Undefined) (Inr ` {v. in_int64 v}) \<and>
   (CurrentTimeTicks (ret, now) rate = Inl Aborted \<longleftrightarrow> ret \<noteq> 0) \<and>
   CurrentTimeTicks (ret, now) rate \<in> {Inl Aborted, Inl Undefined} \<union> Inr ` {v. in_int64 v} \<and>
   (let (t, flag') = MonotonicTimeTicks (mret, mnow) errno (ret, now) rate flag
    in t \<in> {Inl Aborted, Inl Undefined} \<union> Inr ` {v. in_int64 v} \<and>
       (flag' \<longleftrightarrow> flag \<or> mret \<noteq> 0 \<and> errno = EINVAL) \<and>
       (t = Inl Aborted \<longleftrightarrow> (if flag' then ret \<noteq> 0 else mret \<noteq> 0)))"
proof -
  have ticks: "ToTicks s p r n \<in> insert (Inl Undefined) (Inr ` {v. in_int64 v})" for s p r n
    by (auto simp: ToTicks_def arith64_defs bind_res_def Let_def split: sum.splits if_splits)
  then have spec: "ToTicks_timespec ts n \<in> insert (Inl Undefined) (Inr ` {v. in_int64 v})" for ts n
    by (simp only: ToTicks_timespec_def)
  then have "ToTicks_timespec ts n \<noteq> Inl Aborted" for ts n by (metis fault.distinct(5) image_iff insert_iff sum.distinct(1) sum.inject(1))
  with ticks spec show ?thesis by (auto simp: CurrentTimeTicks_def MonotonicTimeTicks_def)
qed

end
