(* ===== verification/Floats.thy ===== *)
theory Floats
  imports Complex_Main
begin

text \<open>
  Binary floating point as the C++ sources use it: the result of an operation is the exact one rounded to
  \<open>p\<close> significant bits, ties to even. \<open>fl\<close> is single precision (\<^verbatim>\<open>float\<close>), \<open>fl64\<close> double precision
  (\<^verbatim>\<open>double\<close>). Infinities, NaN and underflow are left out: the code never comes near them.

  Small integers are exact, the relative error is at most half a unit in the last place, and rounding
  commutes with the sign.
\<close>

definition ulp_exp :: "nat \<Rightarrow> real \<Rightarrow> int" where
  "ulp_exp p x = \<lfloor>log 2 \<bar>x\<bar>\<rfloor> - (int p - 1)"

definition round_even :: "real \<Rightarrow> int" where
  "round_even x = (let n = \<lfloor>x\<rfloor>; d = x - of_int n in
     if d < 1 / 2 \<or> d = 1 / 2 \<and> even n then n else n + 1)"

definition fl_bits :: "nat \<Rightarrow> real \<Rightarrow> real" where
  "fl_bits p x = (if x = 0 then 0 else
     of_int (round_even (x / 2 powr of_int (ulp_exp p x))) * 2 powr of_int (ulp_exp p x))"

abbreviation fl :: "real \<Rightarrow> real" where "fl \<equiv> fl_bits 24"
abbreviation fl64 :: "real \<Rightarrow> real" where "fl64 \<equiv> fl_bits 53"

text \<open>The conversion of a floating-point number to an integer type truncates.\<close>

definition to_int :: "real \<Rightarrow> int" where
  "to_int x = (if x < 0 then \<lceil>x\<rceil> else \<lfloor>x\<rfloor>)"

lemma to_int_of_int [simp]: "to_int (of_int n) = n"
  by (simp add: to_int_def)

lemma round_even_int [simp]: "round_even (of_int n) = n"
  by (simp add: round_even_def)

lemma fl_bits_zero [simp]: "fl_bits p 0 = 0"
  by (simp add: fl_bits_def)

lemma fl_bits_int:
  assumes "\<bar>n\<bar> < 2 ^ p"
  shows "fl_bits p (of_int n) = of_int n"
proof (cases "n = 0")
  case False
  define k where "k = nat (- ulp_exp p (of_int n))"
  have "log 2 \<bar>of_int n :: real\<bar> < real p"
    using False assms by (subst log_less_iff) (auto simp: powr_realpow simp flip: of_int_abs)
  then have "ulp_exp p (of_int n) \<le> 0" by (simp add: ulp_exp_def) linarith
  then have e: "of_int (ulp_exp p (of_int n)) = - real k" by (simp add: k_def)
  have "(of_int n :: real) / 2 powr of_int (ulp_exp p (of_int n)) = of_int (n * 2 ^ k)"
    unfolding e by (simp add: powr_minus_divide powr_realpow)
  then have "round_even (of_int n / 2 powr of_int (ulp_exp p (of_int n))) = n * 2 ^ k"
    by (simp only: round_even_int)
  then show ?thesis using False unfolding fl_bits_def e by (simp add: powr_minus_divide powr_realpow)
qed (simp add: fl_bits_def)

lemma round_even_error: "\<bar>of_int (round_even x) - x\<bar> \<le> 1 / 2"
  by (auto simp: round_even_def Let_def abs_le_iff)

lemma round_even_minus: "round_even (- x) = - round_even x"
proof (cases "x = of_int \<lfloor>x\<rfloor>")
  case True
  then show ?thesis by (metis of_int_minus round_even_int)
next
  case False
  then have "\<lfloor>- x\<rfloor> = - \<lfloor>x\<rfloor> - 1" by linarith
  with False show ?thesis by (auto simp: round_even_def Let_def)
qed

lemma fl_bits_minus: "fl_bits p (- x) = - fl_bits p x"
  by (simp add: fl_bits_def ulp_exp_def round_even_minus)

lemma fl_bits_error: "\<bar>fl_bits (Suc p) x - x\<bar> \<le> \<bar>x\<bar> / 2 ^ Suc p"
proof (cases "x = 0")
  case False
  define u :: real where "u = 2 powr of_int (ulp_exp (Suc p) x)"
  have u: "0 < u" by (simp add: u_def)
  have "of_int \<lfloor>log 2 \<bar>x\<bar>\<rfloor> \<le> log 2 \<bar>x\<bar>" by simp
  then have "2 powr of_int \<lfloor>log 2 \<bar>x\<bar>\<rfloor> \<le> \<bar>x\<bar>" using False by (metis le_log_iff one_less_numeral_iff semiring_norm(76) zero_less_abs_iff)
  moreover have "u = 2 powr of_int \<lfloor>log 2 \<bar>x\<bar>\<rfloor> / 2 ^ p"
    by (simp add: u_def ulp_exp_def powr_diff powr_realpow)
  ultimately have half: "u / 2 \<le> \<bar>x\<bar> / 2 ^ Suc p" by (simp add: field_simps)
  have "fl_bits (Suc p) x - x = (of_int (round_even (x / u)) - x / u) * u"
    using False u by (simp add: fl_bits_def u_def [symmetric] field_simps)
  then have "\<bar>fl_bits (Suc p) x - x\<bar> = \<bar>of_int (round_even (x / u)) - x / u\<bar> * u" using u by (simp add: abs_mult)
  also have "\<dots> \<le> 1 / 2 * u" using round_even_error u by (intro mult_right_mono) simp_all
  finally show ?thesis using half by simp
qed (simp add: fl_bits_def)

text \<open>Rounding a rounded number changes nothing.\<close>

lemma fl_bits_scaled:
  assumes "\<bar>k\<bar> < 2 ^ p"
  shows "fl_bits p (of_int k * 2 powr of_int e) = of_int k * 2 powr of_int e"
proof (cases "k = 0")
  case False
  let ?y = "of_int k * 2 powr of_int e :: real"
  define j where "j = nat (e - ulp_exp p ?y)"
  have "log 2 \<bar>of_int k :: real\<bar> < real p"
    using False assms by (subst log_less_iff) (auto simp: powr_realpow simp flip: of_int_abs)
  moreover have "log 2 \<bar>?y\<bar> = log 2 \<bar>of_int k\<bar> + of_int e"
    using False by (simp add: abs_mult log_mult)
  ultimately have "ulp_exp p ?y \<le> e" by (simp add: ulp_exp_def) linarith
  then have e: "of_int e = (of_int (ulp_exp p ?y) + real j :: real)" by (simp add: j_def)
  have "?y / 2 powr of_int (ulp_exp p ?y) = of_int (k * 2 ^ j)"
    by (subst e) (simp add: powr_add powr_realpow)
  then have "round_even (?y / 2 powr of_int (ulp_exp p ?y)) = k * 2 ^ j" by (simp only: round_even_int)
  moreover have "of_int (k * 2 ^ j) * 2 powr of_int (ulp_exp p ?y) = ?y"
    by (subst (2) e) (simp add: powr_add powr_realpow)
  ultimately show ?thesis using False by (simp add: fl_bits_def)
qed (simp add: fl_bits_def)

lemma fl_bits_idem: "fl_bits (Suc p) (fl_bits (Suc p) x) = fl_bits (Suc p) x"
proof (cases "x = 0")
  case False
  define u where "u = ulp_exp (Suc p) x"
  define k where "k = round_even (x / 2 powr of_int u)"
  have fl: "fl_bits (Suc p) x = of_int k * 2 powr of_int u" using False by (simp add: fl_bits_def u_def k_def)
  have "log 2 \<bar>x\<bar> < of_int (u + int (Suc p))" by (simp add: u_def ulp_exp_def)
  then have "\<bar>x\<bar> < 2 powr of_int u * 2 ^ Suc p"
    using False by (subst (asm) log_less_iff) (auto simp: powr_add powr_realpow)
  then have "\<bar>x / 2 powr of_int u\<bar> < 2 ^ Suc p" by (simp add: pos_divide_less_eq mult.commute)
  moreover have "\<bar>of_int k - x / 2 powr of_int u\<bar> \<le> 1 / 2" using round_even_error by (simp only: k_def)
  ultimately have "\<bar>of_int k :: real\<bar> < 2 ^ Suc p + 1" by linarith
  then have "(of_int \<bar>k\<bar> :: real) < of_int (2 ^ Suc p + 1)" by simp
  then have "\<bar>k\<bar> < 2 ^ Suc p + 1" by (simp only: of_int_less_iff)
  then consider "\<bar>k\<bar> < 2 ^ Suc p" | "k = 2 ^ Suc p" | "k = - (2 ^ Suc p)" by linarith
  then show ?thesis
  proof cases
    case 1
    then show ?thesis unfolding fl by (rule fl_bits_scaled)
  next
    case 2
    then have "of_int k * 2 powr of_int u = (of_int (2 ^ p) * 2 powr of_int (u + 1) :: real)" by (simp add: powr_add)
    then show ?thesis unfolding fl by (simp only:) (rule fl_bits_scaled, simp)
  next
    case 3
    then have "of_int k * 2 powr of_int u = (of_int (- (2 ^ p)) * 2 powr of_int (u + 1) :: real)" by (simp add: powr_add)
    then show ?thesis unfolding fl by (simp only:) (rule fl_bits_scaled, simp)
  qed
qed (simp add: fl_bits_def)

lemma fl64_idem [simp]: "fl64 (fl64 x) = fl64 x"
  using fl_bits_idem [of 52] by (simp add: eval_nat_numeral)

text \<open>Comparing a rounded quotient of integers with a rounded constant: the margin of one unit in the
  numerator is more than the two errors.\<close>

lemma fl64_close: "\<bar>fl64 x - x\<bar> \<le> \<bar>x\<bar> / 2 ^ 53"
  using fl_bits_error [of 52 x] by (simp add: eval_nat_numeral)

lemma fl64_half_double: "0 \<le> x \<Longrightarrow> x / 2 \<le> fl64 x \<and> fl64 x \<le> 2 * x"
proof -
  assume "0 \<le> x"
  then have "\<bar>fl64 x - x\<bar> \<le> x / 2" using fl64_close [of x] by simp
  then show ?thesis by linarith
qed

lemma fl64_quotient_below:
  assumes "0 \<le> d" "0 < m" "m < 2 ^ 51" "0 < c" "c * d < m"
  shows "fl64 (of_int d / of_int m) < fl64 (1 / of_int c)"
proof -
  let ?e = "1 / 2 ^ 53 :: real"
  have pos: "0 < (of_int m :: real)" "0 < (of_int c :: real)" "0 \<le> (of_int d :: real)" using assms by simp_all
  have "(of_int (c * d) :: real) \<le> of_int (m - 1)" using assms(5) by (intro of_int_le_iff [THEN iffD2]) simp
  then have q: "(of_int d :: real) / of_int m \<le> 1 / of_int c - 1 / (of_int c * of_int m)"
    using pos by (simp add: field_simps)
  have "of_int m * (2 / 2 ^ 53 :: real) < 1"
  proof -
    have "(of_int m :: real) < 2 ^ 51" using assms(3) by (metis of_int_less_iff of_int_numeral of_int_power)
    then show ?thesis by simp
  qed
  then have margin: "2 * ?e / of_int c < 1 / (of_int c * of_int m)" using pos by (simp add: field_simps)
  have "of_int d / of_int m * ?e \<le> 1 / of_int c * ?e"
    using q pos by (intro mult_right_mono) (auto intro: order_trans)
  moreover have "fl64 (of_int d / of_int m) \<le> of_int d / of_int m + of_int d / of_int m * ?e"
    using fl64_close [of "of_int d / of_int m"] pos by simp
  moreover have "1 / of_int c - 1 / of_int c * ?e \<le> fl64 (1 / of_int c)"
    using fl64_close [of "1 / of_int c"] pos by simp
  ultimately show ?thesis using q margin by simp
qed

lemma fl64_quotient_above:
  assumes "0 < m" "m < 2 ^ 51" "0 < c" "m < c * d"
  shows "fl64 (1 / of_int c) < fl64 (of_int d / of_int m)"
proof -
  let ?e = "1 / 2 ^ 53 :: real"
  have pos: "0 < (of_int m :: real)" "0 < (of_int c :: real)" using assms by simp_all
  have "(of_int (m + 1) :: real) \<le> of_int (c * d)" using assms(4) by (intro of_int_le_iff [THEN iffD2]) simp
  then have "(of_int (m + 1) :: real) / (of_int c * of_int m) \<le> of_int (c * d) / (of_int c * of_int m)"
    using pos by (intro divide_right_mono) simp_all
  then have q: "1 / of_int c + 1 / (of_int c * of_int m) \<le> (of_int d :: real) / of_int m"
    using pos by (simp add: add_divide_distrib)
  have m: "(of_int m :: real) < 2 ^ 51" using assms(2) by (metis of_int_less_iff of_int_numeral of_int_power)
  then have "of_int m * (3 / 2 ^ 53 :: real) < 1" by simp
  then have margin: "3 * ?e / of_int c < 1 / (of_int c * of_int m)" using pos by (simp add: field_simps)
  have "fl64 (1 / of_int c) \<le> 1 / of_int c + 1 / of_int c * ?e"
    using fl64_close [of "1 / of_int c"] pos by simp
  moreover have "of_int d / of_int m * (1 - ?e) \<le> fl64 (of_int d / of_int m)"
  proof -
    have "0 \<le> (of_int d :: real) / of_int m" using q pos by (auto intro: order_trans [rotated])
    then show ?thesis using fl64_close [of "of_int d / of_int m"] by (simp add: algebra_simps)
  qed
  moreover have "(1 / of_int c + 3 * ?e / of_int c) * (1 - ?e) \<le> of_int d / of_int m * (1 - ?e)"
    using q margin by (intro mult_right_mono) simp_all
  moreover have "1 / of_int c + 1 / of_int c * ?e < (1 / of_int c + 3 * ?e / of_int c) * (1 - ?e :: real)"
    using pos by (simp add: field_simps)
  ultimately show ?thesis by simp
qed

lemma fl64_quotient_less:
  assumes "0 \<le> d" "0 < m" "m < 2 ^ 51" "0 < c"
  shows "fl64 (of_int d / of_int m) < fl64 (1 / of_int c) \<longleftrightarrow> c * d < m"
proof -
  consider "c * d < m" | "c * d = m" | "m < c * d" by linarith
  then show ?thesis
  proof cases
    case 2
    then have "(of_int d :: real) / of_int m = 1 / of_int c" using assms by (auto simp: field_simps)
    with 2 show ?thesis by simp
  next
    case 3
    with fl64_quotient_above [OF assms(2-4)] show ?thesis by (meson not_less_iff_gr_or_eq)
  qed (use fl64_quotient_below [OF assms] in simp)
qed

end
