(* ===== verification/Thread_Factory.thy ===== *)
theory Thread_Factory
  imports Prelude Floats
begin

text \<open>
  \<^verbatim>\<open>src/threads/thread.h\<close>, \<^verbatim>\<open>src/threads/simple_thread_factory.h\<close> and
  \<^verbatim>\<open>src/threads/simple_thread_factory.cc\<close>: the life cycle of a \<^verbatim>\<open>SimpleThread\<close> and the factory
  with its translation of policies and priorities. Thread objects and runnables are named
  by numbers (their addresses). \<^verbatim>\<open>pthread_create\<close>, \<^verbatim>\<open>pthread_join\<close> and the
  \<^verbatim>\<open>sched_get_priority_*\<close> calls are parameters: the code only looks at what they return.
\<close>

type_synonym thread_ref = nat
type_synonym runnable_ref = nat
type_synonym pthread_t = nat

subsection \<open>SimpleThread\<close>

datatype StateEnum = T_UNINITIALIZED | T_STARTING | T_STARTED | T_STOPPING | T_STOPPED

record SimpleThread =
  pthread :: pthread_t
  state :: StateEnum
  policy :: int
  priority :: int
  stack_size :: int
  self :: "thread_ref option"
  detached :: bool
  runnable :: runnable_ref

definition SimpleThread_new :: "int \<Rightarrow> int \<Rightarrow> int \<Rightarrow> bool \<Rightarrow> runnable_ref \<Rightarrow> SimpleThread" where
  "SimpleThread_new pol prio stack det r =
     \<lparr>pthread = 0, state = T_UNINITIALIZED, policy = pol, priority = prio, stack_size = stack,
      self = None, detached = det, runnable = r\<rparr>"

definition kMB :: int where "kMB = 1024 * 1024"

record pthread_attr =
  attr_detached :: bool
  attr_stacksize :: int
  attr_policy :: int
  attr_priority :: int

text \<open>\<^verbatim>\<open>kMB * stack_size_\<close> is a 32-bit \<^verbatim>\<open>int\<close> product.\<close>

definition mul32 :: "int \<Rightarrow> int \<Rightarrow> int res" where
  "mul32 a b = (if - (2 ^ 31) \<le> a * b \<and> a * b < 2 ^ 31 then Inr (a * b) else Inl Undefined)"

text \<open>
  \<open>Start\<close> returns the new object and, when the call reached the operating system, the
  attributes it passed. \<open>create\<close> is the return code of \<^verbatim>\<open>pthread_create\<close> and the id it
  stored; a non-zero code is ignored by the source.
\<close>

definition SimpleThread_Start ::
  "(pthread_attr \<Rightarrow> int \<times> pthread_t) \<Rightarrow> SimpleThread \<Rightarrow> (SimpleThread \<times> pthread_attr option) res" where
  "SimpleThread_Start create th =
     (if state th \<noteq> T_UNINITIALIZED then Inr (th, None)
      else bind_res (mul32 kMB (stack_size th)) (\<lambda>bytes.
        let attr = \<lparr>attr_detached = detached th, attr_stacksize = bytes,
                    attr_policy = policy th, attr_priority = priority th\<rparr>;
            (ret, id) = create attr
        in Inr (th\<lparr>state := T_STARTING, pthread := id\<rparr>, Some attr)))"

definition SimpleThread_Join :: "(pthread_t \<Rightarrow> int) \<Rightarrow> SimpleThread \<Rightarrow> SimpleThread \<times> bool" where
  "SimpleThread_Join join th =
     (if \<not> detached th \<and> state th \<noteq> T_UNINITIALIZED
      then (th\<lparr>detached := (join (pthread th) = 0)\<rparr>, True) else (th, False))"

definition SimpleThread_delete :: "(pthread_t \<Rightarrow> int) \<Rightarrow> SimpleThread \<Rightarrow> SimpleThread \<times> bool" where
  "SimpleThread_delete join th = (if \<not> detached th then SimpleThread_Join join th else (th, False))"

definition SimpleThread_GetId :: "SimpleThread \<Rightarrow> pthread_t" where
  "SimpleThread_GetId th = pthread th"

definition SimpleThread_GetRunnable :: "SimpleThread \<Rightarrow> runnable_ref" where
  "SimpleThread_GetRunnable th = runnable th"

definition SimpleThread_SetRunnable :: "runnable_ref \<Rightarrow> SimpleThread \<Rightarrow> SimpleThread" where
  "SimpleThread_SetRunnable r th = th\<lparr>runnable := r\<rparr>"

definition WeakRef :: "thread_ref \<Rightarrow> thread_ref \<Rightarrow> SimpleThread \<Rightarrow> SimpleThread res" where
  "WeakRef self_ptr this th =
     (if self_ptr = this then Inr (th\<lparr>self := Some self_ptr\<rparr>) else Inl Aborted)"

text \<open>
  \<open>ThreadMain\<close> up to the call of the runnable (which runnable runs, if any) and from its
  return on. The argument of the new thread is \<^verbatim>\<open>self_.lock()\<close>: null when no weak reference
  was set.
\<close>

definition ThreadMain_begin :: "SimpleThread \<Rightarrow> SimpleThread \<times> runnable_ref option" where
  "ThreadMain_begin th =
     (if self th = None then (th, None)
      else if state th \<noteq> T_STARTING then (th, None)
      else (th\<lparr>state := T_STARTED\<rparr>, Some (SimpleThread_GetRunnable th)))"

definition ThreadMain_end :: "SimpleThread \<Rightarrow> SimpleThread" where
  "ThreadMain_end th =
     (if state th \<noteq> T_STOPPING \<and> state th \<noteq> T_STOPPED then th\<lparr>state := T_STOPPING\<rparr> else th)"

subsection \<open>SimpleThreadFactory\<close>

datatype PolicyEnum = OTHER | FIFO | ROUND_ROBIN
datatype PriorityEnum =
  LOWEST | LOWER | LOW | NORMAL | HIGH | HIGHER | HIGHEST | INCREMENT | DECREMENT

fun priority_value :: "PriorityEnum \<Rightarrow> int" where
  "priority_value LOWEST = 0" | "priority_value LOWER = 1" | "priority_value LOW = 2"
| "priority_value NORMAL = 3" | "priority_value HIGH = 4" | "priority_value HIGHER = 5"
| "priority_value HIGHEST = 6" | "priority_value INCREMENT = 7" | "priority_value DECREMENT = 8"

text \<open>Enumerators compare as their values.\<close>

instantiation PriorityEnum :: linorder
begin

definition less_eq_PriorityEnum :: "PriorityEnum \<Rightarrow> PriorityEnum \<Rightarrow> bool" where
  "p \<le> q \<longleftrightarrow> priority_value p \<le> priority_value q"

definition less_PriorityEnum :: "PriorityEnum \<Rightarrow> PriorityEnum \<Rightarrow> bool" where
  "p < q \<longleftrightarrow> priority_value p < priority_value q"

instance
proof
  fix p q :: PriorityEnum
  show "p \<le> q \<Longrightarrow> q \<le> p \<Longrightarrow> p = q"
    by (cases p; cases q) (simp_all add: less_eq_PriorityEnum_def)
qed (auto simp: less_eq_PriorityEnum_def less_PriorityEnum_def)

end

definition SCHED_OTHER :: int where "SCHED_OTHER = 0"
definition SCHED_FIFO :: int where "SCHED_FIFO = 1"
definition SCHED_RR :: int where "SCHED_RR = 2"

fun ToNativePolicy :: "PolicyEnum \<Rightarrow> int" where
  "ToNativePolicy OTHER = SCHED_OTHER"
| "ToNativePolicy FIFO = SCHED_FIFO"
| "ToNativePolicy ROUND_ROBIN = SCHED_RR"

text \<open>The arithmetic is in single precision (\<open>fl\<close> of \<open>Floats\<close>); a conversion to \<^verbatim>\<open>int\<close> truncates.\<close>

definition ToNativePriority ::
  "(int \<Rightarrow> int) \<Rightarrow> (int \<Rightarrow> int) \<Rightarrow> PolicyEnum \<Rightarrow> PriorityEnum \<Rightarrow> int res" where
  "ToNativePriority sched_get_priority_min sched_get_priority_max pol prio =
     (let pthread_policy = ToNativePolicy pol;
          min_priority = sched_get_priority_min pthread_policy;
          max_priority = sched_get_priority_max pthread_policy;
          quanta = (priority_value HIGHEST - priority_value LOWEST) + 1;
          stepsper_quanta = fl (fl (of_int (max_priority - min_priority)) / fl (of_int quanta))
      in if prio \<le> HIGHEST
         then Inr (to_int (fl (fl (of_int min_priority) +
                     fl (stepsper_quanta * fl (of_int (priority_value prio))))))
         else Inl Aborted)"

record SimpleThreadFactory =
  f_policy :: PolicyEnum
  f_priority :: PriorityEnum
  f_stack_size :: int
  f_detached :: bool

definition SimpleThreadFactory_new ::
  "PolicyEnum \<Rightarrow> PriorityEnum \<Rightarrow> int \<Rightarrow> bool \<Rightarrow> SimpleThreadFactory" where
  "SimpleThreadFactory_new pol prio stack det =
     \<lparr>f_policy = pol, f_priority = prio, f_stack_size = stack, f_detached = det\<rparr>"

definition SimpleThreadFactory_default :: SimpleThreadFactory where
  "SimpleThreadFactory_default = SimpleThreadFactory_new ROUND_ROBIN NORMAL 1 True"

text \<open>
  \<open>NewThread\<close>: \<open>addr\<close> is the address of the new object; the second component is what
  \<^verbatim>\<open>runnable->SetThread(result)\<close> stores in the runnable.
\<close>

definition NewThread ::
  "(int \<Rightarrow> int) \<Rightarrow> (int \<Rightarrow> int) \<Rightarrow> SimpleThreadFactory \<Rightarrow> thread_ref \<Rightarrow> runnable_ref \<Rightarrow>
     (SimpleThread \<times> (runnable_ref \<times> thread_ref)) res" where
  "NewThread pmin pmax f addr r =
     bind_res (ToNativePriority pmin pmax (f_policy f) (f_priority f)) (\<lambda>prio.
     bind_res (WeakRef addr addr
       (SimpleThread_new (ToNativePolicy (f_policy f)) prio (f_stack_size f) (f_detached f) r))
     (\<lambda>th. Inr (th, (r, addr))))"

definition GetStackSize :: "SimpleThreadFactory \<Rightarrow> int" where "GetStackSize f = f_stack_size f"
definition SetStackSize :: "int \<Rightarrow> SimpleThreadFactory \<Rightarrow> SimpleThreadFactory" where
  "SetStackSize v f = f\<lparr>f_stack_size := v\<rparr>"
definition GetPriority :: "SimpleThreadFactory \<Rightarrow> PriorityEnum" where "GetPriority f = f_priority f"
definition SetPriority :: "PriorityEnum \<Rightarrow> SimpleThreadFactory \<Rightarrow> SimpleThreadFactory" where
  "SetPriority v f = f\<lparr>f_priority := v\<rparr>"
definition IsDetached :: "SimpleThreadFactory \<Rightarrow> bool" where "IsDetached f = f_detached f"
definition SetDetached :: "bool \<Rightarrow> SimpleThreadFactory \<Rightarrow> SimpleThreadFactory" where
  "SetDetached v f = f\<lparr>f_detached := v\<rparr>"

subsection \<open>The life of a thread object\<close>

text \<open>
  One \<^verbatim>\<open>SimpleThread\<close> used by any threads: calls of \<^verbatim>\<open>Start\<close> and \<^verbatim>\<open>Join\<close>, and the new thread in
  \<^verbatim>\<open>ThreadMain\<close>, in any order. The counters are history: successful calls of \<^verbatim>\<open>pthread_create\<close> (\<open>l_created\<close>),
  threads that entered \<^verbatim>\<open>ThreadMain\<close> (\<open>l_begun\<close>), runs of the runnable, successful calls of
  \<^verbatim>\<open>pthread_join\<close>.
\<close>

record life =
  l_th :: SimpleThread
  l_created :: nat
  l_begun :: nat
  l_runs :: nat
  l_joined :: nat

inductive life_step :: "life \<Rightarrow> life \<Rightarrow> bool" where
  life_start:
    "SimpleThread_Start create (l_th l) = Inr (t', attr) \<Longrightarrow>
     life_step l (l\<lparr>l_th := t', l_created := l_created l + (case attr of None \<Rightarrow> 0 | Some a \<Rightarrow> if fst (create a) = 0 then 1 else 0)\<rparr>)"
| life_join:
    "SimpleThread_Join join (l_th l) = (t', called) \<Longrightarrow>
     life_step l (l\<lparr>l_th := t', l_joined := l_joined l + (if called \<and> join (pthread (l_th l)) = 0 then 1 else 0)\<rparr>)"
| life_delete:
    "SimpleThread_delete join (l_th l) = (t', called) \<Longrightarrow>
     life_step l (l\<lparr>l_th := t', l_joined := l_joined l + (if called \<and> join (pthread (l_th l)) = 0 then 1 else 0)\<rparr>)"
| life_begin:
    "\<lbrakk>l_begun l < l_created l; ThreadMain_begin (l_th l) = (t', r)\<rbrakk> \<Longrightarrow>
     life_step l (l\<lparr>l_th := t', l_begun := l_begun l + 1, l_runs := l_runs l + (if r = None then 0 else 1)\<rparr>)"
| life_end: "state (l_th l) = T_STARTED \<Longrightarrow> life_step l (l\<lparr>l_th := ThreadMain_end (l_th l)\<rparr>)"

definition life_init :: "life \<Rightarrow> bool" where
  "life_init l \<longleftrightarrow> state (l_th l) = T_UNINITIALIZED \<and> l_created l = 0 \<and> l_begun l = 0 \<and> l_runs l = 0 \<and> l_joined l = 0"

definition life_inv :: "life \<Rightarrow> bool" where
  "life_inv l \<longleftrightarrow> (state (l_th l) = T_UNINITIALIZED \<longrightarrow> l_created l = 0 \<and> l_joined l = 0) \<and>
     l_created l \<le> 1 \<and> l_begun l \<le> l_created l \<and> l_runs l \<le> l_begun l \<and>
     l_joined l \<le> 1 \<and> (0 < l_joined l \<longrightarrow> detached (l_th l))"

lemma SimpleThread_StartD:
  "SimpleThread_Start create t = Inr (t', attr) \<Longrightarrow>
     (state t \<noteq> T_UNINITIALIZED \<and> t' = t \<and> attr = None) \<or>
     (state t = T_UNINITIALIZED \<and> state t' = T_STARTING \<and> detached t' = detached t \<and> attr \<noteq> None)"
  by (auto simp: SimpleThread_Start_def bind_res_eq_Inr Let_def case_prod_beta split: if_splits)

lemma SimpleThread_JoinD:
  "SimpleThread_Join join t = (t', called) \<Longrightarrow> state t' = state t \<and>
     (called \<and> \<not> detached t \<and> state t \<noteq> T_UNINITIALIZED \<and> detached t' = (join (pthread t) = 0) \<or>
      \<not> called \<and> t' = t)"
  by (auto simp: SimpleThread_Join_def split: if_splits)

lemma SimpleThread_deleteD:
  "SimpleThread_delete join t = (t', called) \<Longrightarrow> state t' = state t \<and>
     (called \<and> \<not> detached t \<and> state t \<noteq> T_UNINITIALIZED \<and> detached t' = (join (pthread t) = 0) \<or>
      \<not> called \<and> t' = t)"
  by (auto simp: SimpleThread_delete_def split: if_splits dest: SimpleThread_JoinD)

lemma life_inv_step: "life_step l l' \<Longrightarrow> life_inv l \<Longrightarrow> life_inv l'"
proof (induction rule: life_step.induct)
  case (life_start create l t' attr)
  from SimpleThread_StartD [OF life_start(1)] life_start(2) show ?case
    by (auto simp: life_inv_def split: option.splits)
next
  case (life_join join l t' called)
  from SimpleThread_JoinD [OF life_join(1)] life_join(2) show ?case by (auto simp: life_inv_def)
next
  case (life_delete join l t' called)
  from SimpleThread_deleteD [OF life_delete(1)] life_delete(2) show ?case by (auto simp: life_inv_def)
next
  case (life_begin l t' r)
  then show ?case by (auto simp: life_inv_def ThreadMain_begin_def split: if_splits)
next
  case (life_end l)
  then show ?case by (auto simp: life_inv_def ThreadMain_end_def)
qed

lemma life_inv_init: "life_init l \<Longrightarrow> life_inv l"
  by (simp add: life_init_def life_inv_def)

interpretation life: inductive_invariant life_init life_step life_inv
  by unfold_locales (blast intro: life_inv_init life_inv_step)+

subsection \<open>Properties\<close>

text \<open>C22. A thread object starts at most one thread, runs its runnable at most once, and is joined
  successfully at most once, however often and in whatever order \<^verbatim>\<open>Start\<close>, \<^verbatim>\<open>Join\<close>, the destructor
  and \<^verbatim>\<open>ThreadMain\<close> are called and whatever the system calls return; nothing is joined before \<^verbatim>\<open>Start\<close>.\<close>

theorem SimpleThread_lifecycle:
  assumes "reachable life_init life_step l"
  shows "l_created l \<le> 1 \<and> l_runs l \<le> l_created l \<and> l_joined l \<le> 1 \<and>
    (state (l_th l) = T_UNINITIALIZED \<longrightarrow> l_created l = 0 \<and> l_runs l = 0 \<and> l_joined l = 0)"
  using life.always [OF assms] by (auto simp: life_inv_def)

theorem SimpleThread_lifecycle_witness:
  "l_runs \<lparr>l_th = (SimpleThread_new 2 43 1 True 9)\<lparr>self := Some 4, state := T_STARTED, pthread := 77\<rparr>,
     l_created = 1, l_begun = 1, l_runs = 1, l_joined = 0\<rparr> \<le> 1"
proof -
  let ?t = "(SimpleThread_new 2 43 1 True 9)\<lparr>self := Some 4\<rparr>"
  let ?l = "\<lambda>t c b r. \<lparr>l_th = t, l_created = c, l_begun = b, l_runs = r, l_joined = 0\<rparr>"
  let ?s = "?t\<lparr>state := T_STARTING, pthread := 77\<rparr>"
  have 0: "reachable life_init life_step (?l ?t 0 0 0)"
    by (rule reachable_init) (simp add: life_init_def SimpleThread_new_def)
  have "life_step (?l ?t 0 0 0) (?l ?s 1 0 0)"
    using life_start [of "\<lambda>_. (0, 77)" "?l ?t 0 0 0"]
    by (simp add: SimpleThread_Start_def SimpleThread_new_def mul32_def kMB_def)
  with 0 have 1: "reachable life_init life_step (?l ?s 1 0 0)" by (rule reachable_step)
  have "life_step (?l ?s 1 0 0) (?l (?t\<lparr>state := T_STARTED, pthread := 77\<rparr>) 1 1 1)"
    using life_begin [of "?l ?s 1 0 0"]
    by (simp add: ThreadMain_begin_def SimpleThread_GetRunnable_def SimpleThread_new_def)
  with 1 have "reachable life_init life_step (?l (?t\<lparr>state := T_STARTED, pthread := 77\<rparr>) 1 1 1)"
    by (rule reachable_step)
  from SimpleThread_lifecycle [OF this] show ?thesis by simp
qed

text \<open>Priorities. When the range of native priorities is divided evenly by the seven levels (as
  \<^verbatim>\<open>1 .. 99\<close> of the real-time policies is), the level \<open>p\<close> maps exactly to the minimum plus \<open>p\<close>
  steps, in spite of the single-precision arithmetic, and so stays in the range; the two
  pseudo-levels \<^verbatim>\<open>INCREMENT\<close> and \<^verbatim>\<open>DECREMENT\<close> always end in the failing assertion.\<close>

theorem ToNativePriority_levels:
  assumes "0 \<le> pmin (ToNativePolicy pol)" and "pmax (ToNativePolicy pol) < 2 ^ 24"
    and "pmax (ToNativePolicy pol) = pmin (ToNativePolicy pol) + 7 * k" and "0 \<le> k"
  shows "(prio \<noteq> INCREMENT \<and> prio \<noteq> DECREMENT \<longrightarrow>
      ToNativePriority pmin pmax pol prio = Inr (pmin (ToNativePolicy pol) + k * priority_value prio) \<and>
      pmin (ToNativePolicy pol) + k * priority_value prio \<in>
        {pmin (ToNativePolicy pol) .. pmax (ToNativePolicy pol)}) \<and>
    ToNativePriority pmin pmax pol INCREMENT = Inl Aborted \<and>
    ToNativePriority pmin pmax pol DECREMENT = Inl Aborted"
proof -
  define lo where "lo = pmin (ToNativePolicy pol)"
  have hi: "pmax (ToNativePolicy pol) = lo + 7 * k" and lo: "0 \<le> lo" "lo + 7 * k < 2 ^ 24"
    using assms by (simp_all add: lo_def)
  have "fl (of_int (7 * k)) = of_int (7 * k)" "fl (of_int 7) = of_int 7" "fl (of_int k) = of_int k"
    "fl (of_int lo) = of_int lo"
    by (rule fl_bits_int [where p = 24], use lo assms(4) in simp)+
  note exact = this [simplified]
  have "ToNativePriority pmin pmax pol prio = Inr (lo + k * priority_value prio) \<and>
      lo \<le> lo + k * priority_value prio \<and> lo + k * priority_value prio \<le> lo + 7 * k"
    if p: "prio \<noteq> INCREMENT \<and> prio \<noteq> DECREMENT"
  proof -
    define v where "v = priority_value prio"
    have v: "0 \<le> v" "v \<le> 6" using p by (cases prio; simp add: v_def)+
    then have kv: "0 \<le> k * v" "k * v \<le> k * 6" using assms(4) by (simp_all add: mult_left_mono)
    have fv: "fl (of_int v) = of_int v" "fl (of_int (k * v)) = of_int (k * v)"
      "fl (of_int (lo + k * v)) = of_int (lo + k * v)"
      by (rule fl_bits_int [where p = 24], use lo v kv in simp)+
    have "fl (of_int lo + fl (of_int k * of_int v)) = of_int (lo + k * v)"
      using fv(2,3) by simp
    moreover have "fl (fl (of_int (7 * k)) / fl 7) = of_int k" using exact by simp
    moreover have "to_int (of_int lo + of_int k * of_int v) = lo + k * v"
      using to_int_of_int [of "lo + k * v"] by simp
    ultimately show ?thesis
      using v kv lo fv(1) exact
      by (simp add: ToNativePriority_def Let_def less_eq_PriorityEnum_def hi lo_def [symmetric] v_def [symmetric])
  qed
  then show ?thesis by (auto simp: lo_def hi ToNativePriority_def Let_def less_eq_PriorityEnum_def)
qed

theorem ToNativePriority_levels_witness:
  "ToNativePriority (\<lambda>_. 1) (\<lambda>_. 99) ROUND_ROBIN NORMAL = Inr 43"
proof -
  have "ToNativePriority (\<lambda>_. 1) (\<lambda>_. 99) ROUND_ROBIN NORMAL = Inr (1 + 14 * priority_value NORMAL)"
    using ToNativePriority_levels [of "\<lambda>_. 1" ROUND_ROBIN "\<lambda>_. 99" 14 NORMAL] by fastforce
  then show ?thesis by simp
qed

end
