(* ===== verification/Thread_Manager.thy ===== *)
theory Thread_Manager
  imports Time_Util Thread_Factory
begin

text \<open>
  The state of \<^verbatim>\<open>ThreadManager::Impl\<close> (\<^verbatim>\<open>src/threads/thread_manager.cc\<close>) and, one function
  per critical section, everything its methods and \<^verbatim>\<open>ThreadManager::Worker::Run\<close> do to it.
  A section is the code between taking a mutex and releasing it, or waiting on one of its
  condition variables; the theory \<^verbatim>\<open>Thread_Pool\<close> runs the sections of many threads
  interleaved. Here a section is a state transformer that also returns what it signals.

  Tasks and callbacks are values; a runnable, a callback and a thread object are named by
  a number. The client's expiry callback is user code: a section returns the calls made to
  it, in order; it is taken to return normally. \<open>cur\<close> is the value of \<^verbatim>\<open>TimeUtil::CurrentTime()\<close> during the section.
  Counters are 64-bit words, so an increment or decrement wraps as \<^verbatim>\<open>size_t\<close> does.
\<close>

subsection \<open>Data\<close>

datatype TM_STATE = UNINITIALIZED | STARTING | STARTED | JOINING | STOPPING | STOPPED

datatype Task_STATE = WAITING | EXECUTING | CANCELLED | COMPLETE

record Task =
  task_runnable :: runnable_ref
  task_state :: Task_STATE
  expire_time :: int64

type_synonym callback = nat

record Impl =
  worker_count :: size_t
  worker_max_count :: size_t
  idle_count :: size_t
  pending_task_count_max :: size_t
  expired_count :: size_t
  expire_callback :: "callback option"
  tm_state :: TM_STATE
  thread_factory :: "SimpleThreadFactory option"
  tasks :: "Task list"
  workers :: "thread_ref set"
  dead_workers :: "thread_ref set"
  id_map :: "pthread_t \<rightharpoonup> thread_ref"

definition Impl_new :: Impl where
  "Impl_new =
     \<lparr>worker_count = 0, worker_max_count = 0, idle_count = 0, pending_task_count_max = 0,
      expired_count = 0, expire_callback = None, tm_state = UNINITIALIZED,
      thread_factory = None, tasks = [], workers = {}, dead_workers = {}, id_map = Map.empty\<rparr>"

definition tasks_size :: "Impl \<Rightarrow> size_t" where
  "tasks_size m = of_nat (length (tasks m))"

subsection \<open>Task\<close>

definition Task_new :: "int64 \<Rightarrow> runnable_ref \<Rightarrow> int64 \<Rightarrow> Task res" where
  "Task_new cur r expiration =
     bind_res (if expiration \<noteq> 0 then add64 cur expiration else Inr 0)
       (\<lambda>e. Inr \<lparr>task_runnable = r, task_state = WAITING, expire_time = e\<rparr>)"

definition GetRunnable :: "Task \<Rightarrow> runnable_ref" where "GetRunnable t = task_runnable t"
definition GetExpireTime :: "Task \<Rightarrow> int64" where "GetExpireTime t = expire_time t"

text \<open>
  \<open>Task_Run\<close>: which runnable is called, and the task afterwards. When the runnable throws,
  the exception leaves \<^verbatim>\<open>Task::Run\<close> before the state is set; the worker catches it.
\<close>

definition Task_Run :: "bool \<Rightarrow> Task \<Rightarrow> Task \<times> runnable_ref option" where
  "Task_Run runnable_throws t =
     (if task_state t = EXECUTING
      then (if runnable_throws then t else t\<lparr>task_state := COMPLETE\<rparr>, Some (task_runnable t))
      else (t, None))"

subsection \<open>Accessors\<close>

definition GetState :: "Impl \<Rightarrow> TM_STATE" where "GetState m = tm_state m"
definition GetThreadFactory :: "Impl \<Rightarrow> SimpleThreadFactory option" where
  "GetThreadFactory m = thread_factory m"
definition SetThreadFactory :: "SimpleThreadFactory option \<Rightarrow> Impl \<Rightarrow> Impl" where
  "SetThreadFactory v m = m\<lparr>thread_factory := v\<rparr>"
definition IdleWorkerCount :: "Impl \<Rightarrow> size_t" where "IdleWorkerCount m = idle_count m"
definition WorkerCount :: "Impl \<Rightarrow> size_t" where "WorkerCount m = worker_count m"
definition PendingTaskCount :: "Impl \<Rightarrow> size_t" where "PendingTaskCount m = tasks_size m"
definition TotalTaskCount :: "Impl \<Rightarrow> size_t" where
  "TotalTaskCount m = tasks_size m + worker_count m - idle_count m"
definition PendingTaskCountMax :: "Impl \<Rightarrow> size_t" where
  "PendingTaskCountMax m = pending_task_count_max m"
definition ExpiredTaskCount :: "Impl \<Rightarrow> size_t \<times> Impl" where
  "ExpiredTaskCount m = (expired_count m, m\<lparr>expired_count := 0\<rparr>)"
definition SetExpireCallback :: "callback option \<Rightarrow> Impl \<Rightarrow> Impl" where
  "SetExpireCallback cb m = m\<lparr>expire_callback := cb\<rparr>"
definition SetPendingTaskCountMax :: "size_t \<Rightarrow> Impl \<Rightarrow> Impl" where
  "SetPendingTaskCountMax v m = m\<lparr>pending_task_count_max := v\<rparr>"

subsection \<open>RemoveExpiredTasks\<close>

text \<open>
  The loop, with its local \<^verbatim>\<open>now\<close>, which is read from the clock at the first task that has
  an expiry time. It returns the calls of the callback.
\<close>

function RemoveExpiredTasks_loop ::
  "int64 \<Rightarrow> int64 \<Rightarrow> Impl \<Rightarrow> (callback \<times> runnable_ref) list \<times> Impl" where
  "RemoveExpiredTasks_loop cur now m =
     (case tasks m of
        [] \<Rightarrow> ([], m)
      | task # rest \<Rightarrow>
          if GetExpireTime task = 0 then ([], m)
          else
            let now' = (if now = 0 then cur else now) in
            if GetExpireTime task > now' then ([], m)
            else
              let calls = (case expire_callback m of
                             None \<Rightarrow> [] | Some cb \<Rightarrow> [(cb, GetRunnable task)]);
                  (calls', m') = RemoveExpiredTasks_loop cur now'
                    (m\<lparr>tasks := rest, expired_count := expired_count m + 1\<rparr>)
              in (calls @ calls', m'))"
  by pat_completeness auto
termination
  by (relation "measure (\<lambda>(cur, now, m). length (tasks m))") auto

declare RemoveExpiredTasks_loop.simps [simp del]

definition RemoveExpiredTasks :: "int64 \<Rightarrow> Impl \<Rightarrow> (callback \<times> runnable_ref) list \<times> Impl" where
  "RemoveExpiredTasks cur m = RemoveExpiredTasks_loop cur 0 m"

subsection \<open>Worker::Run\<close>

definition IsActive :: "Impl \<Rightarrow> bool" where
  "IsActive m \<longleftrightarrow> worker_count m \<le> worker_max_count m
     \<or> (tm_state m = JOINING \<and> tasks m \<noteq> [])"

text \<open>The first section (monitor \<^verbatim>\<open>monitor_\<close>): (\<^verbatim>\<open>active\<close>, \<^verbatim>\<open>notify_manager\<close>, state).\<close>

definition Worker_enter :: "Impl \<Rightarrow> bool \<times> bool \<times> Impl" where
  "Worker_enter m =
     (let active = worker_count m < worker_max_count m in
      if active then
        let m' = m\<lparr>worker_count := worker_count m + 1\<rparr>
        in (True, worker_count m' = worker_max_count m', m')
      else (False, False, m))"

text \<open>
  The section of the main loop (mutex \<^verbatim>\<open>mutex_\<close>), from the point where \<^verbatim>\<open>active\<close> has been
  computed: leave the loop, wait for work, or take the front task.
\<close>

datatype worker_action =
    Leave Impl
  | Sleep Impl
  | Proceed "Task option" bool "(callback \<times> runnable_ref) list" Impl

definition Worker_take ::
  "int64 \<Rightarrow> Impl \<Rightarrow> Task option \<times> bool \<times> (callback \<times> runnable_ref) list \<times> Impl" where
  "Worker_take cur m =
     (let (calls, m1) = RemoveExpiredTasks cur m;
          (task, m2) = (case tasks m1 of
              [] \<Rightarrow> (None, m1)
            | t # rest \<Rightarrow>
                (Some (if task_state t = WAITING then t\<lparr>task_state := EXECUTING\<rparr> else t),
                 m1\<lparr>tasks := rest\<rparr>));
          notify_max = (pending_task_count_max m2 \<noteq> 0 \<and>
                        tasks_size m2 \<le> pending_task_count_max m2 - 1)
      in (task, notify_max, calls, m2))"

definition Worker_loop :: "int64 \<Rightarrow> bool \<Rightarrow> Impl \<Rightarrow> worker_action" where
  "Worker_loop cur active m =
     (if active \<and> tasks m = [] then Sleep (m\<lparr>idle_count := idle_count m + 1\<rparr>)
      else if active then
        let (task, notify_max, calls, m') = Worker_take cur m
        in Proceed task notify_max calls m'
      else Leave m)"

text \<open>At the top of the loop, and after \<^verbatim>\<open>monitor_.Wait()\<close> returned.\<close>

definition Worker_top :: "int64 \<Rightarrow> Impl \<Rightarrow> worker_action" where
  "Worker_top cur m = Worker_loop cur (IsActive m) m"

definition Worker_wake :: "Impl \<Rightarrow> bool \<times> Impl" where
  "Worker_wake m = (IsActive m, m\<lparr>idle_count := idle_count m - 1\<rparr>)"

text \<open>The last section (monitor \<^verbatim>\<open>worker_monitor_\<close>): (\<^verbatim>\<open>notify_manager\<close>, state).\<close>

definition Worker_exit :: "thread_ref \<Rightarrow> Impl \<Rightarrow> bool \<times> Impl" where
  "Worker_exit this_thread m =
     (let m' = m\<lparr>dead_workers := insert this_thread (dead_workers m),
                 worker_count := worker_count m - 1\<rparr>
      in (worker_count m' = worker_max_count m', m'))"

subsection \<open>AddWorker, RemoveWorker\<close>

text \<open>\<open>AddWorker\<close>: the section that publishes the new threads, and the \<^verbatim>\<open>id_map_\<close> insertion
  (\<^verbatim>\<open>std::map::insert\<close> keeps an existing entry).\<close>

definition AddWorker_publish :: "size_t \<Rightarrow> thread_ref set \<Rightarrow> Impl \<Rightarrow> Impl" where
  "AddWorker_publish value new_threads m =
     m\<lparr>worker_max_count := worker_max_count m + value, workers := workers m \<union> new_threads\<rparr>"

definition id_map_insert :: "pthread_t \<Rightarrow> thread_ref \<Rightarrow> Impl \<Rightarrow> Impl" where
  "id_map_insert key th m =
     (if key \<in> dom (id_map m) then m else m\<lparr>id_map := (id_map m)(key \<mapsto> th)\<rparr>)"

text \<open>The condition both \<open>AddWorker\<close> and \<open>RemoveWorker\<close> wait for.\<close>

definition workers_settled :: "Impl \<Rightarrow> bool" where
  "workers_settled m \<longleftrightarrow> \<not> (worker_count m \<noteq> worker_max_count m)"

datatype notification = Notify_times nat | NotifyAll

text \<open>\<open>RemoveWorker\<close>: the section that lowers the maximum and wakes idle workers, and the
  cleaning of the dead ones. \<open>pid\<close> is \<^verbatim>\<open>GetId()\<close> of a thread object.\<close>

definition RemoveWorker_request :: "size_t \<Rightarrow> Impl \<Rightarrow> exn + (notification \<times> Impl)" where
  "RemoveWorker_request value m =
     (if value > worker_max_count m then Inl InvalidArgumentException
      else
        let m' = m\<lparr>worker_max_count := worker_max_count m - value\<rparr>
        in Inr (if idle_count m' < value then Notify_times (unat (idle_count m')) else NotifyAll, m'))"

definition RemoveWorker_clean :: "(thread_ref \<Rightarrow> pthread_t) \<Rightarrow> Impl \<Rightarrow> Impl" where
  "RemoveWorker_clean pid m =
     m\<lparr>id_map := (id_map m) |` (- (pid ` dead_workers m)),
       workers := workers m - dead_workers m, dead_workers := {}\<rparr>"

subsection \<open>Start, Stop, Join\<close>

text \<open>\<open>Start\<close>: whether \<^verbatim>\<open>monitor_\<close> is broadcast, and the state. No code sets \<^verbatim>\<open>STARTING\<close>,
  so the waiting loop is never entered; \<open>Start_waits\<close> is its condition.\<close>

definition Start :: "Impl \<Rightarrow> exn + (bool \<times> Impl)" where
  "Start m =
     (if tm_state m = STOPPED then Inr (False, m)
      else if tm_state m = UNINITIALIZED then
        if thread_factory m = None then Inl InvalidArgumentException
        else Inr (True, m\<lparr>tm_state := STARTED\<rparr>)
      else Inr (False, m))"

definition Start_waits :: "Impl \<Rightarrow> bool" where
  "Start_waits m \<longleftrightarrow> tm_state m = STARTING"

text \<open>\<open>StopImpl\<close>: the section that claims the stop (\<^verbatim>\<open>do_stop\<close>), and the last section.\<close>

definition StopImpl_claim :: "bool \<Rightarrow> Impl \<Rightarrow> bool \<times> Impl" where
  "StopImpl_claim join m =
     (if tm_state m \<noteq> STOPPING \<and> tm_state m \<noteq> JOINING \<and> tm_state m \<noteq> STOPPED
      then (True, m\<lparr>tm_state := (if join then JOINING else STOPPING)\<rparr>)
      else (False, m))"

definition StopImpl_finish :: "Impl \<Rightarrow> Impl" where
  "StopImpl_finish m = m\<lparr>tm_state := STOPPED\<rparr>"

subsection \<open>Add, Remove, RemoveNextPending\<close>

definition CanSleep :: "pthread_t \<Rightarrow> Impl \<Rightarrow> bool" where
  "CanSleep current m \<longleftrightarrow> id_map m current = None"

definition queue_full :: "Impl \<Rightarrow> bool" where
  "queue_full m \<longleftrightarrow> pending_task_count_max m > 0 \<and> tasks_size m \<ge> pending_task_count_max m"

text \<open>What a pass through \<open>Add\<close> ends with: an exception, waiting on \<^verbatim>\<open>max_monitor_\<close>, or the
  task queued (and whether \<^verbatim>\<open>monitor_\<close> is notified).\<close>

datatype add_outcome =
    Add_throws exn "(callback \<times> runnable_ref) list" Impl
  | Add_waits "(callback \<times> runnable_ref) list" Impl
  | Add_queued bool "(callback \<times> runnable_ref) list" Impl
  | Add_undefined

definition Add_push ::
  "int64 \<Rightarrow> runnable_ref \<Rightarrow> int64 \<Rightarrow> (callback \<times> runnable_ref) list \<Rightarrow> Impl \<Rightarrow> add_outcome" where
  "Add_push cur value expiration calls m =
     (case Task_new cur value expiration of
        Inl _ \<Rightarrow> Add_undefined
      | Inr task \<Rightarrow> Add_queued (idle_count m > 0) calls (m\<lparr>tasks := tasks m @ [task]\<rparr>))"

text \<open>\<open>locked\<close> is what the guard \<^verbatim>\<open>Guard g(mutex_, timeout)\<close> converts to; \<open>cur\<close> and \<open>cur2\<close> are the
  readings of the clock by \<open>RemoveExpiredTasks\<close> and by the constructor of \<^verbatim>\<open>Task\<close>.\<close>

definition Add_enter ::
  "bool \<Rightarrow> pthread_t \<Rightarrow> int64 \<Rightarrow> int64 \<Rightarrow> runnable_ref \<Rightarrow> int64 \<Rightarrow> int64 \<Rightarrow> Impl \<Rightarrow> add_outcome" where
  "Add_enter locked current cur cur2 value timeout expiration m =
     (if \<not> locked then Add_throws TimedOut_default [] m
      else if tm_state m \<noteq> STARTED then
        Add_throws (IllegalStateException ''ThreadManager::Impl::Add ThreadManager not started'') [] m
      else
        let (calls, m1) = RemoveExpiredTasks cur m in
        if queue_full m1 then
          if CanSleep current m1 \<and> timeout \<ge> 0 then Add_waits calls m1
          else Add_throws TooManyPendingTasks_default calls m1
        else Add_push cur2 value expiration calls m1)"

text \<open>After \<^verbatim>\<open>max_monitor_.Wait(timeout)\<close>: the loop condition again. A timeout of the wait
  leaves \<open>Add\<close> with an exception instead.\<close>

definition Add_resume :: "int64 \<Rightarrow> runnable_ref \<Rightarrow> int64 \<Rightarrow> Impl \<Rightarrow> add_outcome" where
  "Add_resume cur value expiration m =
     (if queue_full m then Add_waits [] m else Add_push cur value expiration [] m)"

definition Remove :: "runnable_ref \<Rightarrow> Impl \<Rightarrow> exn + Impl" where
  "Remove task m =
     (if tm_state m \<noteq> STARTED
      then Inl (IllegalStateException ''ThreadManager::Impl::Remove ThreadManager not started'')
      else Inr m)"

definition RemoveNextPending :: "Impl \<Rightarrow> exn + (runnable_ref option \<times> Impl)" where
  "RemoveNextPending m =
     (if tm_state m = STARTED
      then Inl (IllegalStateException ''ThreadManager::Impl::RemoveNextPending ThreadManager not started'')
      else case tasks m of
        [] \<Rightarrow> Inr (None, m)
      | task # rest \<Rightarrow> Inr (Some (GetRunnable task), m\<lparr>tasks := rest\<rparr>))"

subsection \<open>SimpleThreadManager\<close>

record SimpleThreadManager =
  s_worker_count :: size_t
  s_pending_task_count_max :: size_t

text \<open>\<^verbatim>\<open>SimpleThreadManager::Start\<close> up to its call of \<open>AddWorker(worker_count_)\<close>.\<close>

definition Simple_Start :: "SimpleThreadManager \<Rightarrow> Impl \<Rightarrow> exn + (bool \<times> Impl)" where
  "Simple_Start cfg m = Start (SetPendingTaskCountMax (s_pending_task_count_max cfg) m)"

definition NewThreadManager :: Impl where "NewThreadManager = Impl_new"

definition NewSimpleThreadManager :: "size_t \<Rightarrow> size_t \<Rightarrow> SimpleThreadManager \<times> Impl" where
  "NewSimpleThreadManager count pending =
     (\<lparr>s_worker_count = count, s_pending_task_count_max = pending\<rparr>, Impl_new)"

subsection \<open>Lemmas on the sections\<close>

text \<open>A task is dropped exactly if it has an expiry time and that time has come.\<close>

definition is_expired :: "int64 \<Rightarrow> Task \<Rightarrow> bool" where
  "is_expired cur t \<longleftrightarrow> expire_time t \<noteq> 0 \<and> expire_time t \<le> cur"

definition callback_calls :: "callback option \<Rightarrow> Task list \<Rightarrow> (callback \<times> runnable_ref) list" where
  "callback_calls cb ts = (case cb of None \<Rightarrow> [] | Some c \<Rightarrow> map (\<lambda>t. (c, task_runnable t)) ts)"

lemma RemoveExpiredTasks_loop_eq:
  "now = 0 \<or> now = cur \<Longrightarrow>
   RemoveExpiredTasks_loop cur now m =
     (callback_calls (expire_callback m) (takeWhile (is_expired cur) (tasks m)),
      m\<lparr>tasks := dropWhile (is_expired cur) (tasks m),
        expired_count := expired_count m + of_nat (length (takeWhile (is_expired cur) (tasks m)))\<rparr>)"
proof (induction cur now m rule: RemoveExpiredTasks_loop.induct)
  case (1 cur now m)
  show ?case
  proof (cases "tasks m")
    case Nil
    then show ?thesis
      by (subst RemoveExpiredTasks_loop.simps) (simp add: callback_calls_def split: option.split)
  next
    case (Cons t rest)
    show ?thesis
    proof (cases "is_expired cur t")
      case True
      with "1.prems" have now: "(if now = 0 then cur else now) = cur"
        and due: "GetExpireTime t \<noteq> 0" "\<not> GetExpireTime t > cur"
        by (auto simp: is_expired_def GetExpireTime_def)
      from "1.IH" [OF Cons due(1) refl, unfolded now, OF due(2)]
      have "RemoveExpiredTasks_loop cur cur (m\<lparr>tasks := rest, expired_count := expired_count m + 1\<rparr>) =
        (callback_calls (expire_callback m) (takeWhile (is_expired cur) rest),
         m\<lparr>tasks := dropWhile (is_expired cur) rest,
           expired_count := expired_count m + 1 + of_nat (length (takeWhile (is_expired cur) rest))\<rparr>)"
        by simp
      with Cons now due True show ?thesis
        by (subst RemoveExpiredTasks_loop.simps)
          (simp add: Let_def callback_calls_def GetRunnable_def add.assoc split: option.split)
    next
      case False
      with "1.prems" Cons show ?thesis
        by (subst RemoveExpiredTasks_loop.simps)
          (auto simp: is_expired_def GetExpireTime_def Let_def callback_calls_def split: option.split)
    qed
  qed
qed

lemma RemoveExpiredTasks_eq [section_simps]:
  "RemoveExpiredTasks cur m =
     (callback_calls (expire_callback m) (takeWhile (is_expired cur) (tasks m)),
      m\<lparr>tasks := dropWhile (is_expired cur) (tasks m),
        expired_count := expired_count m + of_nat (length (takeWhile (is_expired cur) (tasks m)))\<rparr>)"
  by (simp add: RemoveExpiredTasks_def RemoveExpiredTasks_loop_eq)

text \<open>The state after dropping the expired tasks at the front.\<close>

definition expire :: "int64 \<Rightarrow> Impl \<Rightarrow> Impl" where
  "expire cur m = snd (RemoveExpiredTasks cur m)"

lemma expire_simps [simp]:
  "tasks (expire cur m) = dropWhile (is_expired cur) (tasks m)"
  "worker_count (expire cur m) = worker_count m"
  "worker_max_count (expire cur m) = worker_max_count m"
  "idle_count (expire cur m) = idle_count m"
  "pending_task_count_max (expire cur m) = pending_task_count_max m"
  "tm_state (expire cur m) = tm_state m"
  "thread_factory (expire cur m) = thread_factory m"
  "id_map (expire cur m) = id_map m"
  "workers (expire cur m) = workers m"
  "dead_workers (expire cur m) = dead_workers m"
  "expire_callback (expire cur m) = expire_callback m"
  by (simp_all add: expire_def section_simps)

lemma RemoveExpiredTasks_split:
  "RemoveExpiredTasks cur m = (callback_calls (expire_callback m) (takeWhile (is_expired cur) (tasks m)),
     expire cur m)"
  by (simp add: expire_def section_simps)

text \<open>What each ending of \<open>Add\<close> says about the state before and after.\<close>

lemma Add_push_queuedD:
  assumes "Add_push cur v expiration calls m = Add_queued notify calls' m'"
  shows "\<exists>task. m' = m\<lparr>tasks := tasks m @ [task]\<rparr> \<and> task_state task = WAITING
     \<and> task_runnable task = v \<and> (notify \<longleftrightarrow> idle_count m > 0) \<and> Task_new cur v expiration = Inr task"
  using assms by (auto simp: Add_push_def Task_new_def bind_res_eq_Inr split: sum.splits)

lemma Add_push_neq [simp]:
  "Add_push cur v expiration calls m \<noteq> Add_waits calls' m'"
  "Add_push cur v expiration calls m \<noteq> Add_throws x calls' m'"
  by (auto simp: Add_push_def split: sum.splits)

lemma Add_enter_queuedD:
  assumes "Add_enter locked current cur cur2 v timeout expiration m = Add_queued notify calls m'"
  shows "locked \<and> tm_state m = STARTED \<and> \<not> queue_full (expire cur m) \<and>
     (notify \<longleftrightarrow> idle_count m > 0) \<and>
     (\<exists>task. m' = (expire cur m)\<lparr>tasks := tasks (expire cur m) @ [task]\<rparr> \<and> task_state task = WAITING
       \<and> task_runnable task = v \<and> Task_new cur2 v expiration = Inr task)"
  using assms
  by (auto simp: Add_enter_def RemoveExpiredTasks_split split: if_splits dest!: Add_push_queuedD)

lemma Add_enter_waitsD:
  assumes "Add_enter locked current cur cur2 v timeout expiration m = Add_waits calls m'"
  shows "locked \<and> tm_state m = STARTED \<and> timeout \<ge> 0 \<and> CanSleep current m \<and>
     m' = expire cur m \<and> queue_full m'"
  using assms
  by (auto simp: Add_enter_def RemoveExpiredTasks_split CanSleep_def split: if_splits)

lemma Add_enter_throwsD:
  assumes "Add_enter locked current cur cur2 v timeout expiration m = Add_throws x calls m'"
  shows "m' = m \<and> (\<not> locked \<and> x = TimedOut_default \<or> locked \<and> tm_state m \<noteq> STARTED) \<or>
     locked \<and> tm_state m = STARTED \<and> m' = expire cur m \<and> queue_full m' \<and>
     x = TooManyPendingTasks_default \<and> (timeout < 0 \<or> \<not> CanSleep current m)"
  using assms
  by (auto simp: Add_enter_def RemoveExpiredTasks_split CanSleep_def split: if_splits)

lemma Add_resume_queuedD:
  assumes "Add_resume cur v expiration m = Add_queued notify calls m'"
  shows "\<not> queue_full m \<and> (notify \<longleftrightarrow> idle_count m > 0) \<and>
     (\<exists>task. m' = m\<lparr>tasks := tasks m @ [task]\<rparr> \<and> task_state task = WAITING \<and> task_runnable task = v \<and>
        Task_new cur v expiration = Inr task)"
  using assms by (auto simp: Add_resume_def split: if_splits dest!: Add_push_queuedD)

lemma Add_resume_waitsD:
  assumes "Add_resume cur v expiration m = Add_waits calls m'"
  shows "m' = m \<and> queue_full m"
  using assms by (auto simp: Add_resume_def split: if_splits)

text \<open>The worker's turn.\<close>

definition mark_executing :: "Task \<Rightarrow> Task" where
  "mark_executing t = (if task_state t = WAITING then t\<lparr>task_state := EXECUTING\<rparr> else t)"

lemma mark_executing_fields [simp]:
  "task_runnable (mark_executing t) = task_runnable t" "expire_time (mark_executing t) = expire_time t"
  by (simp_all add: mark_executing_def)

lemma tasks_update_same: "tasks m = q \<Longrightarrow> m\<lparr>tasks := q\<rparr> = m"
  by (cases m) simp

lemma idle_update_same: "idle_count m = n \<Longrightarrow> m\<lparr>idle_count := n\<rparr> = m"
  by (cases m) simp

lemma Worker_take_eq:
  "Worker_take cur m =
     (let q = dropWhile (is_expired cur) (tasks m);
          m' = (expire cur m)\<lparr>tasks := tl q\<rparr>
      in (if q = [] then None else Some (mark_executing (hd q)),
          pending_task_count_max m \<noteq> 0 \<and> of_nat (length (tl q)) \<le> pending_task_count_max m - 1,
          callback_calls (expire_callback m) (takeWhile (is_expired cur) (tasks m)), m'))"
proof (cases "dropWhile (is_expired cur) (tasks m)")
  case Nil
  then have "(expire cur m)\<lparr>tasks := []\<rparr> = expire cur m"
    by (simp add: tasks_update_same)
  with Nil show ?thesis
    by (simp add: Worker_take_def RemoveExpiredTasks_split Let_def tasks_size_def
        del: dropWhile_eq_Nil_conv)
next
  case (Cons t q)
  then show ?thesis
    by (simp add: Worker_take_def RemoveExpiredTasks_split Let_def tasks_size_def mark_executing_def)
qed

lemma Worker_loop_eq:
  "Worker_loop cur active m =
     (if \<not> active then Leave m
      else if tasks m = [] then Sleep (m\<lparr>idle_count := idle_count m + 1\<rparr>)
      else let (task, notify_max, calls, m') = Worker_take cur m in Proceed task notify_max calls m')"
  by (simp add: Worker_loop_def)

subsection \<open>Properties\<close>

text \<open>C16. \<^verbatim>\<open>RemoveExpiredTasks\<close> terminates and drops exactly the longest prefix of the queue whose
  tasks have an expiry time that is not in the future: the rest of the queue is unchanged, the
  callback is called once per dropped task, in queue order, with its runnable, and the counter
  grows by their number. A task behind one that is not due stays, due or not.\<close>

theorem RemoveExpiredTasks_prefix:
  "RemoveExpiredTasks cur m =
     (let due = takeWhile (\<lambda>t. expire_time t \<noteq> 0 \<and> expire_time t \<le> cur) (tasks m) in
      (case expire_callback m of None \<Rightarrow> [] | Some cb \<Rightarrow> map (\<lambda>t. (cb, task_runnable t)) due,
       m\<lparr>tasks := drop (length due) (tasks m), expired_count := expired_count m + of_nat (length due)\<rparr>))"
proof -
  have e: "is_expired cur = (\<lambda>t. expire_time t \<noteq> 0 \<and> expire_time t \<le> cur)"
    by (auto simp: is_expired_def)
  have "drop (length (takeWhile P xs)) xs = dropWhile P xs" for P and xs :: "Task list"
    by (metis append_eq_conv_conj takeWhile_dropWhile_id)
  then show ?thesis by (simp add: RemoveExpiredTasks_eq callback_calls_def Let_def e)
qed

text \<open>C13. A worker takes the first task that is still alive: if the queue is a number of expired
  tasks, then a task that is not expired, then the rest, the worker gets that task, marked
  \<^verbatim>\<open>EXECUTING\<close>, so that \<^verbatim>\<open>Task::Run\<close> calls its runnable; the rest stays in order, the expired ones
  are counted, and a blocked producer is notified exactly if the queue is bounded and now has
  room.\<close>

theorem Worker_takes_first_live:
  assumes "tasks m = es @ t # q" and "\<forall>e \<in> set es. is_expired cur e" and "\<not> is_expired cur t"
    and "task_state t = WAITING" and "length q < 2 ^ 64"
  shows "\<exists>t' notify calls m'. Worker_take cur m = (Some t', notify, calls, m') \<and>
     snd (Task_Run throws t') = Some (task_runnable t) \<and> tasks m' = q \<and>
     expired_count m' = expired_count m + of_nat (length es) \<and>
     (notify \<longleftrightarrow> pending_task_count_max m \<noteq> 0 \<and> length q < unat (pending_task_count_max m))"
proof -
  have dq: "dropWhile (is_expired cur) (tasks m) = t # q" and tk: "takeWhile (is_expired cur) (tasks m) = es"
    using assms(1-3) by (simp_all add: dropWhile_append2 takeWhile_append2)
  have room: "(of_nat (length q) :: size_t) \<le> k - 1 \<longleftrightarrow> length q < unat k" if "k \<noteq> 0" for k
  proof -
    have "unat (k - 1) = unat k - 1" using that by (simp add: unat_minus_one)
    moreover have "0 < unat k" using that by (simp add: unat_gt_0)
    ultimately show ?thesis using assms(5) by (auto simp: word_le_nat_alt unat_of_nat)
  qed
  show ?thesis
    using assms(4) by (auto simp: Worker_take_eq Let_def dq tk room mark_executing_def Task_Run_def expire_def
        RemoveExpiredTasks_eq)
qed

theorem Worker_takes_first_live_witness:
  "let t = \<lparr>task_runnable = 7, task_state = WAITING, expire_time = 0\<rparr>;
       old = \<lparr>task_runnable = 6, task_state = WAITING, expire_time = 3\<rparr>
   in \<exists>t' n c m'. Worker_take 5 (Impl_new\<lparr>tasks := [old, t], pending_task_count_max := 2\<rparr>) = (Some t', n, c, m') \<and>
      snd (Task_Run False t') = Some 7 \<and> expired_count m' = 1 \<and> n"
  using Worker_takes_first_live [of "Impl_new\<lparr>tasks := [\<lparr>task_runnable = 6, task_state = WAITING, expire_time = 3\<rparr>,
      \<lparr>task_runnable = 7, task_state = WAITING, expire_time = 0\<rparr>], pending_task_count_max := 2\<rparr>"
      "[\<lparr>task_runnable = 6, task_state = WAITING, expire_time = 3\<rparr>]"
      "\<lparr>task_runnable = 7, task_state = WAITING, expire_time = 0\<rparr>" "[]" 5 False]
  by (auto simp: is_expired_def Impl_new_def Let_def)

text \<open>The guard of \<^verbatim>\<open>RemoveNextPending\<close> is the opposite of that of \<^verbatim>\<open>Remove\<close> and of its own
  message: on a started manager it always throws "not started" and on every other one it
  takes the front task, while \<^verbatim>\<open>Remove\<close> throws exactly when the manager is not started and never
  removes anything.\<close>

theorem RemoveNextPending_guard:
  "(tm_state m = STARTED \<longrightarrow>
      RemoveNextPending m =
        Inl (IllegalStateException ''ThreadManager::Impl::RemoveNextPending ThreadManager not started'') \<and>
      Remove r m = Inr m) \<and>
   (tm_state m \<noteq> STARTED \<longrightarrow>
      RemoveNextPending m =
        Inr (if tasks m = [] then None else Some (task_runnable (hd (tasks m))), m\<lparr>tasks := tl (tasks m)\<rparr>) \<and>
      Remove r m = Inl (IllegalStateException ''ThreadManager::Impl::Remove ThreadManager not started''))"
  by (cases "tasks m") (simp_all add: RemoveNextPending_def Remove_def GetRunnable_def tasks_update_same)

theorem RemoveNextPending_guard_witness:
  "Remove 7 (Impl_new\<lparr>tm_state := STARTED\<rparr>) = Inr (Impl_new\<lparr>tm_state := STARTED\<rparr>)"
  using RemoveNextPending_guard [of "Impl_new\<lparr>tm_state := STARTED\<rparr>" 7] by simp

end
