(* ===== verification/Thread_Pool.thy ===== *)
theory Thread_Pool
  imports Thread_Manager "HOL-Library.Sublist"
begin

text \<open>
  The thread manager at work: any number of worker threads in \<^verbatim>\<open>Worker::Run\<close> and any number
  of client threads calling the public methods, interleaved. A step is one critical section
  of one thread (the functions of \<^verbatim>\<open>Thread_Manager\<close>) or one wake-up; the control point
  of a thread says which section comes next.

  \<^item> Waiting on a condition variable is a control point: \<open>W_Wait\<close> (\<^verbatim>\<open>monitor_\<close>),
    \<open>C_AddWait\<close> (\<^verbatim>\<open>max_monitor_\<close>), \<open>C_AW_Wait\<close> and \<open>C_RW_Wait\<close> (\<^verbatim>\<open>worker_monitor_\<close>).
    \<open>notified\<close> is \<open>n\<close> calls of \<^verbatim>\<open>pthread_cond_signal\<close>: each unblocks at least one waiting
    thread if there is one. A waiting thread may also wake up by itself.
  \<^item> A section is one step. The sections under \<^verbatim>\<open>mutex_\<close> exclude each other, and so do those
    under the mutex of \<^verbatim>\<open>worker_monitor_\<close>. Both kinds touch \<^verbatim>\<open>worker_count_\<close>, which in C++ is
    a data race; the model gives it the meaning of an interleaving.
  \<^item> \<open>h_added\<close>, \<open>h_removed\<close> and \<open>h_started\<close> are history: the tasks \<^verbatim>\<open>Add\<close> ever made and
    queued, those ever taken off the queue, and those ever handed to a worker (the very task the
    worker goes on to run, marked \<^verbatim>\<open>EXECUTING\<close>), in order. No step reads them.
  \<^item> Parameters of a run (\<open>pool_cfg\<close>): the ids \<^verbatim>\<open>pthread_create\<close> stores, whether it
    succeeds, the ids of the client threads, which clients call the control methods
    (\<^verbatim>\<open>Start\<close>, \<^verbatim>\<open>Stop\<close>, \<^verbatim>\<open>Join\<close>, \<^verbatim>\<open>AddWorker\<close>), which of them call \<^verbatim>\<open>RemoveWorker\<close>, which
    clients call the public \<^verbatim>\<open>RemoveExpiredTasks\<close> and which \<^verbatim>\<open>RemoveNextPending\<close>, and the constants of
    the manager if it is a \<^verbatim>\<open>SimpleThreadManager\<close>.
  \<^verbatim>\<open>Worker::state_\<close> and \<^verbatim>\<open>Worker::idle_\<close> are written and never read; they are left out.
\<close>

subsection \<open>Control points\<close>

datatype wpc =
    W_Created             \<comment> \<open>\<^verbatim>\<open>NewThread\<close> done, \<^verbatim>\<open>Start\<close> not yet called\<close>
  | W_NoThread            \<comment> \<open>\<^verbatim>\<open>pthread_create\<close> failed: there is no thread\<close>
  | W_Start               \<comment> \<open>before the first section of \<^verbatim>\<open>Run\<close>\<close>
  | W_NotifyMgr           \<comment> \<open>before notifying \<^verbatim>\<open>worker_monitor_\<close>\<close>
  | W_Loop                \<comment> \<open>top of the loop, before taking \<^verbatim>\<open>mutex_\<close>\<close>
  | W_Wait                \<comment> \<open>in \<^verbatim>\<open>monitor_.Wait()\<close>\<close>
  | W_Woken               \<comment> \<open>woken, before taking \<^verbatim>\<open>mutex_\<close> again\<close>
  | W_Run "Task option"   \<comment> \<open>outside the lock with the task taken\<close>
  | W_Exit bool           \<comment> \<open>before the last section; whether it had entered the loop\<close>
  | W_Done bool           \<comment> \<open>returned\<close>

text \<open>Who called \<^verbatim>\<open>RemoveWorker\<close>: a client, or \<^verbatim>\<open>StopImpl(join)\<close> for that many workers.\<close>

datatype caller = Api | Stop_of bool size_t

datatype cpc =
    C_Ret "exn option"                         \<comment> \<open>outside; how the last call ended\<close>
  | C_AddWait runnable_ref int64 int64         \<comment> \<open>\<^verbatim>\<open>Add\<close> in \<^verbatim>\<open>max_monitor_.Wait(timeout)\<close>\<close>
  | C_AddWoken runnable_ref int64 int64
  | C_SimpleStart                              \<comment> \<open>\<^verbatim>\<open>SimpleThreadManager::Start\<close>, maximum set\<close>
  | C_AW_Begin size_t                          \<comment> \<open>\<^verbatim>\<open>AddWorker(value)\<close>\<close>
  | C_AW_Publish size_t "thread_ref list"
  | C_AW_Start "thread_ref list"
  | C_AW_Insert thread_ref "thread_ref list"   \<comment> \<open>started, \<^verbatim>\<open>id_map_\<close> entry still missing\<close>
  | C_AW_Check
  | C_AW_Wait
  | C_RW_Request caller size_t                 \<comment> \<open>\<^verbatim>\<open>RemoveWorker(value)\<close>\<close>
  | C_RW_Check caller
  | C_RW_Wait caller
  | C_Stop_Claim bool                          \<comment> \<open>\<^verbatim>\<open>StopImpl(join)\<close>\<close>
  | C_Stop_Remove bool
  | C_Stop_Finish "(bool \<times> size_t) option"

record pool =
  mgr :: Impl
  ws :: "wpc list"
  cs :: "cpc list"
  h_added :: "Task list"
  h_removed :: "Task list"
  h_started :: "Task list"

record pool_cfg =
  pid :: "thread_ref \<Rightarrow> pthread_t"
  creates :: "thread_ref \<Rightarrow> bool"
  cid :: "nat \<Rightarrow> pthread_t"
  control :: "nat \<Rightarrow> bool"
  removes :: "nat \<Rightarrow> bool"
  purges :: "nat \<Rightarrow> bool"
  pops :: "nat \<Rightarrow> bool"
  simple :: "SimpleThreadManager option"

definition pool_init :: "nat \<Rightarrow> pool" where
  "pool_init n = \<lparr>mgr = NewThreadManager, ws = [], cs = replicate n (C_Ret None),
                  h_added = [], h_removed = [], h_started = []\<rparr>"

subsection \<open>Condition variables\<close>

fun wake_worker :: "wpc \<Rightarrow> wpc" where
  "wake_worker W_Wait = W_Woken"
| "wake_worker p = p"

fun add_waiting :: "cpc \<Rightarrow> bool" where
  "add_waiting (C_AddWait v t e) = True"
| "add_waiting p = False"

fun wake_add :: "cpc \<Rightarrow> cpc" where
  "wake_add (C_AddWait v t e) = C_AddWoken v t e"
| "wake_add p = p"

fun mgr_waiting :: "cpc \<Rightarrow> bool" where
  "mgr_waiting C_AW_Wait = True"
| "mgr_waiting (C_RW_Wait k) = True"
| "mgr_waiting p = False"

fun wake_mgr :: "cpc \<Rightarrow> cpc" where
  "wake_mgr C_AW_Wait = C_AW_Check"
| "wake_mgr (C_RW_Wait k) = C_RW_Check k"
| "wake_mgr p = p"

definition notified :: "('p \<Rightarrow> bool) \<Rightarrow> ('p \<Rightarrow> 'p) \<Rightarrow> nat \<Rightarrow> 'p list \<Rightarrow> 'p list \<Rightarrow> bool" where
  "notified waiting wake n ps ps' \<longleftrightarrow>
     list_all2 (\<lambda>p p'. p' = p \<or> waiting p \<and> p' = wake p) ps ps' \<and>
     (cnt waiting ps' = 0 \<or> n \<le> cnt waiting ps - cnt waiting ps')"

abbreviation signal_workers :: "nat \<Rightarrow> wpc list \<Rightarrow> wpc list \<Rightarrow> bool" where
  "signal_workers \<equiv> notified (\<lambda>p. p = W_Wait) wake_worker"

abbreviation signal_add :: "nat \<Rightarrow> cpc list \<Rightarrow> cpc list \<Rightarrow> bool" where
  "signal_add \<equiv> notified add_waiting wake_add"

abbreviation signal_mgr :: "nat \<Rightarrow> cpc list \<Rightarrow> cpc list \<Rightarrow> bool" where
  "signal_mgr \<equiv> notified mgr_waiting wake_mgr"

fun notify_workers :: "notification \<Rightarrow> wpc list \<Rightarrow> wpc list \<Rightarrow> bool" where
  "notify_workers (Notify_times n) ps ps' = signal_workers n ps ps'"
| "notify_workers NotifyAll ps ps' = (ps' = map wake_worker ps)"

subsection \<open>Steps\<close>

text \<open>One turn of a worker in the main section: from the top of the loop, or woken.\<close>

fun worker_turn :: "wpc \<Rightarrow> int64 \<Rightarrow> Impl \<Rightarrow> worker_action option" where
  "worker_turn W_Loop cur m = Some (Worker_top cur m)"
| "worker_turn W_Woken cur m =
     Some (let (active, m1) = Worker_wake m in Worker_loop cur active m1)"
| "worker_turn _ cur m = None"

text \<open>\<^verbatim>\<open>SimpleThread::Start\<close> does nothing on a thread that was started before.\<close>

definition start_thread :: "bool \<Rightarrow> wpc \<Rightarrow> wpc" where
  "start_thread created p =
     (if p = W_Created then (if created then W_Start else W_NoThread) else p)"

text \<open>The tasks a section took off the front of the queue.\<close>

definition taken :: "Impl \<Rightarrow> Impl \<Rightarrow> Task list" where
  "taken m m' = take (length (tasks m) - length (tasks m')) (tasks m)"

text \<open>The task a worker's section handed to it, and the task \<^verbatim>\<open>Add\<close> makes of its arguments.\<close>

definition started :: "Task option \<Rightarrow> Task list" where
  "started t = (case t of None \<Rightarrow> [] | Some task \<Rightarrow> [task])"

definition new_task :: "int64 \<Rightarrow> runnable_ref \<Rightarrow> int64 \<Rightarrow> Task list" where
  "new_task cur v expiration = (case Task_new cur v expiration of Inl _ \<Rightarrow> [] | Inr task \<Rightarrow> [task])"

lemma new_task_Inr [simp]: "Task_new cur v expiration = Inr task \<Longrightarrow> new_task cur v expiration = [task]"
  by (simp add: new_task_def)

lemma started_simps [simp]: "started None = []" "started (Some task) = [task]"
  by (simp_all add: started_def)

text \<open>A worker thread: \<^verbatim>\<open>Worker::Run\<close>.\<close>

inductive worker_step :: "pool \<Rightarrow> pool \<Rightarrow> bool" where
  worker_enter:
    "\<lbrakk>w < length (ws s); ws s ! w = W_Start; Worker_enter (mgr s) = (active, notify_manager, m')\<rbrakk>
     \<Longrightarrow> worker_step s (s\<lparr>mgr := m', ws := (ws s)[w :=
           if active then (if notify_manager then W_NotifyMgr else W_Loop) else W_Exit False]\<rparr>)"
| worker_notify:
    "\<lbrakk>w < length (ws s); ws s ! w = W_NotifyMgr; signal_mgr 1 (cs s) cs'\<rbrakk>
     \<Longrightarrow> worker_step s (s\<lparr>ws := (ws s)[w := W_Loop], cs := cs'\<rparr>)"
| worker_sleep:
    "\<lbrakk>w < length (ws s); worker_turn (ws s ! w) cur (mgr s) = Some (Sleep m')\<rbrakk>
     \<Longrightarrow> worker_step s (s\<lparr>mgr := m', ws := (ws s)[w := W_Wait]\<rparr>)"
| worker_proceed:
    "\<lbrakk>w < length (ws s); worker_turn (ws s ! w) cur (mgr s) = Some (Proceed t notify_max calls m');
      if notify_max then signal_add 1 (cs s) cs' else cs' = cs s\<rbrakk>
     \<Longrightarrow> worker_step s (s\<lparr>mgr := m', ws := (ws s)[w := W_Run t], cs := cs',
           h_removed := h_removed s @ taken (mgr s) m',
           h_started := h_started s @ started t\<rparr>)"
| worker_leave:
    "\<lbrakk>w < length (ws s); worker_turn (ws s ! w) cur (mgr s) = Some (Leave m')\<rbrakk>
     \<Longrightarrow> worker_step s (s\<lparr>mgr := m', ws := (ws s)[w := W_Exit True]\<rparr>)"
| worker_run:
    "\<lbrakk>w < length (ws s); ws s ! w = W_Run t\<rbrakk>
     \<Longrightarrow> worker_step s (s\<lparr>ws := (ws s)[w := W_Loop]\<rparr>)"
| worker_exit:
    "\<lbrakk>w < length (ws s); ws s ! w = W_Exit c; Worker_exit w (mgr s) = (notify_manager, m');
      if notify_manager then signal_mgr 1 (cs s) cs' else cs' = cs s\<rbrakk>
     \<Longrightarrow> worker_step s (s\<lparr>mgr := m', ws := (ws s)[w := W_Done c], cs := cs'\<rparr>)"
| worker_spurious:
    "\<lbrakk>w < length (ws s); ws s ! w = W_Wait\<rbrakk>
     \<Longrightarrow> worker_step s (s\<lparr>ws := (ws s)[w := W_Woken]\<rparr>)"

text \<open>A client in the methods on tasks: \<^verbatim>\<open>Add\<close>, \<^verbatim>\<open>Remove\<close>, \<^verbatim>\<open>RemoveNextPending\<close>,
  \<^verbatim>\<open>RemoveExpiredTasks\<close>, \<^verbatim>\<open>ExpiredTaskCount\<close>, \<^verbatim>\<open>SetExpireCallback\<close>.\<close>

inductive task_step :: "pool_cfg \<Rightarrow> pool \<Rightarrow> pool \<Rightarrow> bool" for cfg where
  add_spurious:
    "\<lbrakk>i < length (cs s); add_waiting (cs s ! i)\<rbrakk>
     \<Longrightarrow> task_step cfg s (s\<lparr>cs := (cs s)[i := wake_add (cs s ! i)]\<rparr>)"
| add_queued:
    "\<lbrakk>i < length (cs s); cs s ! i = C_Ret e; locked \<or> timeout \<noteq> 0;
      Add_enter locked (cid cfg i) cur cur2 v timeout expiration (mgr s) = Add_queued notify calls m';
      if notify then signal_workers 1 (ws s) ws' else ws' = ws s\<rbrakk>
     \<Longrightarrow> task_step cfg s (s\<lparr>mgr := m', ws := ws', cs := (cs s)[i := C_Ret None],
           h_removed := h_removed s @ takeWhile (is_expired cur) (tasks (mgr s)),
           h_added := h_added s @ new_task cur2 v expiration\<rparr>)"
| add_waits:
    "\<lbrakk>i < length (cs s); cs s ! i = C_Ret e; locked \<or> timeout \<noteq> 0;
      Add_enter locked (cid cfg i) cur cur2 v timeout expiration (mgr s) = Add_waits calls m'\<rbrakk>
     \<Longrightarrow> task_step cfg s (s\<lparr>mgr := m', cs := (cs s)[i := C_AddWait v timeout expiration],
           h_removed := h_removed s @ taken (mgr s) m'\<rparr>)"
| add_throws:
    "\<lbrakk>i < length (cs s); cs s ! i = C_Ret e; locked \<or> timeout \<noteq> 0;
      Add_enter locked (cid cfg i) cur cur2 v timeout expiration (mgr s) = Add_throws x calls m'\<rbrakk>
     \<Longrightarrow> task_step cfg s (s\<lparr>mgr := m', cs := (cs s)[i := C_Ret (Some x)],
           h_removed := h_removed s @ taken (mgr s) m'\<rparr>)"
| add_resume_queued:
    "\<lbrakk>i < length (cs s); cs s ! i = C_AddWoken v timeout expiration;
      Add_resume cur v expiration (mgr s) = Add_queued notify calls m';
      if notify then signal_workers 1 (ws s) ws' else ws' = ws s\<rbrakk>
     \<Longrightarrow> task_step cfg s (s\<lparr>mgr := m', ws := ws', cs := (cs s)[i := C_Ret None],
           h_added := h_added s @ new_task cur v expiration\<rparr>)"
| add_resume_waits:
    "\<lbrakk>i < length (cs s); cs s ! i = C_AddWoken v timeout expiration;
      Add_resume cur v expiration (mgr s) = Add_waits calls m'\<rbrakk>
     \<Longrightarrow> task_step cfg s (s\<lparr>mgr := m', cs := (cs s)[i := C_AddWait v timeout expiration]\<rparr>)"
| add_timeout:
    "\<lbrakk>i < length (cs s); cs s ! i = C_AddWait v timeout expiration; timeout \<noteq> 0\<rbrakk>
     \<Longrightarrow> task_step cfg s (s\<lparr>cs := (cs s)[i := C_Ret (Some TimedOut_default)]\<rparr>)"
| remove_task:
    "\<lbrakk>i < length (cs s); cs s ! i = C_Ret e; x = (case Remove r (mgr s) of Inl x \<Rightarrow> Some x | Inr _ \<Rightarrow> None)\<rbrakk>
     \<Longrightarrow> task_step cfg s (s\<lparr>cs := (cs s)[i := C_Ret x]\<rparr>)"
| remove_next_pending:
    "\<lbrakk>i < length (cs s); cs s ! i = C_Ret e; pops cfg i; RemoveNextPending (mgr s) = Inr (r, m')\<rbrakk>
     \<Longrightarrow> task_step cfg s (s\<lparr>mgr := m', cs := (cs s)[i := C_Ret None],
           h_removed := h_removed s @ taken (mgr s) m'\<rparr>)"
| remove_next_pending_throws:
    "\<lbrakk>i < length (cs s); cs s ! i = C_Ret e; RemoveNextPending (mgr s) = Inl x\<rbrakk>
     \<Longrightarrow> task_step cfg s (s\<lparr>cs := (cs s)[i := C_Ret (Some x)]\<rparr>)"
| remove_expired_tasks:
    "\<lbrakk>i < length (cs s); cs s ! i = C_Ret e; purges cfg i; RemoveExpiredTasks cur (mgr s) = (calls, m')\<rbrakk>
     \<Longrightarrow> task_step cfg s (s\<lparr>mgr := m', cs := (cs s)[i := C_Ret None],
           h_removed := h_removed s @ taken (mgr s) m'\<rparr>)"
| expired_task_count:
    "\<lbrakk>i < length (cs s); cs s ! i = C_Ret e; ExpiredTaskCount (mgr s) = (n, m')\<rbrakk>
     \<Longrightarrow> task_step cfg s (s\<lparr>mgr := m', cs := (cs s)[i := C_Ret None]\<rparr>)"
| set_expire_callback:
    "\<lbrakk>i < length (cs s); cs s ! i = C_Ret e\<rbrakk>
     \<Longrightarrow> task_step cfg s (s\<lparr>mgr := SetExpireCallback cb (mgr s), cs := (cs s)[i := C_Ret None]\<rparr>)"

text \<open>A client in the control methods: \<^verbatim>\<open>SetThreadFactory\<close>, \<^verbatim>\<open>Start\<close>, \<^verbatim>\<open>AddWorker\<close>,
  \<^verbatim>\<open>RemoveWorker\<close>, \<^verbatim>\<open>Stop\<close>, \<^verbatim>\<open>Join\<close>.\<close>

inductive control_step :: "pool_cfg \<Rightarrow> pool \<Rightarrow> pool \<Rightarrow> bool" for cfg where
  mgr_spurious:
    "\<lbrakk>i < length (cs s); mgr_waiting (cs s ! i)\<rbrakk>
     \<Longrightarrow> control_step cfg s (s\<lparr>cs := (cs s)[i := wake_mgr (cs s ! i)]\<rparr>)"
| set_thread_factory:
    "\<lbrakk>i < length (cs s); cs s ! i = C_Ret e\<rbrakk>
     \<Longrightarrow> control_step cfg s (s\<lparr>mgr := SetThreadFactory f (mgr s), cs := (cs s)[i := C_Ret None]\<rparr>)"
| start_ok:
    "\<lbrakk>i < length (cs s); cs s ! i = C_Ret e; control cfg i; simple cfg = None; Start (mgr s) = Inr (notify, m');
      ws' = (if notify then map wake_worker (ws s) else ws s)\<rbrakk>
     \<Longrightarrow> control_step cfg s (s\<lparr>mgr := m', ws := ws', cs := (cs s)[i := C_Ret None]\<rparr>)"
| start_throws:
    "\<lbrakk>i < length (cs s); cs s ! i = C_Ret e; control cfg i; simple cfg = None; Start (mgr s) = Inl x\<rbrakk>
     \<Longrightarrow> control_step cfg s (s\<lparr>cs := (cs s)[i := C_Ret (Some x)]\<rparr>)"
| simple_start_max:
    "\<lbrakk>i < length (cs s); cs s ! i = C_Ret e; control cfg i; simple cfg = Some sm\<rbrakk>
     \<Longrightarrow> control_step cfg s (s\<lparr>
           mgr := SetPendingTaskCountMax (s_pending_task_count_max sm) (mgr s),
           cs := (cs s)[i := C_SimpleStart]\<rparr>)"
| simple_start_ok:
    "\<lbrakk>i < length (cs s); cs s ! i = C_SimpleStart; simple cfg = Some sm;
      Start (mgr s) = Inr (notify, m'); ws' = (if notify then map wake_worker (ws s) else ws s)\<rbrakk>
     \<Longrightarrow> control_step cfg s (s\<lparr>mgr := m', ws := ws',
           cs := (cs s)[i := C_AW_Begin (s_worker_count sm)]\<rparr>)"
| simple_start_throws:
    "\<lbrakk>i < length (cs s); cs s ! i = C_SimpleStart; Start (mgr s) = Inl x\<rbrakk>
     \<Longrightarrow> control_step cfg s (s\<lparr>cs := (cs s)[i := C_Ret (Some x)]\<rparr>)"
| add_worker:
    "\<lbrakk>i < length (cs s); cs s ! i = C_Ret e; control cfg i\<rbrakk>
     \<Longrightarrow> control_step cfg s (s\<lparr>cs := (cs s)[i := C_AW_Begin value]\<rparr>)"
| add_worker_create:
    "\<lbrakk>i < length (cs s); cs s ! i = C_AW_Begin value; thread_factory (mgr s) \<noteq> None \<or> value = 0;
      new_threads = [length (ws s) ..< length (ws s) + unat value]\<rbrakk>
     \<Longrightarrow> control_step cfg s (s\<lparr>ws := ws s @ replicate (unat value) W_Created,
           cs := (cs s)[i := C_AW_Publish value new_threads]\<rparr>)"
| add_worker_publish:
    "\<lbrakk>i < length (cs s); cs s ! i = C_AW_Publish value new_threads\<rbrakk>
     \<Longrightarrow> control_step cfg s (s\<lparr>mgr := AddWorker_publish value (set new_threads) (mgr s),
           cs := (cs s)[i := C_AW_Start new_threads]\<rparr>)"
| add_worker_start:
    "\<lbrakk>i < length (cs s); cs s ! i = C_AW_Start (w # new_threads)\<rbrakk>
     \<Longrightarrow> control_step cfg s (s\<lparr>ws := (ws s)[w := start_thread (creates cfg w) (ws s ! w)],
           cs := (cs s)[i := C_AW_Insert w new_threads]\<rparr>)"
| add_worker_insert:
    "\<lbrakk>i < length (cs s); cs s ! i = C_AW_Insert w new_threads\<rbrakk>
     \<Longrightarrow> control_step cfg s (s\<lparr>mgr := id_map_insert (pid cfg w) w (mgr s),
           cs := (cs s)[i := C_AW_Start new_threads]\<rparr>)"
| add_worker_started:
    "\<lbrakk>i < length (cs s); cs s ! i = C_AW_Start []\<rbrakk>
     \<Longrightarrow> control_step cfg s (s\<lparr>cs := (cs s)[i := C_AW_Check]\<rparr>)"
| add_worker_wait:
    "\<lbrakk>i < length (cs s); cs s ! i = C_AW_Check; \<not> workers_settled (mgr s)\<rbrakk>
     \<Longrightarrow> control_step cfg s (s\<lparr>cs := (cs s)[i := C_AW_Wait]\<rparr>)"
| add_worker_return:
    "\<lbrakk>i < length (cs s); cs s ! i = C_AW_Check; workers_settled (mgr s)\<rbrakk>
     \<Longrightarrow> control_step cfg s (s\<lparr>cs := (cs s)[i := C_Ret None]\<rparr>)"
| remove_worker:
    "\<lbrakk>i < length (cs s); cs s ! i = C_Ret e; control cfg i; removes cfg i\<rbrakk>
     \<Longrightarrow> control_step cfg s (s\<lparr>cs := (cs s)[i := C_RW_Request Api value]\<rparr>)"
| remove_worker_request:
    "\<lbrakk>i < length (cs s); cs s ! i = C_RW_Request k value;
      RemoveWorker_request value (mgr s) = Inr (n, m'); notify_workers n (ws s) ws'\<rbrakk>
     \<Longrightarrow> control_step cfg s (s\<lparr>mgr := m', ws := ws', cs := (cs s)[i := C_RW_Check k]\<rparr>)"
| remove_worker_throws:
    "\<lbrakk>i < length (cs s); cs s ! i = C_RW_Request k value; RemoveWorker_request value (mgr s) = Inl x\<rbrakk>
     \<Longrightarrow> control_step cfg s (s\<lparr>cs := (cs s)[i := C_Ret (Some x)]\<rparr>)"
| remove_worker_wait:
    "\<lbrakk>i < length (cs s); cs s ! i = C_RW_Check k; \<not> workers_settled (mgr s)\<rbrakk>
     \<Longrightarrow> control_step cfg s (s\<lparr>cs := (cs s)[i := C_RW_Wait k]\<rparr>)"
| remove_worker_clean:
    "\<lbrakk>i < length (cs s); cs s ! i = C_RW_Check k; workers_settled (mgr s)\<rbrakk>
     \<Longrightarrow> control_step cfg s (s\<lparr>mgr := RemoveWorker_clean (pid cfg) (mgr s),
           cs := (cs s)[i := case k of Api \<Rightarrow> C_Ret None | Stop_of join v \<Rightarrow> C_Stop_Finish (Some (join, v))]\<rparr>)"
| stop:
    "\<lbrakk>i < length (cs s); cs s ! i = C_Ret e; control cfg i\<rbrakk>
     \<Longrightarrow> control_step cfg s (s\<lparr>cs := (cs s)[i :=
           if tm_state (mgr s) = STOPPED then C_Ret None else C_Stop_Claim join]\<rparr>)"
| stop_claim:
    "\<lbrakk>i < length (cs s); cs s ! i = C_Stop_Claim join; StopImpl_claim join (mgr s) = (do_stop, m')\<rbrakk>
     \<Longrightarrow> control_step cfg s (s\<lparr>mgr := m',
           cs := (cs s)[i := if do_stop then C_Stop_Remove join else C_Stop_Finish None]\<rparr>)"
| stop_remove:
    "\<lbrakk>i < length (cs s); cs s ! i = C_Stop_Remove join\<rbrakk>
     \<Longrightarrow> control_step cfg s (s\<lparr>cs := (cs s)[i :=
           C_RW_Request (Stop_of join (worker_count (mgr s))) (worker_count (mgr s))]\<rparr>)"
| stop_finish:
    "\<lbrakk>i < length (cs s); cs s ! i = C_Stop_Finish d\<rbrakk>
     \<Longrightarrow> control_step cfg s (s\<lparr>mgr := StopImpl_finish (mgr s), cs := (cs s)[i := C_Ret None]\<rparr>)"

inductive pool_step :: "pool_cfg \<Rightarrow> pool \<Rightarrow> pool \<Rightarrow> bool" for cfg where
  by_worker: "worker_step s t \<Longrightarrow> pool_step cfg s t"
| by_task: "task_step cfg s t \<Longrightarrow> pool_step cfg s t"
| by_control: "control_step cfg s t \<Longrightarrow> pool_step cfg s t"

definition pool_start :: "pool \<Rightarrow> bool" where
  "pool_start s \<longleftrightarrow> (\<exists>n. s = pool_init n)"

abbreviation reach :: "pool_cfg \<Rightarrow> pool \<Rightarrow> bool" where
  "reach cfg \<equiv> reachable pool_start (pool_step cfg)"

end
