(* ===== verification/Pool_Invariants.thy ===== *)
theory Pool_Invariants
  imports Thread_Pool
begin

text \<open>
  Invariants of the thread pool for every client behaviour and every interleaving:
  the queue is first in, first out and loses or repeats no task, it never exceeds the
  configured capacity, and the idle and worker counters agree with the control points of the
  threads.
\<close>

subsection \<open>What the worker's turn does\<close>

lemma worker_turn_SleepD:
  assumes "worker_turn p cur m = Some (Sleep m')"
  shows "IsActive m \<and> tasks m = [] \<and>
    (p = W_Loop \<and> m' = m\<lparr>idle_count := idle_count m + 1\<rparr> \<or> p = W_Woken \<and> m' = m)"
  using assms
  by (cases p)
    (auto simp: Worker_top_def Worker_wake_def Worker_loop_eq idle_update_same IsActive_def
      split: if_splits prod.splits)

lemma worker_turn_LeaveD:
  assumes "worker_turn p cur m = Some (Leave m')"
  shows "\<not> IsActive m \<and> (p = W_Loop \<and> m' = m \<or> p = W_Woken \<and> m' = m\<lparr>idle_count := idle_count m - 1\<rparr>)"
  using assms
  by (cases p)
    (auto simp: Worker_top_def Worker_wake_def Worker_loop_eq split: if_splits prod.splits)

text \<open>The state with the idle counter as it is when the worker has left \<^verbatim>\<open>Wait\<close>.\<close>

definition unidle :: "wpc \<Rightarrow> Impl \<Rightarrow> Impl" where
  "unidle p m = (if p = W_Woken then m\<lparr>idle_count := idle_count m - 1\<rparr> else m)"

lemma unidle_simps [simp]:
  "tasks (unidle p m) = tasks m" "worker_count (unidle p m) = worker_count m"
  "worker_max_count (unidle p m) = worker_max_count m"
  "pending_task_count_max (unidle p m) = pending_task_count_max m"
  "tm_state (unidle p m) = tm_state m" "thread_factory (unidle p m) = thread_factory m"
  "id_map (unidle p m) = id_map m" "expire_callback (unidle p m) = expire_callback m"
  "workers (unidle p m) = workers m" "dead_workers (unidle p m) = dead_workers m"
  "idle_count (unidle p m) = idle_count m - (if p = W_Woken then 1 else 0)"
  by (simp_all add: unidle_def)

lemma worker_turn_ProceedD:
  assumes "worker_turn p cur m = Some (Proceed t notify_max calls m')"
  defines "q \<equiv> dropWhile (is_expired cur) (tasks m)"
  shows "IsActive m \<and> tasks m \<noteq> [] \<and> (p = W_Loop \<or> p = W_Woken) \<and>
    m' = (expire cur (unidle p m))\<lparr>tasks := tl q\<rparr> \<and>
    t = (if q = [] then None else Some (mark_executing (hd q))) \<and>
    (notify_max \<longleftrightarrow> pending_task_count_max m \<noteq> 0 \<and>
       of_nat (length (tl q)) \<le> pending_task_count_max m - 1)"
  using assms
  by (cases p)
    (auto simp: Worker_top_def Worker_wake_def Worker_loop_eq Worker_take_eq Let_def unidle_def
      split: if_splits prod.splits)

subsection \<open>Queue history\<close>

lemma taken_append: "suffix (tasks m') (tasks m) \<Longrightarrow> taken m m' @ tasks m' = tasks m"
  by (auto simp: taken_def suffix_def)

lemma taken_same [simp]: "tasks m' = tasks m \<Longrightarrow> taken m m' = []"
  by (simp add: taken_def)

lemma taken_dropWhile:
  "tasks m' = dropWhile P (tasks m) \<Longrightarrow> taken m m' = takeWhile P (tasks m)"
proof -
  assume *: "tasks m' = dropWhile P (tasks m)"
  then have "taken m m' @ tasks m' = tasks m"
    by (intro taken_append) (simp add: suffix_dropWhile)
  also have "\<dots> = takeWhile P (tasks m) @ tasks m'" using * by simp
  finally show ?thesis by simp
qed

text \<open>One worker turn: the section takes the expired front and the next task, if there is one,
  off the queue, and it is this task that it hands to the worker, marked \<^verbatim>\<open>EXECUTING\<close>.\<close>

lemma turn_history:
  assumes "worker_turn p cur m = Some (Proceed t notify_max calls m')"
  defines "q \<equiv> dropWhile (is_expired cur) (tasks m)"
  shows "taken m m' @ tasks m' = tasks m \<and> tasks m' = tl q \<and>
    taken m m' = takeWhile (is_expired cur) (tasks m) @ take 1 q \<and> started t = map mark_executing (take 1 q)"
proof -
  have m': "tasks m' = tl q" and t: "t = (if q = [] then None else Some (mark_executing (hd q)))"
    using worker_turn_ProceedD [OF assms(1)] by (auto simp: q_def)
  have "suffix (tasks m') (tasks m)"
    unfolding m' q_def by (metis suffix_dropWhile suffix_order.trans suffix_tl)
  then have all: "taken m m' @ tasks m' = tasks m" by (rule taken_append)
  also have "tasks m = takeWhile (is_expired cur) (tasks m) @ take 1 q @ tl q"
    unfolding q_def
    by (cases "dropWhile (is_expired cur) (tasks m)", metis append_Nil2 takeWhile_dropWhile_id take_Nil list.sel(2))
      (metis append_Cons append_Nil list.sel(3) takeWhile_dropWhile_id take_Suc_Cons take_0 One_nat_def)
  finally have "taken m m' = takeWhile (is_expired cur) (tasks m) @ take 1 q" using m' by simp
  moreover have "started t = map mark_executing (take 1 q)" unfolding t by (cases q) simp_all
  ultimately show ?thesis using all m' by simp
qed

definition fifo_inv :: "pool \<Rightarrow> bool" where
  "fifo_inv s \<longleftrightarrow> h_added s = h_removed s @ tasks (mgr s)
     \<and> subseq (h_started s) (map mark_executing (h_removed s))
     \<and> list_all (\<lambda>t. task_state t = WAITING) (tasks (mgr s))"

text \<open>Sections that leave the queue alone.\<close>

lemma same_tasks [simp]:
  "tasks (SetExpireCallback cb m) = tasks m" "tasks (SetThreadFactory f m) = tasks m"
  "tasks (SetPendingTaskCountMax v m) = tasks m" "tasks (AddWorker_publish v T m) = tasks m"
  "tasks (id_map_insert k th m) = tasks m" "tasks (RemoveWorker_clean g m) = tasks m"
  "tasks (StopImpl_finish m) = tasks m"
  by (simp_all add: SetExpireCallback_def SetThreadFactory_def SetPendingTaskCountMax_def
      AddWorker_publish_def id_map_insert_def RemoveWorker_clean_def StopImpl_finish_def)

lemma Worker_enter_tasks: "Worker_enter m = (a, n, m') \<Longrightarrow> tasks m' = tasks m"
  by (auto simp: Worker_enter_def Let_def split: if_splits)

lemma Worker_exit_tasks: "Worker_exit w m = (n, m') \<Longrightarrow> tasks m' = tasks m"
  by (auto simp: Worker_exit_def Let_def)

lemma RemoveWorker_request_tasks: "RemoveWorker_request v m = Inr (n, m') \<Longrightarrow> tasks m' = tasks m"
  by (auto simp: RemoveWorker_request_def Let_def split: if_splits)

lemma Start_tasks: "Start m = Inr (n, m') \<Longrightarrow> tasks m' = tasks m"
  by (auto simp: Start_def split: if_splits)

lemma StopImpl_claim_tasks: "StopImpl_claim j m = (d, m') \<Longrightarrow> tasks m' = tasks m"
  by (auto simp: StopImpl_claim_def split: if_splits)

lemma ExpiredTaskCount_tasks: "ExpiredTaskCount m = (n, m') \<Longrightarrow> tasks m' = tasks m"
  by (auto simp: ExpiredTaskCount_def)

lemmas section_tasks = Worker_enter_tasks Worker_exit_tasks RemoveWorker_request_tasks Start_tasks
  StopImpl_claim_tasks ExpiredTaskCount_tasks

lemma RemoveNextPendingD:
  "RemoveNextPending m = Inr (r, m') \<Longrightarrow> tm_state m \<noteq> STARTED \<and> m' = m\<lparr>tasks := tl (tasks m)\<rparr>
     \<and> r = (if tasks m = [] then None else Some (task_runnable (hd (tasks m))))"
  by (auto simp: RemoveNextPending_def GetRunnable_def tasks_update_same split: if_splits list.splits)

lemma list_all_dropWhile: "list_all P xs \<Longrightarrow> list_all P (dropWhile Q xs)"
  by (auto simp: list_all_iff dest: set_dropWhileD)

lemma list_all_tl: "list_all P xs \<Longrightarrow> list_all P (tl xs)"
  by (cases xs) auto

lemma fifo_inv_init: "pool_start s \<Longrightarrow> fifo_inv s"
  by (auto simp: pool_start_def pool_init_def fifo_inv_def NewThreadManager_def Impl_new_def)

lemma fifo_inv_worker: "worker_step s t \<Longrightarrow> fifo_inv s \<Longrightarrow> fifo_inv t"
proof (induction rule: worker_step.induct)
  case (worker_sleep w s cur m')
  then show ?case by (auto simp: fifo_inv_def dest!: worker_turn_SleepD)
next
  case (worker_leave w s cur m')
  then show ?case by (auto simp: fifo_inv_def dest!: worker_turn_LeaveD)
next
  case (worker_proceed w s cur t' nm calls m' cs')
  define q where "q = dropWhile (is_expired cur) (tasks (mgr s))"
  have h: "taken (mgr s) m' @ tasks m' = tasks (mgr s)" "tasks m' = tl q"
    "taken (mgr s) m' = takeWhile (is_expired cur) (tasks (mgr s)) @ take 1 q" "started t' = map mark_executing (take 1 q)"
    using turn_history [OF worker_proceed(2)] unfolding q_def by blast+
  have "subseq (h_started s @ started t') (map mark_executing (h_removed s @ taken (mgr s) m'))"
    using worker_proceed(4) unfolding h(3,4)
    using list_emb_append_mono [OF _ subseq_drop_many [of "map mark_executing (take 1 q)" "map mark_executing (take 1 q)"
        "map mark_executing (takeWhile (is_expired cur) (tasks (mgr s)))"]]
    by (simp add: fifo_inv_def)
  moreover have "list_all (\<lambda>t. task_state t = WAITING) (tasks m')"
    using worker_proceed(4) unfolding h(2) q_def by (simp add: fifo_inv_def list_all_dropWhile list_all_tl)
  ultimately show ?case using worker_proceed(4) h(1) by (simp add: fifo_inv_def)
qed (simp_all add: fifo_inv_def section_tasks)

lemma fifo_inv_task: "task_step cfg s t \<Longrightarrow> fifo_inv s \<Longrightarrow> fifo_inv t"
proof (induction rule: task_step.induct)
  case (add_queued i s e locked timeout cur cur2 v expiration notify calls m' ws')
  then show ?case by (auto simp: fifo_inv_def list_all_dropWhile dest!: Add_enter_queuedD)
next
  case (add_waits i s e locked timeout cur cur2 v expiration calls m')
  then show ?case by (auto simp: fifo_inv_def list_all_dropWhile taken_dropWhile dest!: Add_enter_waitsD)
next
  case (add_throws i s e locked timeout cur cur2 v expiration x calls m')
  then show ?case by (auto simp: fifo_inv_def list_all_dropWhile taken_dropWhile dest!: Add_enter_throwsD)
next
  case (add_resume_queued i s v timeout expiration cur notify calls m' ws')
  then show ?case by (auto simp: fifo_inv_def dest!: Add_resume_queuedD)
next
  case (add_resume_waits i s v timeout expiration cur calls m')
  then show ?case by (auto simp: fifo_inv_def dest!: Add_resume_waitsD)
next
  case (remove_next_pending i s e r m')
  then show ?case
    by (cases "tasks (mgr s)") (auto simp: fifo_inv_def taken_def dest!: RemoveNextPendingD)
next
  case (remove_expired_tasks i s e cur calls m')
  then show ?case
    by (auto simp: fifo_inv_def list_all_dropWhile taken_dropWhile RemoveExpiredTasks_split)
qed (simp_all add: fifo_inv_def section_tasks)

lemma fifo_inv_control: "control_step cfg s t \<Longrightarrow> fifo_inv s \<Longrightarrow> fifo_inv t"
  by (induction rule: control_step.induct) (simp_all add: fifo_inv_def section_tasks)

interpretation fifo: inductive_invariant pool_start "pool_step cfg" fifo_inv
  by unfold_locales
    (blast intro: fifo_inv_init fifo_inv_worker fifo_inv_task fifo_inv_control elim: pool_step.cases)+

subsection \<open>Counters\<close>

lemma notified_length: "notified waiting wake n ps ps' \<Longrightarrow> length ps' = length ps"
  by (auto simp: notified_def dest: list_all2_lengthD)

lemma notified_cnt:
  assumes "notified waiting wake n ps ps'" and "\<And>p. waiting p \<Longrightarrow> Q (wake p) = Q p"
  shows "cnt Q ps' = cnt Q ps"
proof -
  have "list_all2 (\<lambda>a b. Q a = Q b) ps ps'"
    using assms unfolding notified_def by (auto elim!: list_all2_mono)
  then show ?thesis by (metis cnt_list_all2)
qed

lemma wake_worker_cnt: "Q W_Woken = Q W_Wait \<Longrightarrow> cnt Q (map wake_worker ps) = cnt Q ps"
proof (induction ps)
  case (Cons p ps)
  then show ?case by (cases p) auto
qed simp

lemma notify_workers_cnt:
  assumes "notify_workers n ps ps'" and "Q W_Woken = Q W_Wait"
  shows "cnt Q ps' = cnt Q ps"
  using assms by (cases n) (auto simp: wake_worker_cnt notified_cnt)

lemma notify_workers_length: "notify_workers n ps ps' \<Longrightarrow> length ps' = length ps"
  by (cases n) (auto dest: notified_length)

fun idle_pc :: "wpc \<Rightarrow> bool" where
  "idle_pc W_Wait = True"
| "idle_pc W_Woken = True"
| "idle_pc p = False"

text \<open>Control points at which a worker is included in \<^verbatim>\<open>worker_count_\<close>.\<close>

fun counted :: "wpc \<Rightarrow> bool" where
  "counted W_NotifyMgr = True"
| "counted W_Loop = True"
| "counted W_Wait = True"
| "counted W_Woken = True"
| "counted (W_Run t) = True"
| "counted (W_Exit entered) = entered"
| "counted p = False"

text \<open>A worker that found the pool full at its start and left: it decremented the counter
  without having incremented it.\<close>

fun miscounted :: "wpc \<Rightarrow> bool" where
  "miscounted (W_Done entered) = (\<not> entered)"
| "miscounted p = False"

definition counter_inv :: "pool \<Rightarrow> bool" where
  "counter_inv s \<longleftrightarrow>
     idle_count (mgr s) = of_nat (cnt idle_pc (ws s)) \<and>
     worker_count (mgr s) = of_nat (cnt counted (ws s)) - of_nat (cnt miscounted (ws s))"

lemma same_counters [simp]:
  "idle_count (SetExpireCallback cb m) = idle_count m" "idle_count (SetThreadFactory f m) = idle_count m"
  "idle_count (SetPendingTaskCountMax v m) = idle_count m" "idle_count (AddWorker_publish v T m) = idle_count m"
  "idle_count (id_map_insert k th m) = idle_count m" "idle_count (RemoveWorker_clean g m) = idle_count m"
  "idle_count (StopImpl_finish m) = idle_count m"
  "worker_count (SetExpireCallback cb m) = worker_count m" "worker_count (SetThreadFactory f m) = worker_count m"
  "worker_count (SetPendingTaskCountMax v m) = worker_count m"
  "worker_count (AddWorker_publish v T m) = worker_count m"
  "worker_count (id_map_insert k th m) = worker_count m" "worker_count (RemoveWorker_clean g m) = worker_count m"
  "worker_count (StopImpl_finish m) = worker_count m"
  by (simp_all add: SetExpireCallback_def SetThreadFactory_def SetPendingTaskCountMax_def
      AddWorker_publish_def id_map_insert_def RemoveWorker_clean_def StopImpl_finish_def)

lemma Worker_enter_cases:
  assumes "Worker_enter m = (active, notify_manager, m')"
  obtains (enters) "active" "worker_count m < worker_max_count m" "m' = m\<lparr>worker_count := worker_count m + 1\<rparr>"
      "notify_manager \<longleftrightarrow> worker_count m + 1 = worker_max_count m"
    | (full) "\<not> active" "\<not> notify_manager" "\<not> worker_count m < worker_max_count m" "m' = m"
  using assms by (auto simp: Worker_enter_def Let_def split: if_splits)

lemma Worker_exitD:
  "Worker_exit w m = (notify_manager, m') \<Longrightarrow>
     m' = m\<lparr>dead_workers := insert w (dead_workers m), worker_count := worker_count m - 1\<rparr> \<and>
     (notify_manager \<longleftrightarrow> worker_count m - 1 = worker_max_count m)"
  by (auto simp: Worker_exit_def Let_def)

lemma RemoveWorker_requestD:
  "RemoveWorker_request v m = Inr (n, m') \<Longrightarrow>
     v \<le> worker_max_count m \<and> m' = m\<lparr>worker_max_count := worker_max_count m - v\<rparr> \<and>
     n = (if idle_count m < v then Notify_times (unat (idle_count m)) else NotifyAll)"
  by (auto simp: RemoveWorker_request_def Let_def split: if_splits)

lemma StartD:
  "Start m = Inr (n, m') \<Longrightarrow>
     (n \<and> tm_state m = UNINITIALIZED \<and> thread_factory m \<noteq> None \<and> m' = m\<lparr>tm_state := STARTED\<rparr>) \<or>
     (\<not> n \<and> tm_state m \<noteq> UNINITIALIZED \<and> m' = m)"
  by (auto simp: Start_def split: if_splits)

lemma StopImpl_claimD:
  "StopImpl_claim join m = (do_stop, m') \<Longrightarrow>
     (do_stop \<and> tm_state m \<in> {UNINITIALIZED, STARTING, STARTED} \<and>
        m' = m\<lparr>tm_state := if join then JOINING else STOPPING\<rparr>) \<or>
     (\<not> do_stop \<and> tm_state m \<in> {STOPPING, JOINING, STOPPED} \<and> m' = m)"
  by (cases "tm_state m") (auto simp: StopImpl_claim_def split: if_splits)

lemma start_thread_pc:
  "idle_pc (start_thread c p) = idle_pc p" "counted (start_thread c p) = counted p"
  "miscounted (start_thread c p) = miscounted p"
  by (auto simp: start_thread_def)

lemma cnt_same_update: "Q x = Q (ps ! i) \<Longrightarrow> cnt Q (ps[i := x]) = cnt Q ps"
  using cnt_update [of i ps Q x] by (cases "i < length ps") (auto simp: list_update_beyond)

lemma counter_inv_init: "pool_start s \<Longrightarrow> counter_inv s"
  by (auto simp: pool_start_def pool_init_def counter_inv_def NewThreadManager_def Impl_new_def)

lemma counter_inv_worker: "worker_step s t \<Longrightarrow> counter_inv s \<Longrightarrow> counter_inv t"
proof (induction rule: worker_step.induct)
  case (worker_enter w s active notify_manager m')
  from worker_enter(3) show ?case
    using worker_enter by (cases rule: Worker_enter_cases) (simp_all add: counter_inv_def count_simps)
next
  case (worker_sleep w s cur m')
  with worker_turn_SleepD [OF worker_sleep(2)] show ?case by (auto simp: counter_inv_def count_simps)
next
  case (worker_leave w s cur m')
  with worker_turn_LeaveD [OF worker_leave(2)] show ?case by (auto simp: counter_inv_def count_simps)
next
  case (worker_proceed w s cur t' nm calls m' cs')
  with worker_turn_ProceedD [OF worker_proceed(2)] show ?case
    by (auto simp: counter_inv_def count_simps)
next
  case (worker_exit w s c notify_manager m' cs')
  with Worker_exitD [OF worker_exit(3)] show ?case
    by (cases c) (auto simp: counter_inv_def count_simps)
qed (simp_all add: counter_inv_def count_simps)

lemma counter_inv_task: "task_step cfg s t \<Longrightarrow> counter_inv s \<Longrightarrow> counter_inv t"
proof (induction rule: task_step.induct)
  case (add_queued i s e locked timeout cur cur2 v expiration notify calls m' ws')
  then show ?case
    by (auto simp: counter_inv_def notified_cnt split: if_splits dest!: Add_enter_queuedD)
next
  case (add_waits i s e locked timeout cur cur2 v expiration calls m')
  then show ?case by (auto simp: counter_inv_def dest!: Add_enter_waitsD)
next
  case (add_throws i s e locked timeout cur cur2 v expiration x calls m')
  then show ?case by (auto simp: counter_inv_def dest!: Add_enter_throwsD)
next
  case (add_resume_queued i s v timeout expiration cur notify calls m' ws')
  then show ?case
    by (auto simp: counter_inv_def notified_cnt split: if_splits dest!: Add_resume_queuedD)
next
  case (add_resume_waits i s v timeout expiration cur calls m')
  then show ?case by (auto simp: counter_inv_def dest!: Add_resume_waitsD)
next
  case (remove_next_pending i s e r m')
  then show ?case by (auto simp: counter_inv_def dest!: RemoveNextPendingD)
next
  case (remove_expired_tasks i s e cur calls m')
  then show ?case by (auto simp: counter_inv_def RemoveExpiredTasks_split)
qed (auto simp: counter_inv_def ExpiredTaskCount_def)

lemma counter_inv_control: "control_step cfg s t \<Longrightarrow> counter_inv s \<Longrightarrow> counter_inv t"
proof (induction rule: control_step.induct)
  case (start_ok i s e notify m' ws')
  with StartD [of "mgr s" notify m'] show ?case by (auto simp: counter_inv_def wake_worker_cnt)
next
  case (simple_start_ok i s sm notify m' ws')
  with StartD [of "mgr s" notify m'] show ?case by (auto simp: counter_inv_def wake_worker_cnt)
next
  case (add_worker_start i s w new_threads)
  then show ?case by (simp add: counter_inv_def cnt_same_update start_thread_pc)
next
  case (remove_worker_request i s k v n m' ws')
  with RemoveWorker_requestD [of v "mgr s" n m'] show ?case
    by (auto simp: counter_inv_def notify_workers_cnt)
next
  case (stop_claim i s join do_stop m')
  with StopImpl_claimD [of join "mgr s" do_stop m'] show ?case by (auto simp: counter_inv_def)
qed (simp_all add: counter_inv_def)

interpretation counters: inductive_invariant pool_start "pool_step cfg" counter_inv
  by unfold_locales
    (blast intro: counter_inv_init counter_inv_worker counter_inv_task counter_inv_control
      elim: pool_step.cases)+

subsection \<open>Capacity\<close>

definition capacity :: "pool_cfg \<Rightarrow> size_t" where
  "capacity cfg = (case simple cfg of None \<Rightarrow> 0 | Some sm \<Rightarrow> s_pending_task_count_max sm)"

fun in_add :: "cpc \<Rightarrow> bool" where
  "in_add (C_AddWait v t e) = True"
| "in_add (C_AddWoken v t e) = True"
| "in_add p = False"

text \<open>Until the maximum is set nothing has been queued and nobody starts or waits.\<close>

definition quiet :: "pool \<Rightarrow> bool" where
  "quiet s \<longleftrightarrow> tm_state (mgr s) \<noteq> STARTED \<and> tasks (mgr s) = [] \<and>
     pending_task_count_max (mgr s) = 0 \<and> list_all (\<lambda>p. p \<noteq> C_SimpleStart \<and> \<not> in_add p) (cs s)"

definition capacity_inv :: "pool_cfg \<Rightarrow> pool \<Rightarrow> bool" where
  "capacity_inv cfg s \<longleftrightarrow>
     (pending_task_count_max (mgr s) = capacity cfg \<or> quiet s) \<and>
     (capacity cfg \<noteq> 0 \<longrightarrow> length (tasks (mgr s)) \<le> unat (capacity cfg))"

lemma list_all_update: "list_all Q ps \<Longrightarrow> Q p \<Longrightarrow> list_all Q (ps[i := p])"
  by (auto simp: list_all_iff dest!: set_update_subset_insert [THEN subsetD])

lemma notified_list_all:
  assumes "notified waiting wake n ps ps'" and "list_all Q ps" and "\<And>p. waiting p \<Longrightarrow> Q p \<Longrightarrow> Q (wake p)"
  shows "list_all Q ps'"
proof -
  have "list_all2 (\<lambda>p p'. p' = p \<or> waiting p \<and> p' = wake p) ps ps'"
    using assms(1) by (simp add: notified_def)
  then show ?thesis using assms(2) by (induction rule: list_all2_induct) (auto dest: assms(3))
qed

lemma quiet_nth:
  "quiet s \<Longrightarrow> i < length (cs s) \<Longrightarrow> cs s ! i \<noteq> C_SimpleStart \<and> \<not> in_add (cs s ! i)"
  by (auto simp: quiet_def list_all_length)

lemma add_waiting_in_add: "add_waiting p \<Longrightarrow> in_add p"
  by (cases p) auto

lemma not_full_room:
  assumes "\<not> queue_full m" and "pending_task_count_max m = k" and "k \<noteq> 0" and "length (tasks m) \<le> unat k"
  shows "Suc (length (tasks m)) \<le> unat k"
proof -
  have "length (tasks m) < 2 ^ 64" using assms(4) unsigned_less [of k, where 'a = nat] by simp
  then have "unat (tasks_size m) = length (tasks m)"
    by (simp add: tasks_size_def unat_of_nat)
  moreover have "tasks_size m < k" using assms(1-3) by (simp add: queue_full_def word_neq_0_conv)
  ultimately show ?thesis by (simp add: word_less_nat_alt)
qed

lemma length_dropWhile_expired: "length xs \<le> k \<Longrightarrow> length (dropWhile P xs) \<le> k"
  using length_dropWhile_le [of P xs] by linarith

lemma same_pending [simp]:
  "pending_task_count_max (SetExpireCallback cb m) = pending_task_count_max m"
  "pending_task_count_max (SetThreadFactory f m) = pending_task_count_max m"
  "pending_task_count_max (AddWorker_publish v T m) = pending_task_count_max m"
  "pending_task_count_max (id_map_insert k th m) = pending_task_count_max m"
  "pending_task_count_max (RemoveWorker_clean g m) = pending_task_count_max m"
  "pending_task_count_max (StopImpl_finish m) = pending_task_count_max m"
  "pending_task_count_max (SetPendingTaskCountMax v m) = v"
  "tm_state (SetExpireCallback cb m) = tm_state m"
  "tm_state (SetThreadFactory f m) = tm_state m"
  "tm_state (SetPendingTaskCountMax v m) = tm_state m"
  "tm_state (AddWorker_publish v T m) = tm_state m"
  "tm_state (id_map_insert k th m) = tm_state m" "tm_state (RemoveWorker_clean g m) = tm_state m"
  "tm_state (StopImpl_finish m) = STOPPED"
  by (simp_all add: SetExpireCallback_def SetThreadFactory_def SetPendingTaskCountMax_def
      AddWorker_publish_def id_map_insert_def RemoveWorker_clean_def StopImpl_finish_def)

lemma capacity_inv_init: "pool_start s \<Longrightarrow> capacity_inv cfg s"
  by (auto simp: pool_start_def pool_init_def capacity_inv_def quiet_def NewThreadManager_def
      Impl_new_def list_all_iff)

lemma capacity_inv_worker: "worker_step s t \<Longrightarrow> capacity_inv cfg s \<Longrightarrow> capacity_inv cfg t"
proof (induction rule: worker_step.induct)
  case (worker_enter w s active notify_manager m')
  from worker_enter(3) show ?case
    using worker_enter(4) by (cases rule: Worker_enter_cases) (auto simp: capacity_inv_def quiet_def)
next
  case (worker_notify w s cs')
  then show ?case by (auto simp: capacity_inv_def quiet_def elim!: notified_list_all elim: mgr_waiting.elims)
next
  case (worker_sleep w s cur m')
  with worker_turn_SleepD [OF worker_sleep(2)] show ?case by (auto simp: capacity_inv_def quiet_def)
next
  case (worker_leave w s cur m')
  with worker_turn_LeaveD [OF worker_leave(2)] show ?case by (auto simp: capacity_inv_def quiet_def)
next
  case (worker_proceed w s cur t' nm calls m' cs')
  with worker_turn_ProceedD [OF worker_proceed(2)] show ?case
    using length_dropWhile_le [of "is_expired cur" "tasks (mgr s)"]
    by (auto simp: capacity_inv_def quiet_def)
next
  case (worker_exit w s c notify_manager m' cs')
  with Worker_exitD [OF worker_exit(3)] show ?case
    by (auto simp: capacity_inv_def quiet_def split: if_splits elim!: notified_list_all elim: mgr_waiting.elims)
qed (auto simp: capacity_inv_def quiet_def)

lemma capacity_inv_task: "task_step cfg s t \<Longrightarrow> capacity_inv cfg s \<Longrightarrow> capacity_inv cfg t"
proof (induction rule: task_step.induct)
  case (add_queued i s e locked timeout cur cur2 v expiration notify calls m' ws')
  from Add_enter_queuedD [OF add_queued(4)] add_queued(6)
  show ?case
    using not_full_room [of "expire cur (mgr s)" "capacity cfg"]
    by (auto simp: capacity_inv_def quiet_def length_dropWhile_expired)
next
  case (add_waits i s e locked timeout cur cur2 v expiration calls m')
  then show ?case
    by (auto simp: capacity_inv_def quiet_def length_dropWhile_expired dest!: Add_enter_waitsD)
next
  case (add_throws i s e locked timeout cur cur2 v expiration x calls m')
  then show ?case
    by (auto simp: capacity_inv_def quiet_def length_dropWhile_expired list_all_update dest!: Add_enter_throwsD)
next
  case (add_resume_queued i s v timeout expiration cur notify calls m' ws')
  then have "\<not> quiet s" by (auto dest: quiet_nth)
  with Add_resume_queuedD [OF add_resume_queued(3)] add_resume_queued show ?case
    using not_full_room [of "mgr s" "capacity cfg"] by (auto simp: capacity_inv_def)
next
  case (add_resume_waits i s v timeout expiration cur calls m')
  then have "\<not> quiet s" by (auto dest: quiet_nth)
  with add_resume_waits show ?case by (auto simp: capacity_inv_def dest!: Add_resume_waitsD)
next
  case (remove_next_pending i s e r m')
  then show ?case
    by (auto simp: capacity_inv_def quiet_def list_all_update dest!: RemoveNextPendingD)
next
  case (remove_expired_tasks i s e cur calls m')
  then show ?case
    by (auto simp: capacity_inv_def quiet_def list_all_update RemoveExpiredTasks_split length_dropWhile_expired)
next
  case (add_spurious i s)
  then have "\<not> quiet s" by (auto dest: quiet_nth add_waiting_in_add)
  with add_spurious show ?case by (auto simp: capacity_inv_def)
qed (auto simp: capacity_inv_def quiet_def list_all_update ExpiredTaskCount_def)

lemma capacity_inv_control: "control_step cfg s t \<Longrightarrow> capacity_inv cfg s \<Longrightarrow> capacity_inv cfg t"
proof (induction rule: control_step.induct)
  case (start_ok i s e notify m' ws')
  with StartD [of "mgr s" notify m'] show ?case by (auto simp: capacity_inv_def quiet_def capacity_def list_all_update)
next
  case (simple_start_ok i s sm notify m' ws')
  then have "\<not> quiet s" by (auto dest: quiet_nth)
  with simple_start_ok StartD [of "mgr s" notify m'] show ?case by (auto simp: capacity_inv_def)
next
  case (remove_worker_request i s k v n m' ws')
  with RemoveWorker_requestD [of v "mgr s" n m'] show ?case
    by (auto simp: capacity_inv_def quiet_def list_all_update)
next
  case (stop_claim i s join do_stop m')
  with StopImpl_claimD [of join "mgr s" do_stop m'] show ?case
    by (auto simp: capacity_inv_def quiet_def list_all_update split: if_splits)
next
  case (mgr_spurious i s)
  then show ?case
    by (cases "cs s ! i") (auto simp: capacity_inv_def quiet_def list_all_update)
qed (auto simp: capacity_inv_def quiet_def list_all_update capacity_def split: caller.split)

interpretation cap: inductive_invariant pool_start "pool_step cfg" "capacity_inv cfg"
  by unfold_locales
    (blast intro: capacity_inv_init capacity_inv_worker capacity_inv_task capacity_inv_control
      elim: pool_step.cases)+

lemma cnt_split:
  "(\<And>p. Q p \<Longrightarrow> P p) \<Longrightarrow> cnt P ps = cnt (\<lambda>p. P p \<and> \<not> Q p) ps + cnt Q ps"
  by (induction ps) auto

subsection \<open>A run\<close>

text \<open>
  The start of a concrete run, for the witnesses: a \<^verbatim>\<open>SimpleThreadManager\<close> with one worker and
  room for two tasks, two clients; client 0 sets the factory and calls \<^verbatim>\<open>Start\<close>, client 1
  adds a task while client 0 is about to create the worker.
\<close>

definition ex_cfg :: pool_cfg where
  "ex_cfg = \<lparr>pid = (\<lambda>w. w + 100), creates = (\<lambda>_. True), cid = (\<lambda>i. i), control = (\<lambda>i. i = 0),
     removes = (\<lambda>_. False), purges = (\<lambda>_. False), pops = (\<lambda>_. False),
     simple = Some \<lparr>s_worker_count = 1, s_pending_task_count_max = 2\<rparr>\<rparr>"

definition ex_task :: Task where
  "ex_task = \<lparr>task_runnable = 7, task_state = WAITING, expire_time = 0\<rparr>"

definition ex_started :: Impl where
  "ex_started = Impl_new\<lparr>thread_factory := Some SimpleThreadFactory_default,
     pending_task_count_max := 2, tm_state := STARTED\<rparr>"

definition ex_pool :: "Impl \<Rightarrow> wpc list \<Rightarrow> cpc list \<Rightarrow> Task list \<Rightarrow> Task list \<Rightarrow> pool" where
  "ex_pool m w c a r = \<lparr>mgr = m, ws = w, cs = c, h_added = a, h_removed = r,
     h_started = map mark_executing r\<rparr>"

lemmas ex_defs = ex_cfg_def ex_task_def ex_started_def ex_pool_def Impl_new_def

lemma ex_run_started: "reach ex_cfg (ex_pool ex_started [] [C_AW_Begin 1, C_Ret None] [] [])"
proof -
  let ?m1 = "Impl_new\<lparr>thread_factory := Some SimpleThreadFactory_default\<rparr>"
  let ?s1 = "ex_pool ?m1 [] [C_Ret None, C_Ret None] [] []"
  let ?s2 = "ex_pool (?m1\<lparr>pending_task_count_max := 2\<rparr>) [] [C_SimpleStart, C_Ret None] [] []"
  have r0: "reach ex_cfg (pool_init 2)"
    by (rule reachable_init) (auto simp: pool_start_def)
  have "control_step ex_cfg (pool_init 2) ?s1"
    using set_thread_factory [of 0 "pool_init 2" None ex_cfg "Some SimpleThreadFactory_default"]
    by (simp add: pool_init_def NewThreadManager_def SetThreadFactory_def ex_defs numeral_2_eq_2)
  with r0 have r1: "reach ex_cfg ?s1" by (blast intro: reachable_step by_control)
  have "control_step ex_cfg ?s1 ?s2"
    using simple_start_max [of 0 ?s1 None ex_cfg "\<lparr>s_worker_count = 1, s_pending_task_count_max = 2\<rparr>"]
    by (simp add: SetPendingTaskCountMax_def ex_defs)
  with r1 have r2: "reach ex_cfg ?s2" by (blast intro: reachable_step by_control)
  have "control_step ex_cfg ?s2 (ex_pool ex_started [] [C_AW_Begin 1, C_Ret None] [] [])"
    using simple_start_ok [of 0 ?s2 ex_cfg "\<lparr>s_worker_count = 1, s_pending_task_count_max = 2\<rparr>" True
        ex_started "[]"]
    by (simp add: Start_def ex_defs)
  with r2 show ?thesis by (blast intro: reachable_step by_control)
qed

lemma ex_run_add:
  "pool_step ex_cfg (ex_pool ex_started [] [C_AW_Begin 1, C_Ret None] [] [])
     (ex_pool (ex_started\<lparr>tasks := [ex_task]\<rparr>) [] [C_AW_Begin 1, C_Ret None] [ex_task] [])"
  using by_task [OF add_queued [of 1 "ex_pool ex_started [] [C_AW_Begin 1, C_Ret None] [] []" None True 0
        ex_cfg 5 5 7 0 False "[]" "ex_started\<lparr>tasks := [ex_task]\<rparr>" "[]"]]
  by (simp add: Add_enter_def RemoveExpiredTasks_eq queue_full_def tasks_size_def Add_push_def
      Task_new_def callback_calls_def ex_defs)

lemma ex_run_added:
  "reach ex_cfg (ex_pool (ex_started\<lparr>tasks := [ex_task]\<rparr>) [] [C_AW_Begin 1, C_Ret None] [ex_task] [])"
  by (rule reachable_step [OF ex_run_started ex_run_add])

subsection \<open>Properties\<close>

text \<open>C8. No task is lost, repeated or overtaken: in every reachable state the tasks ever
  queued by \<^verbatim>\<open>Add\<close> are exactly those taken off the queue followed by those still pending, in the
  order they were added. The tasks the workers were given to run form a subsequence of them, each
  marked \<^verbatim>\<open>EXECUTING\<close>; every pending task is still \<^verbatim>\<open>WAITING\<close>.\<close>

theorem pool_fifo:
  assumes "reach cfg s"
  shows "h_added s = h_removed s @ tasks (mgr s) \<and> subseq (h_started s) (map mark_executing (h_added s)) \<and>
     (\<forall>t \<in> set (tasks (mgr s)). task_state t = WAITING)"
proof -
  have "fifo_inv s" using assms by (rule fifo.always)
  then show ?thesis by (auto simp: fifo_inv_def list_all_iff intro: list_emb_append2 subseq_rev_drop_many)
qed

theorem pool_fifo_witness:
  "h_added (ex_pool (ex_started\<lparr>tasks := [ex_task]\<rparr>) [] [C_AW_Begin 1, C_Ret None] [ex_task] []) = [ex_task] \<and>
   task_state ex_task = WAITING"
  using pool_fifo [OF ex_run_added] by (simp add: ex_pool_def ex_started_def Impl_new_def)

text \<open>C9. The configured bound is never exceeded: a \<^verbatim>\<open>SimpleThreadManager\<close> created with a
  maximum \<open>k \<noteq> 0\<close> of pending tasks has at most \<open>k\<close> tasks in its queue in every reachable
  state, with any number of threads adding and any number of them blocked in \<^verbatim>\<open>Add\<close>.\<close>

theorem pool_capacity:
  assumes "reach cfg s" and "simple cfg = Some sm" and "s_pending_task_count_max sm \<noteq> 0"
  shows "length (tasks (mgr s)) \<le> unat (s_pending_task_count_max sm)"
proof -
  have "capacity_inv cfg s" using assms(1) by (rule cap.always)
  with assms(2,3) show ?thesis by (simp add: capacity_inv_def capacity_def)
qed

theorem pool_capacity_witness:
  "length (tasks (ex_started\<lparr>tasks := [ex_task]\<rparr>)) \<le> unat (2 :: size_t)"
  using pool_capacity [OF ex_run_added, of "\<lparr>s_worker_count = 1, s_pending_task_count_max = 2\<rparr>"]
  by (simp add: ex_cfg_def ex_pool_def)

text \<open>C10. The counters tell the truth. In every reachable state \<^verbatim>\<open>IdleWorkerCount()\<close> is the
  number of workers in \<^verbatim>\<open>monitor_.Wait()\<close>, and as long as no worker has left without having
  entered, \<^verbatim>\<open>WorkerCount()\<close> is the number of workers inside the loop and \<^verbatim>\<open>TotalTaskCount()\<close>
  is the number of pending tasks plus that of the workers not waiting.\<close>

theorem pool_counters:
  assumes "reach cfg s"
  shows "IdleWorkerCount (mgr s) = of_nat (cnt idle_pc (ws s)) \<and>
     (cnt miscounted (ws s) = 0 \<longrightarrow>
        WorkerCount (mgr s) = of_nat (cnt counted (ws s)) \<and>
        TotalTaskCount (mgr s) =
          of_nat (length (tasks (mgr s)) + cnt (\<lambda>p. counted p \<and> \<not> idle_pc p) (ws s)))"
proof -
  have inv: "counter_inv s" using assms by (rule counters.always)
  have split: "cnt counted (ws s) = cnt (\<lambda>p. counted p \<and> \<not> idle_pc p) (ws s) + cnt idle_pc (ws s)"
    by (rule cnt_split) (auto elim: idle_pc.elims)
  then show ?thesis
    using inv by (auto simp: counter_inv_def IdleWorkerCount_def WorkerCount_def TotalTaskCount_def tasks_size_def)
qed

theorem pool_counters_witness:
  "TotalTaskCount (ex_started\<lparr>tasks := [ex_task]\<rparr>) = 1"
  using pool_counters [OF ex_run_added] by (simp add: ex_pool_def ex_started_def Impl_new_def)

end
