(* ===== verification/Pool_Progress.thy ===== *)
theory Pool_Progress
  imports Pool_Invariants
begin

text \<open>
  Ingredients of progress in the thread pool: what happens to the tasks taken off the queue,
  why a client blocked in \<^verbatim>\<open>Add\<close> is not forgotten, and a measure on the steps of the workers.
\<close>

subsection \<open>Every task that cannot expire is started\<close>

text \<open>A task that was added without an expiration leaves the queue through a worker that runs
  it, unless somebody calls \<^verbatim>\<open>RemoveNextPending\<close>.\<close>

definition undying :: "Task \<Rightarrow> bool" where
  "undying t \<longleftrightarrow> expire_time t = 0"

definition served_inv :: "pool_cfg \<Rightarrow> pool \<Rightarrow> bool" where
  "served_inv cfg s \<longleftrightarrow> (\<forall>i. \<not> pops cfg i) \<longrightarrow>
     map mark_executing (filter undying (h_removed s)) = filter undying (h_started s)"

lemma filter_expired [simp]: "filter undying (takeWhile (is_expired cur) ts) = []"
  by (auto simp: filter_empty_conv undying_def is_expired_def dest: set_takeWhileD)

lemma undying_mark [simp]: "undying (mark_executing t) = undying t"
  by (simp add: undying_def)

lemma filter_undying_mark [simp]:
  "filter undying (map mark_executing ts) = map mark_executing (filter undying ts)"
  by (induction ts) simp_all

lemma served_inv_init: "pool_start s \<Longrightarrow> served_inv cfg s"
  by (auto simp: pool_start_def pool_init_def served_inv_def)

lemma served_inv_worker: "worker_step s t \<Longrightarrow> served_inv cfg s \<Longrightarrow> served_inv cfg t"
proof (induction rule: worker_step.induct)
  case (worker_proceed w s cur t' nm calls m' cs')
  with turn_history [OF worker_proceed(2)] show ?case by (auto simp: served_inv_def)
qed (simp_all add: served_inv_def)

lemma served_inv_task: "task_step cfg s t \<Longrightarrow> served_inv cfg s \<Longrightarrow> served_inv cfg t"
proof (induction rule: task_step.induct)
  case (add_waits i s e locked timeout cur cur2 v expiration calls m')
  then show ?case by (auto simp: served_inv_def taken_dropWhile dest!: Add_enter_waitsD)
next
  case (add_throws i s e locked timeout cur cur2 v expiration x calls m')
  then show ?case by (auto simp: served_inv_def taken_dropWhile dest!: Add_enter_throwsD)
next
  case (remove_expired_tasks i s e cur calls m')
  then show ?case by (auto simp: served_inv_def taken_dropWhile RemoveExpiredTasks_split)
qed (auto simp: served_inv_def)

lemma served_inv_control: "control_step cfg s t \<Longrightarrow> served_inv cfg s \<Longrightarrow> served_inv cfg t"
  by (induction rule: control_step.induct) (simp_all add: served_inv_def)

interpretation served: inductive_invariant pool_start "pool_step cfg" "served_inv cfg"
  by unfold_locales
    (blast intro: served_inv_init served_inv_worker served_inv_task served_inv_control
      elim: pool_step.cases)+


subsection \<open>Blocked producers\<close>

text \<open>Clients waiting in \<^verbatim>\<open>Add\<close> for room: as long as there is one, the queue is not empty or
  another client was woken. Neither the public \<^verbatim>\<open>RemoveExpiredTasks\<close> nor \<^verbatim>\<open>RemoveNextPending\<close>
  notifies \<^verbatim>\<open>max_monitor_\<close>, so this needs that nobody calls them.\<close>

definition add_woken :: "cpc \<Rightarrow> bool" where
  "add_woken p \<longleftrightarrow> in_add p \<and> \<not> add_waiting p"

definition producer_inv :: "pool_cfg \<Rightarrow> pool \<Rightarrow> bool" where
  "producer_inv cfg s \<longleftrightarrow> (\<forall>i. \<not> pops cfg i \<and> \<not> purges cfg i) \<longrightarrow> 0 < cnt add_waiting (cs s) \<longrightarrow>
     pending_task_count_max (mgr s) \<noteq> 0 \<and> (tasks (mgr s) \<noteq> [] \<or> 0 < cnt add_woken (cs s))"

lemma add_woken_simps [simp]:
  "add_woken (C_AddWoken v t e)" "\<not> add_woken (C_AddWait v t e)" "\<not> in_add p \<Longrightarrow> \<not> add_woken p"
  by (simp_all add: add_woken_def)

lemma wake_add_woken: "add_waiting p \<Longrightarrow> add_woken (wake_add p)"
  by (cases p) auto

lemma queue_full_nonempty: "queue_full m \<Longrightarrow> tasks m \<noteq> [] \<and> pending_task_count_max m \<noteq> 0"
  by (auto simp: queue_full_def tasks_size_def)

text \<open>A client that is not in \<^verbatim>\<open>Add\<close> before and after its move does not count.\<close>

lemma producers_same:
  "\<not> in_add (ps ! i) \<Longrightarrow> \<not> in_add p \<Longrightarrow>
     cnt add_waiting (ps[i := p]) = cnt add_waiting ps \<and> cnt add_woken (ps[i := p]) = cnt add_woken ps"
  by (intro conjI cnt_same_update) (auto dest: add_waiting_in_add)

lemma mgr_not_in_add: "mgr_waiting p \<Longrightarrow> \<not> in_add p \<and> \<not> in_add (wake_mgr p)"
  by (cases p) auto

lemma producers_signal_mgr:
  assumes "signal_mgr n ps ps'"
  shows "cnt add_waiting ps' = cnt add_waiting ps \<and> cnt add_woken ps' = cnt add_woken ps"
  by (intro conjI notified_cnt [OF assms]) (auto dest: mgr_not_in_add add_waiting_in_add)

lemma notified_fewer:
  assumes "notified waiting wake n ps ps'"
  shows "cnt waiting ps' \<le> cnt waiting ps"
proof -
  have "list_all2 (\<lambda>p p'. p' = p \<or> waiting p \<and> p' = wake p) ps ps'"
    using assms by (simp add: notified_def)
  then show ?thesis by (induction rule: list_all2_induct) auto
qed

lemma producers_signal_add:
  assumes "signal_add 1 ps ps'"
  shows "cnt add_waiting ps' = 0 \<or> 0 < cnt add_woken ps'"
proof -
  have all: "list_all2 (\<lambda>p p'. p' = p \<or> add_waiting p \<and> p' = wake_add p) ps ps'"
    using assms by (simp add: notified_def)
  have "cnt add_waiting ps = cnt add_waiting ps' \<or> 0 < cnt add_woken ps'"
    using all by (induction rule: list_all2_induct) (auto dest: wake_add_woken)
  then show ?thesis using assms by (auto simp: notified_def)
qed

lemma producer_inv_init: "pool_start s \<Longrightarrow> producer_inv cfg s"
  by (auto simp: pool_start_def pool_init_def producer_inv_def)

lemma producer_inv_worker: "worker_step s t \<Longrightarrow> producer_inv cfg s \<Longrightarrow> producer_inv cfg t"
proof (induction rule: worker_step.induct)
  case (worker_enter w s active notify_manager m')
  from worker_enter(3) show ?case
    using worker_enter(4) by (cases rule: Worker_enter_cases) (auto simp: producer_inv_def)
next
  case (worker_notify w s cs')
  then show ?case by (auto simp: producer_inv_def dest!: producers_signal_mgr)
next
  case (worker_sleep w s cur m')
  with worker_turn_SleepD [OF worker_sleep(2)] show ?case by (auto simp: producer_inv_def)
next
  case (worker_leave w s cur m')
  with worker_turn_LeaveD [OF worker_leave(2)] show ?case by (auto simp: producer_inv_def)
next
  case (worker_proceed w s cur t' nm calls m' cs')
  from worker_turn_ProceedD [OF worker_proceed(2)]
  have *: "pending_task_count_max m' = pending_task_count_max (mgr s)"
     "pending_task_count_max (mgr s) \<noteq> 0 \<Longrightarrow> tasks m' = [] \<Longrightarrow> nm" by auto
  show ?case
  proof (cases nm)
    case True
    then have sig: "signal_add 1 (cs s) cs'" using worker_proceed(3) by simp
    then show ?thesis
      using worker_proceed(4) * producers_signal_add [OF sig] notified_fewer [OF sig]
      by (auto simp: producer_inv_def)
  next
    case False
    then show ?thesis using worker_proceed(3,4) * by (auto simp: producer_inv_def)
  qed
next
  case (worker_exit w s c notify_manager m' cs')
  with Worker_exitD [OF worker_exit(3)] show ?case
    by (auto simp: producer_inv_def split: if_splits dest!: producers_signal_mgr)
qed (auto simp: producer_inv_def)


lemma producer_inv_task: "task_step cfg s t \<Longrightarrow> producer_inv cfg s \<Longrightarrow> producer_inv cfg t"
proof (induction rule: task_step.induct)
  case (add_spurious i s)
  then have "0 < cnt add_woken ((cs s)[i := wake_add (cs s ! i)])" "0 < cnt add_waiting (cs s)"
    by (auto simp: cnt_pos_nth wake_add_woken intro: exI [of _ i])
  with add_spurious show ?case by (auto simp: producer_inv_def)
next
  case (add_queued i s e locked timeout cur cur2 v expiration notify calls m' ws')
  with producers_same [of "cs s" i "C_Ret None"] show ?case
    by (auto simp: producer_inv_def dest!: Add_enter_queuedD)
next
  case (add_waits i s e locked timeout cur cur2 v expiration calls m')
  then show ?case by (auto simp: producer_inv_def dest!: Add_enter_waitsD queue_full_nonempty)
next
  case (add_throws i s e locked timeout cur cur2 v expiration x calls m')
  with producers_same [of "cs s" i "C_Ret (Some x)"] show ?case
    by (auto simp: producer_inv_def dest!: Add_enter_throwsD queue_full_nonempty)
next
  case (add_resume_queued i s v timeout expiration cur notify calls m' ws')
  then have "cnt add_waiting ((cs s)[i := C_Ret None]) = cnt add_waiting (cs s)"
    by (intro cnt_same_update) simp
  with add_resume_queued show ?case by (auto simp: producer_inv_def dest!: Add_resume_queuedD)
next
  case (add_resume_waits i s v timeout expiration cur calls m')
  then show ?case by (auto simp: producer_inv_def dest!: Add_resume_waitsD queue_full_nonempty)
next
  case (add_timeout i s v timeout expiration)
  then have "cnt add_woken ((cs s)[i := C_Ret (Some TimedOut_default)]) = cnt add_woken (cs s)"
     "cnt add_waiting ((cs s)[i := C_Ret (Some TimedOut_default)]) \<le> cnt add_waiting (cs s)"
    using cnt_update [of i "cs s" add_waiting "C_Ret (Some TimedOut_default)"]
    by (auto intro!: cnt_same_update)
  with add_timeout show ?case by (auto simp: producer_inv_def)
next
  case (expired_task_count i s e n m')
  with producers_same [of "cs s" i "C_Ret None"] show ?case
    by (auto simp: producer_inv_def ExpiredTaskCount_def)
next
  case (remove_expired_tasks i s e cur calls m')
  then show ?case by (auto simp: producer_inv_def)
next
  case (remove_next_pending i s e r m')
  then show ?case by (auto simp: producer_inv_def)
qed (auto simp: producer_inv_def producers_same)

lemma producer_inv_control:
  "control_step cfg s t \<Longrightarrow> capacity_inv cfg s \<Longrightarrow> producer_inv cfg s \<Longrightarrow> producer_inv cfg t"
proof (induction rule: control_step.induct)
  case (mgr_spurious i s)
  with mgr_not_in_add [OF mgr_spurious(2)] show ?case by (auto simp: producer_inv_def producers_same)
next
  case (start_ok i s e notify m' ws')
  with StartD [of "mgr s" notify m'] show ?case by (auto simp: producer_inv_def producers_same)
next
  case (simple_start_max i s e sm)
  have "0 < cnt add_waiting (cs s) \<Longrightarrow> \<not> quiet s"
    by (auto simp: quiet_def list_all_iff cnt_pos_iff dest!: add_waiting_in_add)
  with simple_start_max show ?case
    by (auto simp: producer_inv_def producers_same capacity_inv_def capacity_def)
next
  case (simple_start_ok i s sm notify m' ws')
  with StartD [of "mgr s" notify m'] show ?case by (auto simp: producer_inv_def producers_same)
next
  case (remove_worker_request i s k v n m' ws')
  with RemoveWorker_requestD [of v "mgr s" n m'] show ?case by (auto simp: producer_inv_def producers_same)
next
  case (stop_claim i s join do_stop m')
  with StopImpl_claimD [of join "mgr s" do_stop m'] show ?case
    by (auto simp: producer_inv_def producers_same split: if_splits)
qed (auto simp: producer_inv_def producers_same split: caller.split)

interpretation producers: relative_invariant pool_start "pool_step cfg" "capacity_inv cfg" "producer_inv cfg"
  by unfold_locales
    (blast intro: producer_inv_init producer_inv_worker producer_inv_task producer_inv_control
      elim: pool_step.cases)+

subsection \<open>The workers' own steps\<close>

text \<open>\<open>work\<close> is a step of a worker other than a spurious wake-up. Work ends: every such step
  decreases \<open>work_left\<close>. And it goes on as long as a worker is neither asleep nor done.\<close>

definition wakes_up :: "pool \<Rightarrow> pool \<Rightarrow> bool" where
  "wakes_up s t \<longleftrightarrow> (\<exists>w < length (ws s). ws s ! w = W_Wait \<and> t = s\<lparr>ws := (ws s)[w := W_Woken]\<rparr>)"

definition work :: "pool \<Rightarrow> pool \<Rightarrow> bool" where
  "work s t \<longleftrightarrow> worker_step s t \<and> \<not> wakes_up s t"

fun weight :: "wpc \<Rightarrow> nat" where
  "weight W_Start = 4"
| "weight W_NotifyMgr = 3"
| "weight (W_Run t) = 3"
| "weight W_Loop = 2"
| "weight W_Woken = 2"
| "weight (W_Exit c) = 1"
| "weight p = 0"

definition work_left :: "pool \<Rightarrow> nat" where
  "work_left s = 2 * length (tasks (mgr s)) + sum_list (map weight (ws s))"

lemma weight_update:
  "w < length ps \<Longrightarrow> sum_list (map weight (ps[w := p])) + weight (ps ! w) = sum_list (map weight ps) + weight p"
proof (induction ps arbitrary: w)
  case (Cons q ps)
  then show ?case by (cases w) (simp_all add: add.assoc add.left_commute)
qed simp

lemma turn_shortens:
  assumes "worker_turn p cur m = Some (Proceed t notify_max calls m')"
  shows "length (tasks m') < length (tasks m)"
  using worker_turn_ProceedD [OF assms] length_dropWhile_le [of "is_expired cur" "tasks m"]
  by (cases "dropWhile (is_expired cur) (tasks m)") (auto simp del: dropWhile_eq_Nil_conv)

lemma turn_weight: "worker_turn p cur m = Some a \<Longrightarrow> weight p = 2"
  by (cases p) auto

lemma worker_step_moves:
  "worker_step s t \<Longrightarrow> work_left t < work_left s \<or> wakes_up s t"
proof (induction rule: worker_step.induct)
  case (worker_enter w s active notify_manager m')
  let ?p = "if active then if notify_manager then W_NotifyMgr else W_Loop else W_Exit False"
  have "weight ?p < 4" by simp
  with worker_enter weight_update [of w "ws s" ?p] Worker_enter_tasks [OF worker_enter(3)]
  have "work_left (s\<lparr>mgr := m', ws := (ws s)[w := ?p]\<rparr>) < work_left s"
    unfolding work_left_def by simp
  then show ?case by blast
next
  case (worker_notify w s cs')
  with weight_update [of w "ws s" W_Loop] show ?case by (simp add: work_left_def)
next
  case (worker_sleep w s cur m')
  with weight_update [of w "ws s" W_Wait] worker_turn_SleepD [OF worker_sleep(2)] show ?case
    by (auto simp: work_left_def)
next
  case (worker_proceed w s cur t nm calls m' cs')
  with weight_update [of w "ws s" "W_Run t"] turn_weight [OF worker_proceed(2)]
    turn_shortens [OF worker_proceed(2)]
  have "2 * length (tasks m') + sum_list (map weight ((ws s)[w := W_Run t])) < work_left s"
    by (simp add: work_left_def)
  then show ?case by (simp add: work_left_def)
next
  case (worker_leave w s cur m')
  with weight_update [of w "ws s" "W_Exit True"] worker_turn_LeaveD [OF worker_leave(2)] show ?case
    by (auto simp: work_left_def)
next
  case (worker_run w s t)
  with weight_update [of w "ws s" W_Loop] show ?case by (simp add: work_left_def)
next
  case (worker_exit w s c nm m' cs')
  with weight_update [of w "ws s" "W_Done c"] Worker_exitD [OF worker_exit(3)] show ?case
    by (simp add: work_left_def)
next
  case (worker_spurious w s)
  then show ?case by (auto simp: wakes_up_def)
qed

lemma work_decreases: "work s t \<Longrightarrow> work_left t < work_left s"
  using worker_step_moves by (auto simp: work_def)

fun busy :: "wpc \<Rightarrow> bool" where
  "busy W_Start = True"
| "busy W_NotifyMgr = True"
| "busy W_Loop = True"
| "busy W_Woken = True"
| "busy (W_Run t) = True"
| "busy (W_Exit c) = True"
| "busy p = False"

lemma notify_possible:
  assumes "\<And>p. waiting p \<Longrightarrow> \<not> waiting (wake p)"
  shows "\<exists>ps'. if signals then notified waiting wake n ps ps' else ps' = ps"
proof -
  let ?ps = "map (\<lambda>p. if waiting p then wake p else p) ps"
  have "cnt waiting ?ps = 0" using assms by (auto simp: cnt_zero_iff)
  then have "notified waiting wake n ps ?ps"
    by (auto simp: notified_def list_all2_conv_all_nth)
  then show ?thesis by (cases signals) auto
qed

lemma wake_mgr_not_waiting: "mgr_waiting p \<Longrightarrow> \<not> mgr_waiting (wake_mgr p)"
  by (cases p) auto

lemma wake_add_not_waiting: "add_waiting p \<Longrightarrow> \<not> add_waiting (wake_add p)"
  by (cases p) auto

lemma moved_not_wakes_up:
  "w < length (ws s) \<Longrightarrow> ws s ! w \<noteq> W_Wait \<Longrightarrow> ws t ! w \<noteq> ws s ! w \<Longrightarrow> \<not> wakes_up s t"
  by (auto simp: wakes_up_def nth_list_update split: if_splits)

lemma turn_possible:
  assumes w: "w < length (ws s)" and turn: "worker_turn (ws s ! w) 0 (mgr s) = Some a"
  shows "\<exists>t. worker_step s t \<and> ws t ! w \<noteq> ws s ! w"
proof (cases a)
  case (Leave m')
  with worker_leave [OF w, of 0 m'] turn worker_turn_LeaveD [of "ws s ! w" 0 "mgr s" m'] w show ?thesis
    by (intro exI conjI) auto
next
  case (Sleep m')
  with worker_sleep [OF w, of 0 m'] turn worker_turn_SleepD [of "ws s ! w" 0 "mgr s" m'] w show ?thesis
    by (intro exI conjI) auto
next
  case (Proceed t nm calls m')
  obtain cs' where "if nm then signal_add 1 (cs s) cs' else cs' = cs s"
    using notify_possible [of add_waiting wake_add nm 1 "cs s"] wake_add_not_waiting by blast
  with Proceed worker_proceed [OF w, of 0 t nm calls m' cs'] turn
    worker_turn_ProceedD [of "ws s ! w" 0 "mgr s" t nm calls m'] w show ?thesis
    by (intro exI conjI) auto
qed

lemma busy_moves:
  assumes w: "w < length (ws s)" and "busy (ws s ! w)"
  shows "\<exists>t. worker_step s t \<and> ws t ! w \<noteq> ws s ! w"
  using assms(2)
proof (cases "ws s ! w")
  case W_Start
  obtain a n m' where "Worker_enter (mgr s) = (a, n, m')" by (metis prod_cases3)
  from worker_enter [OF w W_Start this] W_Start w show ?thesis by (intro exI conjI) (auto split: if_splits)
next
  case W_NotifyMgr
  obtain cs' where "signal_mgr 1 (cs s) cs'"
    using notify_possible [of mgr_waiting wake_mgr True 1 "cs s"] wake_mgr_not_waiting by auto
  from worker_notify [OF w W_NotifyMgr this] W_NotifyMgr w show ?thesis by (intro exI conjI) auto
next
  case (W_Run t)
  from worker_run [OF w W_Run] W_Run w show ?thesis by (intro exI conjI) auto
next
  case (W_Exit c)
  obtain n m' where e: "Worker_exit w (mgr s) = (n, m')" by (metis surj_pair)
  obtain cs' where "if n then signal_mgr 1 (cs s) cs' else cs' = cs s"
    using notify_possible [of mgr_waiting wake_mgr n 1 "cs s"] wake_mgr_not_waiting by blast
  from worker_exit [OF w W_Exit e this] W_Exit w show ?thesis by (intro exI conjI) auto
next
  case W_Loop
  then have "worker_turn (ws s ! w) 0 (mgr s) = Some (Worker_top 0 (mgr s))" by simp
  from turn_possible [OF w this] show ?thesis .
next
  case W_Woken
  then have "\<exists>a. worker_turn (ws s ! w) 0 (mgr s) = Some a" by simp
  then show ?thesis using turn_possible [OF w] by blast
qed auto

lemma busy_can_work:
  assumes "w < length (ws s)" and "busy (ws s ! w)"
  shows "\<exists>t. work s t"
proof -
  from busy_moves [OF assms] obtain t where "worker_step s t" "ws t ! w \<noteq> ws s ! w" by blast
  moreover have "ws s ! w \<noteq> W_Wait" using assms(2) by auto
  ultimately show ?thesis using assms(1) moved_not_wakes_up [of w s t] by (auto simp: work_def)
qed

lemma no_work: "\<nexists>t. work s t \<Longrightarrow> \<forall>p \<in> set (ws s). \<not> busy p"
  by (metis busy_can_work in_set_conv_nth)

end
