(* ===== verification/Pool_Managed.thy ===== *)
theory Pool_Managed
  imports Pool_Progress
begin

text \<open>
  The thread pool as the rest of the repository uses it: one thread starts it, adds workers
  and stops or joins it, any number of threads add tasks. Which workers exist, and how many
  are counted, is then determined by the control point of that one thread.
\<close>

subsection \<open>Stages of a worker, phases of the controller\<close>

text \<open>A worker is created, started, inside the loop, on its way out, or gone. \<open>Stray\<close> is a
  worker that never came to be or that left without having entered.\<close>

datatype stage = New | Starting | Inside | Leaving | Gone | Stray

fun stage_of :: "wpc \<Rightarrow> stage" where
  "stage_of W_Created = New"
| "stage_of W_Start = Starting"
| "stage_of W_NotifyMgr = Inside"
| "stage_of W_Loop = Inside"
| "stage_of W_Wait = Inside"
| "stage_of W_Woken = Inside"
| "stage_of (W_Run t) = Inside"
| "stage_of (W_Exit entered) = (if entered then Leaving else Stray)"
| "stage_of (W_Done entered) = (if entered then Gone else Stray)"
| "stage_of W_NoThread = Stray"

abbreviation number :: "stage \<Rightarrow> wpc list \<Rightarrow> nat" where
  "number g \<equiv> cnt (\<lambda>p. stage_of p = g)"

text \<open>\<open>steady\<close>: nobody comes or goes and every worker counted by \<^verbatim>\<open>worker_max_count_\<close> is in the
  loop. \<open>growing ths\<close>: \<^verbatim>\<open>AddWorker\<close> has raised the maximum and has the threads \<open>ths\<close> still to
  start. \<open>phase\<close> says which holds at each control point of the controller.\<close>

definition steady :: "wpc list \<Rightarrow> size_t \<Rightarrow> bool" where
  "steady ps mx \<longleftrightarrow> number New ps = 0 \<and> number Starting ps = 0 \<and> number Leaving ps = 0 \<and>
     number Inside ps = unat mx"

definition fresh :: "thread_ref list \<Rightarrow> wpc list \<Rightarrow> bool" where
  "fresh ths ps \<longleftrightarrow> number New ps = length ths \<and> distinct ths \<and>
     (\<forall>w \<in> set ths. w < length ps \<and> ps ! w = W_Created)"

definition growing :: "thread_ref list \<Rightarrow> wpc list \<Rightarrow> size_t \<Rightarrow> bool" where
  "growing ths ps mx \<longleftrightarrow> fresh ths ps \<and> number Leaving ps = 0 \<and>
     number Inside ps + number New ps + number Starting ps = unat mx"

fun phase :: "wpc list \<Rightarrow> size_t \<Rightarrow> cpc \<Rightarrow> bool" where
  "phase ps mx (C_AW_Publish v ths) \<longleftrightarrow>
     number Starting ps = 0 \<and> number Leaving ps = 0 \<and> number Inside ps = unat mx \<and>
     length ths = unat v \<and> fresh ths ps"
| "phase ps mx (C_AW_Start ths) \<longleftrightarrow> growing ths ps mx"
| "phase ps mx (C_AW_Insert w ths) \<longleftrightarrow> growing ths ps mx"
| "phase ps mx C_AW_Check \<longleftrightarrow> growing [] ps mx"
| "phase ps mx C_AW_Wait \<longleftrightarrow> growing [] ps mx"
| "phase ps mx (C_RW_Request k v) \<longleftrightarrow> k \<noteq> Api \<and> v = mx \<and> steady ps mx"
| "phase ps mx (C_RW_Check k) \<longleftrightarrow> k \<noteq> Api \<and> mx = 0 \<and> number New ps = 0 \<and> number Starting ps = 0"
| "phase ps mx (C_RW_Wait k) \<longleftrightarrow> k \<noteq> Api \<and> mx = 0 \<and> number New ps = 0 \<and> number Starting ps = 0"
| "phase ps mx (C_Stop_Finish d) \<longleftrightarrow> steady ps mx \<and> (d \<noteq> None \<longrightarrow> mx = 0)"
| "phase ps mx p \<longleftrightarrow> steady ps mx"

text \<open>Where a thread that only works with tasks can be.\<close>

fun client :: "cpc \<Rightarrow> bool" where
  "client (C_Ret e) = True"
| "client (C_AddWait v t e) = True"
| "client (C_AddWoken v t e) = True"
| "client p = False"

lemmas stage_defs = steady_def fresh_def growing_def

lemma phase_client: "client p \<Longrightarrow> phase ps mx p = steady ps mx"
  by (cases p) auto

lemma phase_wake_mgr: "mgr_waiting p \<Longrightarrow> phase ps mx (wake_mgr p) = phase ps mx p"
  by (cases p) auto

lemma client_wake:
  "mgr_waiting p \<Longrightarrow> client (wake_mgr p) = client p" "add_waiting p \<Longrightarrow> client p \<and> client (wake_add p)"
  by (cases p; simp)+

text \<open>The invariant looks at the stages only.\<close>

lemma number_cong: "map stage_of ps' = map stage_of ps \<Longrightarrow> number g ps' = number g ps"
proof -
  have "cnt (\<lambda>p. stage_of p = g) ps = cnt (\<lambda>x. x = g) (map stage_of ps)" for ps
    by (induction ps) auto
  then show "map stage_of ps' = map stage_of ps \<Longrightarrow> number g ps' = number g ps" by simp
qed

lemma stage_New: "stage_of p = New \<longleftrightarrow> p = W_Created"
  by (cases p) auto

lemma fresh_cong: "map stage_of ps' = map stage_of ps \<Longrightarrow> fresh ths ps' = fresh ths ps"
proof -
  assume *: "map stage_of ps' = map stage_of ps"
  then have "length ps' = length ps" by (rule map_eq_imp_length_eq)
  moreover have "w < length ps' \<Longrightarrow> ps' ! w = W_Created \<longleftrightarrow> ps ! w = W_Created" for w
    using * calculation unfolding stage_New [symmetric] by (metis nth_map)
  ultimately show ?thesis using number_cong [OF *] by (auto simp: fresh_def)
qed

lemma phase_cong:
  assumes "map stage_of ps' = map stage_of ps"
  shows "phase ps' mx pc = phase ps mx pc"
  using number_cong [OF assms] fresh_cong [OF assms]
  by (cases pc) (simp_all add: steady_def growing_def)

lemma stage_update_same: "w < length ps \<Longrightarrow> stage_of p = stage_of (ps ! w) \<Longrightarrow> map stage_of (ps[w := p]) = map stage_of ps"
  by (simp add: map_update list_update_same_conv)

lemma stage_notified:
  assumes "signal_workers n ps ps'"
  shows "map stage_of ps' = map stage_of ps"
proof -
  have "list_all2 (\<lambda>p p'. p' = p \<or> p = W_Wait \<and> p' = wake_worker p) ps ps'"
    using assms by (simp add: notified_def)
  then show ?thesis by (induction rule: list_all2_induct) auto
qed

lemma stage_wake_all: "map stage_of (map wake_worker ps) = map stage_of ps"
proof (induction ps)
  case (Cons p ps)
  then show ?case by (cases p) auto
qed simp

lemma stage_notify_workers: "notify_workers n ps ps' \<Longrightarrow> map stage_of ps' = map stage_of ps"
  by (cases n) (auto simp only: notify_workers.simps stage_notified stage_wake_all)

text \<open>How the moves of one worker change the numbers.\<close>

lemma number_move:
  "w < length ps \<Longrightarrow> number g (ps[w := p]) + (if stage_of (ps ! w) = g then 1 else 0) =
     number g ps + (if stage_of p = g then 1 else 0)"
  by (rule cnt_update)

lemma number_pos: "w < length ps \<Longrightarrow> stage_of (ps ! w) = g \<Longrightarrow> 0 < number g ps"
  by (auto simp: cnt_pos_nth)

lemma fresh_move:
  assumes "w < length ps" "stage_of (ps ! w) \<noteq> New" "stage_of p \<noteq> New"
  shows "fresh ths (ps[w := p]) = fresh ths ps"
proof -
  have "number New (ps[w := p]) = number New ps" using number_move [of w ps New p] assms by simp
  moreover have "u < length ps \<Longrightarrow> (ps[w := p]) ! u = W_Created \<longleftrightarrow> ps ! u = W_Created" for u
    using assms by (auto simp: nth_list_update)
  ultimately show ?thesis by (auto simp: fresh_def)
qed

lemma phase_enter:
  assumes "phase ps mx pc" "w < length ps" "stage_of (ps ! w) = Starting" "stage_of p = Inside"
  shows "phase (ps[w := p]) mx pc"
  using assms number_pos [of w ps Starting] fresh_move [of w ps p]
    number_move [of w ps New p] number_move [of w ps Starting p] number_move [of w ps Inside p]
    number_move [of w ps Leaving p]
  by (cases pc) (auto simp: steady_def growing_def)

lemma phase_starting_room:
  "phase ps mx pc \<Longrightarrow> w < length ps \<Longrightarrow> stage_of (ps ! w) = Starting \<Longrightarrow>
     number Inside ps + number Leaving ps < unat mx"
  using number_pos [of w ps Starting] by (cases pc) (auto simp: steady_def growing_def)

lemma phase_leave:
  assumes "phase ps mx pc" "w < length ps" "stage_of (ps ! w) = Inside" "stage_of p = Leaving"
    and "unat mx < number Inside ps + number Leaving ps"
  shows "phase (ps[w := p]) mx pc"
  using assms number_move [of w ps New p] number_move [of w ps Starting p]
  by (cases pc) (auto simp: steady_def growing_def)

lemma phase_exit:
  assumes "phase ps mx pc" "w < length ps" "stage_of (ps ! w) = Leaving" "stage_of p = Gone"
  shows "phase (ps[w := p]) mx pc"
  using assms number_pos [of w ps Leaving] number_move [of w ps New p] number_move [of w ps Starting p]
  by (cases pc) (auto simp: steady_def growing_def)

subsection \<open>Pools with one controller\<close>

text \<open>One client \<open>c\<close> calls \<^verbatim>\<open>Start\<close>, \<^verbatim>\<open>AddWorker\<close>, \<^verbatim>\<open>Stop\<close> and \<^verbatim>\<open>Join\<close>, nobody calls
  \<^verbatim>\<open>RemoveWorker\<close> directly, and \<^verbatim>\<open>pthread_create\<close> succeeds. The invariant is stated for
  fewer than \<open>2 ^ 64\<close> threads ever created, where the counters cannot wrap.\<close>

definition managed :: "pool_cfg \<Rightarrow> nat \<Rightarrow> bool" where
  "managed cfg c \<longleftrightarrow> (\<forall>i. control cfg i \<longrightarrow> i = c) \<and> (\<forall>w. creates cfg w) \<and> (\<forall>i. \<not> removes cfg i)"

definition pc_of :: "nat \<Rightarrow> cpc list \<Rightarrow> cpc" where
  "pc_of c ps = (if c < length ps then ps ! c else C_Ret None)"

definition orderly :: "nat \<Rightarrow> wpc list \<Rightarrow> size_t \<Rightarrow> cpc list \<Rightarrow> bool" where
  "orderly c ps mx qs \<longleftrightarrow> number Stray ps = 0 \<and> (\<forall>i < length qs. i \<noteq> c \<longrightarrow> client (qs ! i)) \<and>
     phase ps mx (pc_of c qs)"

definition managed_inv :: "pool_cfg \<Rightarrow> nat \<Rightarrow> pool \<Rightarrow> bool" where
  "managed_inv cfg c s \<longleftrightarrow> managed cfg c \<longrightarrow> length (ws s) < 2 ^ 64 \<longrightarrow>
     orderly c (ws s) (worker_max_count (mgr s)) (cs s)"

lemma counted_stage: "counted p \<longleftrightarrow> stage_of p = Inside \<or> stage_of p = Leaving"
  by (cases p) auto

lemma miscounted_stage: "miscounted p \<Longrightarrow> stage_of p = Stray"
  by (cases p) auto

lemma cnt_counted: "cnt counted ps = number Inside ps + number Leaving ps"
  by (induction ps) (auto simp: counted_stage)

lemma number_sum:
  "number New ps + number Starting ps + number Inside ps + number Leaving ps + number Gone ps + number Stray ps
     = length ps"
proof (induction ps)
  case (Cons p ps)
  then show ?case by (cases "stage_of p") auto
qed simp

lemma worker_count_number:
  assumes "counter_inv s" "number Stray (ws s) = 0" "length (ws s) < 2 ^ 64"
  shows "unat (worker_count (mgr s)) = number Inside (ws s) + number Leaving (ws s)"
proof -
  have "cnt miscounted (ws s) = 0"
    using assms(2) miscounted_stage by (auto simp: cnt_zero_iff)
  then have "worker_count (mgr s) = of_nat (number Inside (ws s) + number Leaving (ws s))"
    using assms(1) by (simp add: counter_inv_def cnt_counted)
  moreover have "number Inside (ws s) + number Leaving (ws s) < 2 ^ 64"
    using number_sum [of "ws s"] assms(3) by linarith
  ultimately show ?thesis by (simp add: unat_of_nat del: of_nat_add)
qed

text \<open>Signals to clients.\<close>

lemma notified_nth:
  assumes "notified waiting wake n ps ps'" "i < length ps"
  shows "ps' ! i = ps ! i \<or> waiting (ps ! i) \<and> ps' ! i = wake (ps ! i)"
  using assms by (auto simp: notified_def list_all2_conv_all_nth)

lemma orderly_signal_mgr:
  assumes "orderly c ps mx qs" "signal_mgr n qs qs'"
  shows "orderly c ps mx qs'"
proof -
  have len: "length qs' = length qs" using assms(2) by (rule notified_length)
  have "phase ps mx (pc_of c qs')"
    using assms(1) notified_nth [OF assms(2), of c] len phase_wake_mgr
    by (auto simp: orderly_def pc_of_def)
  moreover have "client (qs' ! i)" if "i < length qs" "i \<noteq> c" for i
    using assms(1) notified_nth [OF assms(2) that(1)] that client_wake(1) by (auto simp: orderly_def)
  ultimately show ?thesis using assms(1) len by (simp add: orderly_def)
qed

lemma orderly_signal_add:
  assumes "orderly c ps mx qs" "signal_add n qs qs'"
  shows "orderly c ps mx qs'"
proof -
  have len: "length qs' = length qs" using assms(2) by (rule notified_length)
  have "phase ps mx (pc_of c qs')"
    using assms(1) notified_nth [OF assms(2), of c] len phase_client client_wake(2)
    by (auto simp: orderly_def pc_of_def)
  moreover have "client (qs' ! i)" if "i < length qs" "i \<noteq> c" for i
    using assms(1) notified_nth [OF assms(2) that(1)] that client_wake(2) by (auto simp: orderly_def)
  ultimately show ?thesis using assms(1) len by (simp add: orderly_def)
qed

lemma orderly_stages:
  assumes "orderly c ps mx qs" "map stage_of ps' = map stage_of ps"
  shows "orderly c ps' mx qs"
  using assms(1) phase_cong [OF assms(2)] number_cong [OF assms(2)] by (simp add: orderly_def)

lemma orderly_client_move:
  assumes "orderly c ps mx qs" "i < length qs" "client (qs ! i)" "client p"
  shows "orderly c ps mx (qs[i := p])"
  using assms phase_client [OF assms(3)] phase_client [OF assms(4)]
  by (auto simp: orderly_def pc_of_def nth_list_update)

lemma orderly_control_move:
  assumes "orderly c ps mx qs" "i < length qs" "\<not> client (qs ! i) \<or> i = c"
    and "number Stray ps = 0 \<Longrightarrow> number Stray ps' = 0" "phase ps mx (qs ! i) \<Longrightarrow> phase ps' mx' p"
  shows "orderly c ps' mx' (qs[i := p])"
proof -
  have "i = c" using assms(1-3) by (auto simp: orderly_def)
  with assms show ?thesis by (auto simp: orderly_def pc_of_def nth_list_update)
qed

lemma orderly_worker_move:
  assumes "orderly c ps mx qs" "w < length ps" "stage_of p \<noteq> Stray" "phase (ps[w := p]) mx (pc_of c qs)"
  shows "orderly c (ps[w := p]) mx qs"
  using assms number_move [of w ps Stray p] by (auto simp: orderly_def)

lemma orderly_not_stray: "orderly c ps mx qs \<Longrightarrow> w < length ps \<Longrightarrow> stage_of (ps ! w) \<noteq> Stray"
  using number_pos [of w ps Stray] by (auto simp: orderly_def)

lemma orderly_worker:
  "worker_step s t \<Longrightarrow> counter_inv s \<Longrightarrow> length (ws s) < 2 ^ 64 \<Longrightarrow>
   orderly c (ws s) (worker_max_count (mgr s)) (cs s) \<Longrightarrow>
   orderly c (ws t) (worker_max_count (mgr t)) (cs t)"
proof (induction rule: worker_step.induct)
  case (worker_enter w s active notify_manager m')
  let ?p = "if active then if notify_manager then W_NotifyMgr else W_Loop else W_Exit False"
  have "unat (worker_count (mgr s)) < unat (worker_max_count (mgr s))"
    using worker_enter phase_starting_room [of "ws s" _ _ w]
    by (auto simp: orderly_def worker_count_number)
  then have "worker_count (mgr s) < worker_max_count (mgr s)" by (simp add: word_less_nat_alt)
  with worker_enter(3) have "active" "worker_max_count m' = worker_max_count (mgr s)"
    by (auto simp: Worker_enter_def Let_def)
  moreover have "phase ((ws s)[w := ?p]) (worker_max_count (mgr s)) (pc_of c (cs s))"
    using worker_enter calculation by (intro phase_enter) (auto simp: orderly_def)
  ultimately show ?case using worker_enter by (auto intro!: orderly_worker_move)
next
  case (worker_notify w s cs')
  have st: "map stage_of ((ws s)[w := W_Loop]) = map stage_of (ws s)"
    using worker_notify(1,2) by (simp add: stage_update_same)
  show ?case
    using orderly_stages [OF orderly_signal_mgr [OF worker_notify(6,3)] st] by simp
next
  case (worker_sleep w s cur m')
  then have st: "map stage_of ((ws s)[w := W_Wait]) = map stage_of (ws s)"
    using worker_turn_SleepD [OF worker_sleep(2)] by (auto intro: stage_update_same)
  show ?case
    using orderly_stages [OF worker_sleep(5) st] worker_turn_SleepD [OF worker_sleep(2)] by auto
next
  case (worker_proceed w s cur t' nm calls m' cs')
  have st: "map stage_of ((ws s)[w := W_Run t']) = map stage_of (ws s)"
    using worker_proceed(1) worker_turn_ProceedD [OF worker_proceed(2)] by (auto intro: stage_update_same)
  have "orderly c ((ws s)[w := W_Run t']) (worker_max_count (mgr s)) cs'"
    using worker_proceed(3,6) orderly_stages [OF _ st] orderly_signal_add by (auto split: if_splits)
  then show ?case using worker_turn_ProceedD [OF worker_proceed(2)] by auto
next
  case (worker_leave w s cur m')
  from worker_turn_LeaveD [OF worker_leave(2)]
  have *: "stage_of (ws s ! w) = Inside" "\<not> worker_count (mgr s) \<le> worker_max_count (mgr s)"
    "worker_max_count m' = worker_max_count (mgr s)" by (auto simp: IsActive_def)
  then have "unat (worker_max_count (mgr s)) < number Inside (ws s) + number Leaving (ws s)"
    using worker_leave by (auto simp: orderly_def worker_count_number word_le_nat_alt)
  with worker_leave * show ?case
    by (auto intro!: orderly_worker_move phase_leave) (auto simp: orderly_def)
next
  case (worker_run w s t)
  then show ?case by (simp add: orderly_stages [OF _ stage_update_same])
next
  case (worker_exit w s entered nm m' cs')
  from worker_exit(7) orderly_not_stray [OF worker_exit(7,1)] worker_exit(2) have e: "entered" by (cases entered) auto
  have "orderly c ((ws s)[w := W_Done entered]) (worker_max_count (mgr s)) (cs s)"
    using worker_exit e by (auto intro!: orderly_worker_move phase_exit) (auto simp: orderly_def)
  then show ?case
    using worker_exit(4) Worker_exitD [OF worker_exit(3)] orderly_signal_mgr by (auto split: if_splits)
next
  case (worker_spurious w s)
  then show ?case by (simp add: orderly_stages [OF _ stage_update_same])
qed

lemma same_max [simp]:
  "worker_max_count (SetExpireCallback cb m) = worker_max_count m"
  "worker_max_count (SetThreadFactory f m) = worker_max_count m"
  "worker_max_count (SetPendingTaskCountMax v m) = worker_max_count m"
  "worker_max_count (id_map_insert k th m) = worker_max_count m"
  "worker_max_count (RemoveWorker_clean g m) = worker_max_count m"
  "worker_max_count (StopImpl_finish m) = worker_max_count m"
  "worker_max_count (AddWorker_publish v T m) = worker_max_count m + v"
  by (simp_all add: SetExpireCallback_def SetThreadFactory_def SetPendingTaskCountMax_def
      AddWorker_publish_def id_map_insert_def RemoveWorker_clean_def StopImpl_finish_def)

definition client_move :: "cpc list \<Rightarrow> cpc list \<Rightarrow> bool" where
  "client_move qs qs' \<longleftrightarrow> (\<exists>i p. i < length qs \<and> client (qs ! i) \<and> client p \<and> qs' = qs[i := p])"

lemma client_moveI: "i < length qs \<Longrightarrow> client (qs ! i) \<Longrightarrow> client p \<Longrightarrow> client_move qs (qs[i := p])"
  by (auto simp: client_move_def)

lemma task_step_clients:
  "task_step cfg s t \<Longrightarrow> worker_max_count (mgr t) = worker_max_count (mgr s) \<and>
     map stage_of (ws t) = map stage_of (ws s) \<and> client_move (cs s) (cs t)"
proof (induction rule: task_step.induct)
  case (add_spurious i s)
  then show ?case using client_wake(2) [of "cs s ! i"] by (auto intro: client_moveI)
next
  case (add_queued i s e locked timeout cur cur2 v expiration notify calls m' ws')
  then have "map stage_of ws' = map stage_of (ws s)" using stage_notified by (auto split: if_splits)
  with add_queued show ?case using Add_enter_queuedD [OF add_queued(4)] by (auto intro!: client_moveI)
next
  case (add_waits i s e locked timeout cur cur2 v expiration calls m')
  then show ?case using Add_enter_waitsD [OF add_waits(4)] by (auto intro!: client_moveI)
next
  case (add_throws i s e locked timeout cur cur2 v expiration x calls m')
  then show ?case using Add_enter_throwsD [OF add_throws(4)] by (auto intro!: client_moveI)
next
  case (add_resume_queued i s v timeout expiration cur notify calls m' ws')
  then have "map stage_of ws' = map stage_of (ws s)" using stage_notified by (auto split: if_splits)
  with add_resume_queued show ?case
    using Add_resume_queuedD [OF add_resume_queued(3)] by (auto intro!: client_moveI)
next
  case (add_resume_waits i s v timeout expiration cur calls m')
  then show ?case using Add_resume_waitsD [OF add_resume_waits(3)] by (auto intro!: client_moveI)
next
  case (remove_next_pending i s e r m')
  then show ?case by (auto intro!: client_moveI dest!: RemoveNextPendingD)
next
  case (remove_expired_tasks i s e cur calls m')
  then show ?case by (auto simp: RemoveExpiredTasks_split intro!: client_moveI)
next
  case (expired_task_count i s e n m')
  then show ?case by (auto simp: ExpiredTaskCount_def intro!: client_moveI)
qed (auto intro!: client_moveI)

lemma orderly_task:
  assumes "task_step cfg s t" "orderly c (ws s) (worker_max_count (mgr s)) (cs s)"
  shows "orderly c (ws t) (worker_max_count (mgr t)) (cs t)"
proof -
  from task_step_clients [OF assms(1)] obtain i p where
    "worker_max_count (mgr t) = worker_max_count (mgr s)" and st: "map stage_of (ws t) = map stage_of (ws s)"
    and "i < length (cs s)" "client (cs s ! i)" "client p" "cs t = (cs s)[i := p]"
    unfolding client_move_def by blast
  with orderly_stages [OF orderly_client_move [OF assms(2)] st] show ?thesis by simp
qed

text \<open>The phases of the controller.\<close>

lemma phase_create:
  "steady ps mx \<Longrightarrow> phase (ps @ replicate (unat v) W_Created) mx (C_AW_Publish v [length ps ..< length ps + unat v])"
  by (auto simp: steady_def fresh_def nth_append)

lemma phase_publish:
  assumes "phase ps mx (C_AW_Publish v ths)" "length ps < 2 ^ 64"
  shows "growing ths ps (mx + v)"
proof -
  have "unat mx + unat v < 2 ^ 64"
    using assms number_sum [of ps] by (auto simp: fresh_def)
  then have "unat (mx + v) = unat mx + unat v" by (simp add: unat_word_ariths)
  with assms(1) show ?thesis by (auto simp: growing_def fresh_def)
qed

lemma phase_start:
  assumes "growing (w # ths) ps mx"
  shows "growing ths (ps[w := W_Start]) mx"
proof -
  have w: "w < length ps" "stage_of (ps ! w) = New" "w \<notin> set ths"
    using assms by (auto simp: growing_def fresh_def)
  have "fresh ths (ps[w := W_Start])"
    using assms w number_move [of w ps New W_Start] by (auto simp: growing_def fresh_def nth_list_update)
  then show ?thesis
    using assms w number_move [of w ps New W_Start] number_move [of w ps Starting W_Start]
      number_move [of w ps Inside W_Start] number_move [of w ps Leaving W_Start]
    by (auto simp: growing_def)
qed

lemma phase_settled: "growing [] ps mx \<Longrightarrow> number Inside ps = unat mx \<Longrightarrow> steady ps mx"
  by (auto simp: growing_def fresh_def steady_def)

lemma control_count:
  assumes "counter_inv s" "orderly c (ws s) (worker_max_count (mgr s)) (cs s)" "length (ws s) < 2 ^ 64"
  shows "workers_settled (mgr s) \<longleftrightarrow>
    number Inside (ws s) + number Leaving (ws s) = unat (worker_max_count (mgr s))"
  using worker_count_number [OF assms(1) _ assms(3)] assms(2)
  by (auto simp: orderly_def workers_settled_def word_unat_eq_iff)

lemma stray_update: "number Stray ps = 0 \<Longrightarrow> stage_of p \<noteq> Stray \<Longrightarrow> number Stray (ps[w := p]) = 0"
  using number_move [of w ps Stray p] by (cases "w < length ps") (auto simp: list_update_beyond)

lemma orderly_control:
  "control_step cfg s t \<Longrightarrow> managed cfg c \<Longrightarrow> counter_inv s \<Longrightarrow> length (ws t) < 2 ^ 64 \<Longrightarrow>
   orderly c (ws s) (worker_max_count (mgr s)) (cs s) \<Longrightarrow>
   orderly c (ws t) (worker_max_count (mgr t)) (cs t)"
proof (induction rule: control_step.induct)
  case (mgr_spurious i s)
  then have "phase (ws s) (worker_max_count (mgr s)) (cs s ! i) \<Longrightarrow>
      phase (ws s) (worker_max_count (mgr s)) (wake_mgr (cs s ! i))" "\<not> client (cs s ! i)"
    by (cases "cs s ! i"; simp)+
  with mgr_spurious show ?case by (auto elim!: orderly_control_move)
next
  case (start_ok i s e notify m' ws')
  have max: "worker_max_count m' = worker_max_count (mgr s)" using StartD [OF start_ok(5)] by auto
  have st: "map stage_of ws' = map stage_of (ws s)" using start_ok(6) stage_wake_all by auto
  have "orderly c (ws s) (worker_max_count (mgr s)) ((cs s)[i := C_Ret None])"
    using start_ok by (auto elim!: orderly_client_move)
  with max orderly_stages [OF _ st] show ?case by simp
next
  case (simple_start_ok i s sm notify m' ws')
  have max: "worker_max_count m' = worker_max_count (mgr s)" using StartD [OF simple_start_ok(4)] by auto
  have st: "map stage_of ws' = map stage_of (ws s)" using simple_start_ok(5) stage_wake_all by auto
  have "orderly c (ws s) (worker_max_count (mgr s)) ((cs s)[i := C_AW_Begin (s_worker_count sm)])"
    using simple_start_ok by (auto elim!: orderly_control_move)
  with max orderly_stages [OF _ st] show ?case by simp
next
  case (add_worker_create i s v ths)
  then show ?case using phase_create [of "ws s" "worker_max_count (mgr s)" v]
    by (auto elim!: orderly_control_move simp del: phase.simps(1))
next
  case (add_worker_publish i s v ths)
  then show ?case using phase_publish [of "ws s" "worker_max_count (mgr s)" v ths]
    by (auto elim!: orderly_control_move simp del: phase.simps(1))
next
  case (add_worker_start i s w ths)
  then have c: "i = c" and g: "growing (w # ths) (ws s) (worker_max_count (mgr s))"
    by (auto simp: orderly_def pc_of_def)
  from g have "ws s ! w = W_Created" by (auto simp: growing_def fresh_def)
  then have "start_thread (creates cfg w) (ws s ! w) = W_Start"
    using add_worker_start(3) by (simp add: start_thread_def managed_def)
  with add_worker_start c phase_start [OF g] show ?case
    by (auto elim!: orderly_control_move intro!: stray_update)
next
  case (add_worker_return i s)
  have "workers_settled (mgr s) \<Longrightarrow> growing [] (ws s) (worker_max_count (mgr s)) \<Longrightarrow>
     steady (ws s) (worker_max_count (mgr s))"
    using control_count add_worker_return phase_settled by (auto simp: growing_def)
  with add_worker_return show ?case by (auto elim!: orderly_control_move)
next
  case (remove_worker_request i s k v n m' ws')
  from RemoveWorker_requestD [OF remove_worker_request(3)]
  have max: "worker_max_count m' = worker_max_count (mgr s) - v" by simp
  have "orderly c (ws s) (worker_max_count (mgr s) - v) ((cs s)[i := C_RW_Check k])"
    using remove_worker_request by (auto elim!: orderly_control_move simp: steady_def)
  with max orderly_stages [OF _ stage_notify_workers [OF remove_worker_request(4)]] show ?case by simp
next
  case (remove_worker_clean i s k)
  have "workers_settled (mgr s) \<Longrightarrow> phase (ws s) (worker_max_count (mgr s)) (C_RW_Check k) \<Longrightarrow>
     steady (ws s) (worker_max_count (mgr s))"
    using control_count remove_worker_clean by (auto simp: steady_def)
  with remove_worker_clean show ?case
    by (auto elim!: orderly_control_move split: caller.split)
next
  case (stop_claim i s join do_stop m')
  then show ?case using StopImpl_claimD [OF stop_claim(3)]
    by (auto elim!: orderly_control_move)
next
  case (stop_remove i s join)
  have "steady (ws s) (worker_max_count (mgr s)) \<Longrightarrow> worker_count (mgr s) = worker_max_count (mgr s)"
    using stop_remove worker_count_number [of s]
    by (auto simp: orderly_def steady_def word_unat_eq_iff)
  with stop_remove show ?case by (auto elim!: orderly_control_move)
next
  case (set_thread_factory i s e f)
  then show ?case by (auto elim!: orderly_client_move)
qed (auto elim!: orderly_control_move simp: managed_def)

lemma ws_grow_worker: "worker_step s t \<Longrightarrow> length (ws t) = length (ws s)"
  by (induction rule: worker_step.induct) auto

lemma ws_grow_task: "task_step cfg s t \<Longrightarrow> length (ws t) = length (ws s)"
  using task_step_clients [of cfg s t] by (auto dest: map_eq_imp_length_eq)

lemma ws_grow_control: "control_step cfg s t \<Longrightarrow> length (ws s) \<le> length (ws t)"
  by (induction rule: control_step.induct) (auto dest: notify_workers_length)

lemma managed_inv_init: "pool_start s \<Longrightarrow> managed_inv cfg c s"
  by (auto simp: pool_start_def pool_init_def managed_inv_def orderly_def pc_of_def steady_def
      NewThreadManager_def Impl_new_def)

lemma managed_inv_step:
  "counter_inv s \<Longrightarrow> managed_inv cfg c s \<Longrightarrow> pool_step cfg s t \<Longrightarrow> managed_inv cfg c t"
proof (elim pool_step.cases)
  fix s' t' assume "counter_inv s" "managed_inv cfg c s" "s = s'" "t = t'" "worker_step s' t'"
  then show ?thesis using ws_grow_worker orderly_worker by (auto simp: managed_inv_def)
next
  fix s' t' assume "counter_inv s" "managed_inv cfg c s" "s = s'" "t = t'" "task_step cfg s' t'"
  then show ?thesis using ws_grow_task orderly_task by (auto simp: managed_inv_def)
next
  fix s' t' assume *: "counter_inv s" "managed_inv cfg c s" "s = s'" "t = t'" "control_step cfg s' t'"
  then have "length (ws s) \<le> length (ws t)" using ws_grow_control by blast
  with * show ?thesis using orderly_control by (auto simp: managed_inv_def)
qed

interpretation mgd: relative_invariant pool_start "pool_step cfg" counter_inv "managed_inv cfg c"
  by unfold_locales (auto intro: managed_inv_init managed_inv_step)

end
