(* ===== verification/Pool_Wake.thy ===== *)
theory Pool_Wake
  imports Pool_Managed
begin

text \<open>
  Condition variables in the managed thread pool: no wake-up of a worker or of the controller
  is lost.
\<close>

subsection \<open>No lost wake-up\<close>

text \<open>While tasks are pending and a worker sleeps, another one is awake and will look at the
  queue. A worker that is to leave is not asleep. A thread waiting on \<^verbatim>\<open>worker_monitor_\<close> for a
  condition that already holds is about to be notified.\<close>

definition awake :: "wpc \<Rightarrow> bool" where
  "awake p \<longleftrightarrow> stage_of p = Inside \<and> p \<noteq> W_Wait"

fun removing :: "cpc \<Rightarrow> bool" where
  "removing (C_RW_Check k) = True"
| "removing (C_RW_Wait k) = True"
| "removing p = False"

definition wake_ok :: "nat \<Rightarrow> wpc list \<Rightarrow> Impl \<Rightarrow> cpc list \<Rightarrow> bool" where
  "wake_ok c ps m qs \<longleftrightarrow>
     (tasks m \<noteq> [] \<longrightarrow> W_Wait \<in> set ps \<longrightarrow> (\<exists>p \<in> set ps. awake p)) \<and>
     (removing (pc_of c qs) \<longrightarrow> W_Wait \<notin> set ps) \<and>
     (pc_of c qs = C_AW_Wait \<longrightarrow> workers_settled m \<longrightarrow> W_NotifyMgr \<in> set ps) \<and>
     (removing (pc_of c qs) \<longrightarrow> mgr_waiting (pc_of c qs) \<longrightarrow> \<not> workers_settled m)"

definition wake_inv :: "pool_cfg \<Rightarrow> nat \<Rightarrow> pool \<Rightarrow> bool" where
  "wake_inv cfg c s \<longleftrightarrow> managed cfg c \<longrightarrow> length (ws s) < 2 ^ 64 \<longrightarrow> wake_ok c (ws s) (mgr s) (cs s)"

lemma awake_simps [simp]:
  "awake W_NotifyMgr" "awake W_Loop" "awake W_Woken" "awake (W_Run t)" "\<not> awake W_Wait"
  "\<not> awake W_Created" "\<not> awake W_Start" "\<not> awake (W_Exit b)" "\<not> awake (W_Done b)" "\<not> awake W_NoThread"
  by (auto simp: awake_def)

lemma phase_leaving: "phase ps mx pc \<Longrightarrow> 0 < number Leaving ps \<Longrightarrow> removing pc"
  by (cases pc) (auto simp: steady_def growing_def)

lemma phase_excess: "phase ps mx pc \<Longrightarrow> unat mx < number Inside ps + number Leaving ps \<Longrightarrow> removing pc"
  by (cases pc) (auto simp: steady_def growing_def)

lemma phase_removing_max: "phase ps mx pc \<Longrightarrow> removing pc \<Longrightarrow> mx = 0 \<and> number Starting ps = 0"
  by (cases pc) auto

lemma client_not_waiting: "client p \<Longrightarrow> \<not> mgr_waiting p \<and> \<not> removing p"
  by (cases p) auto

lemma signal_mgr_wakes_controller:
  assumes "orderly c ps mx qs" "signal_mgr 1 qs qs'"
  shows "\<not> mgr_waiting (pc_of c qs')"
proof
  assume w: "mgr_waiting (pc_of c qs')"
  have len: "length qs' = length qs" using assms(2) by (rule notified_length)
  have c: "c < length qs" "qs' ! c = qs ! c" "mgr_waiting (qs' ! c)"
    using w len notified_nth [OF assms(2), of c] wake_mgr_not_waiting by (auto simp: pc_of_def split: if_splits)
  have "mgr_waiting (qs ! i) = mgr_waiting (qs' ! i)" if "i < length qs" for i
    using c notified_nth [OF assms(2) that] assms(1) that client_not_waiting
    by (cases "i = c") (auto simp: orderly_def)
  then have "list_all2 (\<lambda>a b. mgr_waiting a = mgr_waiting b) qs qs'"
    using len by (simp add: list_all2_conv_all_nth)
  then have "cnt mgr_waiting qs = cnt mgr_waiting qs'" by (rule cnt_list_all2)
  moreover have "0 < cnt mgr_waiting qs'" using c len by (auto simp: cnt_pos_nth)
  ultimately show False using assms(2) by (simp add: notified_def)
qed

lemma pc_of_signal_mgr:
  assumes "signal_mgr n qs qs'"
  shows "pc_of c qs' = pc_of c qs \<or> pc_of c qs' = wake_mgr (pc_of c qs)"
  using notified_nth [OF assms, of c] notified_length [OF assms] by (auto simp: pc_of_def)

lemma pc_of_signal_add:
  assumes "signal_add n qs qs'" "\<not> client (pc_of c qs')"
  shows "pc_of c qs' = pc_of c qs"
  using notified_nth [OF assms(1), of c] notified_length [OF assms(1)] assms(2) client_wake(2)
  by (auto simp: pc_of_def split: if_splits)

lemma removing_wake_mgr: "removing (wake_mgr p) = removing p" "wake_mgr p \<noteq> C_AW_Wait"
  "\<not> mgr_waiting (wake_mgr p)"
  by (cases p; simp)+

lemma wake_ok_worker_awake:
  assumes "wake_ok c ps m qs" "w < length ps" "awake p" "ps ! w \<noteq> W_NotifyMgr"
    and "worker_count m' = worker_count m" "worker_max_count m' = worker_max_count m"
  shows "wake_ok c (ps[w := p]) m' qs"
proof -
  have "\<exists>x \<in> set (ps[w := p]). awake x" using assms(2,3) by (auto intro: set_update_memI)
  moreover have "W_Wait \<in> set (ps[w := p]) \<Longrightarrow> W_Wait \<in> set ps"
    using assms(3) by (auto dest!: set_update_subset_insert [THEN subsetD])
  moreover have "W_NotifyMgr \<in> set ps \<Longrightarrow> W_NotifyMgr \<in> set (ps[w := p])"
    using assms(2,4) by (metis in_set_conv_nth length_list_update nth_list_update_neq)
  ultimately show ?thesis using assms(1,5,6) by (auto simp: wake_ok_def workers_settled_def)
qed

lemma wake_ok_signal_add:
  assumes "wake_ok c ps m qs" "signal_add n qs qs'"
  shows "wake_ok c ps m qs'"
proof (cases "client (pc_of c qs')")
  case True
  then show ?thesis using assms(1) client_not_waiting by (auto simp: wake_ok_def)
next
  case False
  then show ?thesis using assms pc_of_signal_add by (auto simp: wake_ok_def)
qed

lemma not_in_update: "x \<notin> set ps \<Longrightarrow> p \<noteq> x \<Longrightarrow> x \<notin> set (ps[w := p])"
  by (auto dest!: set_update_subset_insert [THEN subsetD])

lemma in_update_other: "x \<in> set ps \<Longrightarrow> w < length ps \<Longrightarrow> ps ! w \<noteq> x \<Longrightarrow> x \<in> set (ps[w := p])"
  by (metis in_set_conv_nth length_list_update nth_list_update_neq)

text \<open>A worker enters, and a worker is gone.\<close>

lemma wake_worker_enter:
  assumes "w < length (ws s)" "ws s ! w = W_Start" "Worker_enter (mgr s) = (active, notify_manager, m')"
    and "counter_inv s" "length (ws s) < 2 ^ 64" "orderly c (ws s) (worker_max_count (mgr s)) (cs s)" "wake_ok c (ws s) (mgr s) (cs s)"
  shows "wake_ok c ((ws s)[w := if active then if notify_manager then W_NotifyMgr else W_Loop else W_Exit False]) m' (cs s)"
proof -
  note worker_enter = assms
  have "number Inside (ws s) + number Leaving (ws s) < unat (worker_max_count (mgr s))"
    using worker_enter phase_starting_room [of "ws s" _ _ w] by (auto simp: orderly_def)
  then have lt: "worker_count (mgr s) < worker_max_count (mgr s)"
    using worker_enter by (simp add: orderly_def worker_count_number word_less_nat_alt)
  have start: "0 < number Starting (ws s)" using worker_enter by (auto intro: number_pos)
  then have nr: "\<not> removing (pc_of c (cs s))"
    using phase_removing_max worker_enter(6) by (auto simp: orderly_def)
  from worker_enter(3) show ?thesis
  proof (cases rule: Worker_enter_cases)
    case enters
    let ?p = "if notify_manager then W_NotifyMgr else W_Loop"
    have "\<exists>p \<in> set ((ws s)[w := ?p]). awake p"
      using worker_enter(1) by (auto intro!: bexI [OF _ set_update_memI])
    moreover have "notify_manager \<Longrightarrow> W_NotifyMgr \<in> set ((ws s)[w := ?p])"
      using worker_enter(1) by (simp add: set_update_memI)
    ultimately show ?thesis using nr enters
      by (auto simp: wake_ok_def workers_settled_def)
  next
    case full
    with lt show ?thesis by simp
  qed
qed

lemma wake_worker_exit:
  assumes "w < length (ws s)" "ws s ! w = W_Exit entered" "Worker_exit w (mgr s) = (nm, m')"
    and "if nm then signal_mgr 1 (cs s) cs' else cs' = cs s"
    and "counter_inv s" "length (ws s) < 2 ^ 64" "orderly c (ws s) (worker_max_count (mgr s)) (cs s)" "wake_ok c (ws s) (mgr s) (cs s)"
  shows "wake_ok c ((ws s)[w := W_Done entered]) m' cs'"
proof -
  note worker_exit = assms
  from orderly_not_stray [OF worker_exit(7,1)] worker_exit(2) have "entered" by (cases entered) auto
  then have "0 < number Leaving (ws s)" using worker_exit by (auto intro: number_pos)
  then have rm: "removing (pc_of c (cs s))" using phase_leaving worker_exit(7) by (auto simp: orderly_def)
  then have nw: "W_Wait \<notin> set ((ws s)[w := W_Done entered])"
    using worker_exit(8) by (auto simp: wake_ok_def not_in_update)
  have naw: "pc_of c cs' \<noteq> C_AW_Wait"
    using worker_exit(4) rm pc_of_signal_mgr [of 1 "cs s" cs' c] removing_wake_mgr(2) by (auto split: if_splits)
  have "workers_settled m' \<Longrightarrow> nm"
    using Worker_exitD [OF worker_exit(3)] by (auto simp: workers_settled_def)
  with nw naw show ?thesis
    using worker_exit(4) signal_mgr_wakes_controller [OF worker_exit(7), of cs'] by (auto simp: wake_ok_def)
qed

lemma wake_worker_inv:
  "worker_step s t \<Longrightarrow> counter_inv s \<Longrightarrow> length (ws s) < 2 ^ 64 \<Longrightarrow>
   orderly c (ws s) (worker_max_count (mgr s)) (cs s) \<Longrightarrow> wake_ok c (ws s) (mgr s) (cs s) \<Longrightarrow>
   wake_ok c (ws t) (mgr t) (cs t)"
proof (induction rule: worker_step.induct)
  case (worker_enter w s active notify_manager m')
  from wake_worker_enter [OF worker_enter] show ?case by simp
next
  case (worker_notify w s cs')
  have "\<exists>p \<in> set ((ws s)[w := W_Loop]). awake p"
    using worker_notify(1) by (auto intro!: bexI [OF _ set_update_memI])
  moreover have "removing (pc_of c cs') \<Longrightarrow> removing (pc_of c (cs s))"
    using pc_of_signal_mgr [OF worker_notify(3), of c] removing_wake_mgr(1) by metis
  ultimately show ?case
    using signal_mgr_wakes_controller [OF worker_notify(6,3)] worker_notify(7)
    unfolding wake_ok_def by (simp add: not_in_update) (metis mgr_waiting.simps(1))
next
  case (worker_sleep w s cur m')
  note turn = worker_turn_SleepD [OF worker_sleep(2)]
  have inside: "0 < number Inside (ws s)" using turn worker_sleep(1) by (auto intro: number_pos)
  have "\<not> removing (pc_of c (cs s))"
  proof
    assume "removing (pc_of c (cs s))"
    then have "worker_max_count (mgr s) = 0"
      using phase_removing_max worker_sleep(5) by (auto simp: orderly_def)
    moreover have "worker_count (mgr s) \<noteq> 0"
      using worker_count_number [OF worker_sleep(3) _ worker_sleep(4)] inside worker_sleep(5)
      by (auto simp: orderly_def)
    ultimately show False using turn by (auto simp: IsActive_def)
  qed
  with turn worker_sleep show ?case
    by (auto simp: wake_ok_def workers_settled_def intro: in_update_other)
next
  case (worker_proceed w s cur t' nm calls m' cs')
  have "wake_ok c ((ws s)[w := W_Run t']) m' (cs s)"
    using worker_proceed(1,7) worker_turn_ProceedD [OF worker_proceed(2)]
    by (intro wake_ok_worker_awake [of c "ws s" "mgr s"]) auto
  then show ?case using worker_proceed(3) wake_ok_signal_add by (auto split: if_splits)
next
  case (worker_leave w s cur m')
  note turn = worker_turn_LeaveD [OF worker_leave(2)]
  then have "unat (worker_max_count (mgr s)) < number Inside (ws s) + number Leaving (ws s)"
    using worker_leave worker_count_number [of s] by (auto simp: orderly_def IsActive_def word_le_nat_alt)
  then have "removing (pc_of c (cs s))" using phase_excess worker_leave(5) by (auto simp: orderly_def)
  moreover have "p \<noteq> C_AW_Wait" if "removing p" for p using that by auto
  ultimately show ?case using turn worker_leave(6)
    by (auto simp: wake_ok_def workers_settled_def not_in_update)
next
  case (worker_run w s t)
  then show ?case using wake_ok_worker_awake [of c "ws s" "mgr s" "cs s" w W_Loop "mgr s"] by auto
next
  case (worker_exit w s entered nm m' cs')
  from wake_worker_exit [OF worker_exit] show ?case by simp
next
  case (worker_spurious w s)
  then show ?case using wake_ok_worker_awake [of c "ws s" "mgr s" "cs s" w W_Woken "mgr s"] by auto
qed

text \<open>The methods on tasks: either the queue only shrinks, or a task is pushed and a sleeping
  worker, if there is one, is signalled.\<close>

definition task_effect :: "Impl \<Rightarrow> wpc list \<Rightarrow> Impl \<Rightarrow> wpc list \<Rightarrow> bool" where
  "task_effect m ps m' ps' \<longleftrightarrow>
     worker_count m' = worker_count m \<and> worker_max_count m' = worker_max_count m \<and>
     (ps' = ps \<and> suffix (tasks m') (tasks m) \<or>
      (if idle_count m > 0 then signal_workers 1 ps ps' else ps' = ps))"

lemma task_step_effect: "task_step cfg s t \<Longrightarrow> task_effect (mgr s) (ws s) (mgr t) (ws t)"
proof (induction rule: task_step.induct)
  case (add_queued i s e locked timeout cur cur2 v expiration notify calls m' ws')
  then show ?case using Add_enter_queuedD [OF add_queued(4)] by (auto simp: task_effect_def)
next
  case (add_waits i s e locked timeout cur cur2 v expiration calls m')
  then show ?case using Add_enter_waitsD [OF add_waits(4)] by (auto simp: task_effect_def suffix_dropWhile)
next
  case (add_throws i s e locked timeout cur cur2 v expiration x calls m')
  then show ?case using Add_enter_throwsD [OF add_throws(4)] by (auto simp: task_effect_def suffix_dropWhile)
next
  case (add_resume_queued i s v timeout expiration cur notify calls m' ws')
  then show ?case using Add_resume_queuedD [OF add_resume_queued(3)] by (auto simp: task_effect_def)
next
  case (add_resume_waits i s v timeout expiration cur calls m')
  then show ?case using Add_resume_waitsD [OF add_resume_waits(3)] by (auto simp: task_effect_def)
next
  case (remove_next_pending i s e r m')
  then show ?case by (auto simp: task_effect_def suffix_tl dest!: RemoveNextPendingD)
next
  case (remove_expired_tasks i s e cur calls m')
  then show ?case by (auto simp: task_effect_def RemoveExpiredTasks_split suffix_dropWhile)
next
  case (expired_task_count i s e n m')
  then show ?case by (auto simp: task_effect_def ExpiredTaskCount_def)
qed (auto simp: task_effect_def)

lemma signal_workers_result:
  assumes "signal_workers n ps ps'"
  shows "W_NotifyMgr \<in> set ps \<Longrightarrow> W_NotifyMgr \<in> set ps'" and "W_Wait \<notin> set ps \<Longrightarrow> W_Wait \<notin> set ps'"
    and "W_Woken \<in> set ps \<Longrightarrow> W_Woken \<in> set ps'"
    and "0 < n \<Longrightarrow> W_Wait \<in> set ps' \<Longrightarrow> W_Woken \<in> set ps'"
proof -
  have all: "list_all2 (\<lambda>p p'. p' = p \<or> p = W_Wait \<and> p' = wake_worker p) ps ps'"
    using assms by (simp add: notified_def)
  then show "W_NotifyMgr \<in> set ps \<Longrightarrow> W_NotifyMgr \<in> set ps'" and "W_Wait \<notin> set ps \<Longrightarrow> W_Wait \<notin> set ps'"
    and "W_Woken \<in> set ps \<Longrightarrow> W_Woken \<in> set ps'"
    by (induction rule: list_all2_induct) auto
  have "cnt (\<lambda>p. p = W_Wait) ps = cnt (\<lambda>p. p = W_Wait) ps' \<or> W_Woken \<in> set ps'"
    using all by (induction rule: list_all2_induct) auto
  moreover assume "0 < n" "W_Wait \<in> set ps'"
  then have "0 < cnt (\<lambda>p. p = W_Wait) ps'" by (auto simp: cnt_pos_iff)
  ultimately show "W_Woken \<in> set ps'" using assms \<open>0 < n\<close> by (auto simp: notified_def)
qed

lemma idle_positive:
  assumes "counter_inv s" "length (ws s) < 2 ^ 64" "W_Wait \<in> set (ws s)"
  shows "0 < idle_count (mgr s)"
proof -
  have "0 < cnt idle_pc (ws s)" using assms(3) by (auto simp: cnt_pos_iff intro: bexI [of _ W_Wait])
  moreover have "cnt idle_pc (ws s) < 2 ^ 64" using cnt_le_length [of idle_pc "ws s"] assms(2) by linarith
  ultimately have "unat (idle_count (mgr s)) > 0"
    using assms(1) by (simp add: counter_inv_def unat_of_nat)
  then show ?thesis by (simp add: word_less_nat_alt)
qed

lemma pc_of_client_move:
  "client_move qs qs' \<Longrightarrow> pc_of c qs' = pc_of c qs \<or> client (pc_of c qs')"
  by (auto simp: client_move_def pc_of_def nth_list_update)

lemma wake_ok_client:
  assumes "wake_ok c ps m qs" "pc_of c qs' = pc_of c qs \<or> client (pc_of c qs')"
  shows "wake_ok c ps m qs'"
  using assms client_not_waiting by (auto simp: wake_ok_def)

lemma wake_task_inv:
  assumes "task_step cfg s t" "counter_inv s" "length (ws s) < 2 ^ 64" "wake_ok c (ws s) (mgr s) (cs s)"
  shows "wake_ok c (ws t) (mgr t) (cs t)"
proof -
  note eff = task_step_effect [OF assms(1), unfolded task_effect_def]
  have cp: "pc_of c (cs t) = pc_of c (cs s) \<or> client (pc_of c (cs t))"
    using task_step_clients [OF assms(1)] pc_of_client_move by blast
  have same: "workers_settled (mgr t) = workers_settled (mgr s)" using eff by (simp add: workers_settled_def)
  have "wake_ok c (ws t) (mgr t) (cs s)"
  proof (cases "ws t = ws s")
    case True
    have "tasks (mgr t) \<noteq> [] \<Longrightarrow> W_Wait \<in> set (ws s) \<Longrightarrow> \<exists>p \<in> set (ws s). awake p"
    proof (cases "suffix (tasks (mgr t)) (tasks (mgr s))")
      case False
      assume "W_Wait \<in> set (ws s)"
      with eff False idle_positive [OF assms(2,3)] have "signal_workers 1 (ws s) (ws t)" by auto
      with \<open>W_Wait \<in> set (ws s)\<close> True have "W_Woken \<in> set (ws s)" using signal_workers_result(4) by fastforce
      then show ?thesis by force
    next
      case True
      assume "tasks (mgr t) \<noteq> []" "W_Wait \<in> set (ws s)"
      with True assms(4) show ?thesis by (auto simp: wake_ok_def)
    qed
    with assms(4) True same show ?thesis by (auto simp: wake_ok_def)
  next
    case False
    with eff have sig: "signal_workers 1 (ws s) (ws t)" by (auto split: if_splits)
    have "W_Wait \<in> set (ws t) \<Longrightarrow> \<exists>p \<in> set (ws t). awake p"
      using signal_workers_result(4) [OF sig] by force
    with assms(4) same signal_workers_result(1,2) [OF sig] show ?thesis by (auto simp: wake_ok_def)
  qed
  then show ?thesis using cp by (rule wake_ok_client)
qed

text \<open>The control methods.\<close>

lemma request_wakes_all:
  assumes "counter_inv s" "length (ws s) < 2 ^ 64" "RemoveWorker_request v (mgr s) = Inr (n, m')"
    and "notify_workers n (ws s) ws'"
  shows "W_Wait \<notin> set ws'"
proof (cases n)
  case NotifyAll
  have "wake_worker p \<noteq> W_Wait" for p by (cases p) auto
  with NotifyAll assms(4) show ?thesis by (auto simp: image_iff) metis
next
  case (Notify_times k)
  have k: "k = unat (idle_count (mgr s))"
    using RemoveWorker_requestD [OF assms(3)] Notify_times by (auto split: if_splits)
  have sig: "signal_workers k (ws s) ws'" using assms(4) Notify_times by simp
  have "cnt (\<lambda>p. p = W_Wait) (ws s) \<le> cnt idle_pc (ws s)" by (rule cnt_mono) simp
  also have "cnt idle_pc (ws s) = k"
    using assms(1,2) cnt_le_length [of idle_pc "ws s"] k by (simp add: counter_inv_def unat_of_nat)
  finally have "cnt (\<lambda>p. p = W_Wait) ws' = 0"
    using sig notified_fewer [OF sig] unfolding notified_def by linarith
  then show ?thesis by (auto simp: cnt_zero_iff)
qed

lemma wake_all_set: "W_Wait \<notin> set (map wake_worker ps)"
proof
  assume "W_Wait \<in> set (map wake_worker ps)"
  then obtain p where "W_Wait = wake_worker p" by auto
  then show False by (cases p) auto
qed

lemma awake_wake_all: "awake x \<Longrightarrow> wake_worker x = x"
  by (cases x) auto

lemma pc_of_update: "c < length qs \<Longrightarrow> pc_of c (qs[c := p]) = p" "i \<noteq> c \<Longrightarrow> pc_of c (qs[i := p]) = pc_of c qs"
  by (auto simp: pc_of_def)

lemma wake_ok_move:
  assumes "wake_ok c ps m qs" "orderly c ps mx qs" "i < length qs" "\<not> client (qs ! i) \<or> i = c"
    and "\<not> removing p" "p = C_AW_Wait \<Longrightarrow> \<not> workers_settled m'" "tasks m' = tasks m"
    and "W_Wait \<in> set ps' \<Longrightarrow> W_Wait \<in> set ps" "\<And>x. x \<in> set ps \<Longrightarrow> awake x \<Longrightarrow> x \<in> set ps'"
  shows "wake_ok c ps' m' (qs[i := p])"
proof -
  have "i = c" using assms(2-4) by (auto simp: orderly_def)
  with assms(3) have "pc_of c (qs[i := p]) = p" by (simp add: pc_of_update)
  with assms show ?thesis unfolding wake_ok_def by auto
qed

lemma wake_control_inv:
  "control_step cfg s t \<Longrightarrow> managed cfg c \<Longrightarrow> counter_inv s \<Longrightarrow> length (ws s) < 2 ^ 64 \<Longrightarrow>
   orderly c (ws s) (worker_max_count (mgr s)) (cs s) \<Longrightarrow> wake_ok c (ws s) (mgr s) (cs s) \<Longrightarrow>
   wake_ok c (ws t) (mgr t) (cs t)"
proof (induction rule: control_step.induct)
  case (mgr_spurious i s)
  then have "i = c" using client_not_waiting by (auto simp: orderly_def)
  with mgr_spurious have "pc_of c ((cs s)[i := wake_mgr (cs s ! i)]) = wake_mgr (pc_of c (cs s))"
    by (simp add: pc_of_def)
  with mgr_spurious(7) show ?case by (simp add: wake_ok_def removing_wake_mgr)
next
  case (set_thread_factory i s e f)
  then have "pc_of c ((cs s)[i := C_Ret None]) = pc_of c (cs s) \<or> client (pc_of c ((cs s)[i := C_Ret None]))"
    by (cases "i = c") (auto simp: pc_of_update)
  moreover have "wake_ok c (ws s) (SetThreadFactory f (mgr s)) (cs s)"
    using set_thread_factory by (simp add: wake_ok_def workers_settled_def)
  ultimately show ?case by (auto intro: wake_ok_client)
next
  case (start_ok i s e notify m' ws')
  then have "i = c" by (auto simp: managed_def)
  have "awake x \<Longrightarrow> x \<in> set (ws s) \<Longrightarrow> x \<in> set ws'" for x
    using start_ok(6) awake_wake_all by (auto simp: image_iff) metis
  moreover have "W_Wait \<in> set ws' \<Longrightarrow> W_Wait \<in> set (ws s)" using start_ok(6) wake_all_set by (auto split: if_splits)
  ultimately show ?case using start_ok \<open>i = c\<close> Start_tasks [OF start_ok(5)]
    by (auto elim!: wake_ok_move)
next
  case (simple_start_ok i s sm notify m' ws')
  then have "i = c" by (auto simp: orderly_def)
  have "awake x \<Longrightarrow> x \<in> set (ws s) \<Longrightarrow> x \<in> set ws'" for x
    using simple_start_ok(5) awake_wake_all by (auto simp: image_iff) metis
  moreover have "W_Wait \<in> set ws' \<Longrightarrow> W_Wait \<in> set (ws s)" using simple_start_ok(5) wake_all_set by (auto split: if_splits)
  ultimately show ?case using simple_start_ok \<open>i = c\<close> Start_tasks [OF simple_start_ok(4)]
    by (auto elim!: wake_ok_move)
next
  case (add_worker_start i s w ths)
  then have c: "i = c" and g: "growing (w # ths) (ws s) (worker_max_count (mgr s))"
    by (auto simp: orderly_def pc_of_def)
  from g have w: "ws s ! w = W_Created" "w < length (ws s)" by (auto simp: growing_def fresh_def)
  have st: "start_thread (creates cfg w) (ws s ! w) = W_Start"
    using add_worker_start(3) w by (simp add: start_thread_def managed_def)
  have "x \<in> set ((ws s)[w := W_Start])" if "x \<in> set (ws s)" "awake x" for x
    using that w by (intro in_update_other) auto
  moreover have "W_Wait \<in> set ((ws s)[w := W_Start]) \<Longrightarrow> W_Wait \<in> set (ws s)"
    using not_in_update [of W_Wait "ws s" W_Start w] by auto
  ultimately show ?case using add_worker_start c st by (auto elim!: wake_ok_move)
next
  case (remove_worker_request i s k v n m' ws')
  then have "i = c" by (auto simp: orderly_def)
  with request_wakes_all [OF remove_worker_request(6,7,3,4)] remove_worker_request(1)
  show ?case by (simp add: wake_ok_def pc_of_update)
next
  case (remove_worker_wait i s k)
  then have "i = c" by (auto simp: orderly_def)
  with remove_worker_wait show ?case by (auto simp: wake_ok_def pc_of_update) (auto simp: pc_of_def)
next
  case (stop_claim i s join do_stop m')
  with StopImpl_claim_tasks [OF stop_claim(3)] show ?case by (auto elim!: wake_ok_move)
next
  case (remove_worker_clean i s k)
  then show ?case by (auto elim!: wake_ok_move split: caller.split)
qed (auto elim!: wake_ok_move simp: managed_def)

lemma wake_inv_init: "pool_start s \<Longrightarrow> wake_inv cfg c s"
  by (auto simp: pool_start_def pool_init_def wake_inv_def wake_ok_def pc_of_def NewThreadManager_def Impl_new_def)

lemma wake_inv_step:
  "counter_inv s \<and> managed_inv cfg c s \<Longrightarrow> wake_inv cfg c s \<Longrightarrow> pool_step cfg s t \<Longrightarrow> wake_inv cfg c t"
proof (elim pool_step.cases)
  fix s' t' assume "counter_inv s \<and> managed_inv cfg c s" "wake_inv cfg c s" "s = s'" "t = t'" "worker_step s' t'"
  then show ?thesis using ws_grow_worker wake_worker_inv by (auto simp: managed_inv_def wake_inv_def)
next
  fix s' t' assume "counter_inv s \<and> managed_inv cfg c s" "wake_inv cfg c s" "s = s'" "t = t'" "task_step cfg s' t'"
  then show ?thesis using ws_grow_task wake_task_inv by (auto simp: managed_inv_def wake_inv_def)
next
  fix s' t' assume *: "counter_inv s \<and> managed_inv cfg c s" "wake_inv cfg c s" "s = s'" "t = t'" "control_step cfg s' t'"
  then have "length (ws s) \<le> length (ws t)" using ws_grow_control by blast
  with * show ?thesis using wake_control_inv by (auto simp: managed_inv_def wake_inv_def)
qed

interpretation wake: relative_invariant pool_start "pool_step cfg"
    "\<lambda>s. counter_inv s \<and> managed_inv cfg c s" "wake_inv cfg c"
  by unfold_locales
    (blast intro: wake_inv_init wake_inv_step managed_inv_init managed_inv_step counter_inv_init
      counters.preserved)+

end
