(* ===== verification/Pool_Liveness.thy ===== *)
theory Pool_Liveness
  imports Pool_Wake
begin

text \<open>
  Progress of the managed thread pool: the workers come to rest, and only when there
  is nothing left to do, and \<^verbatim>\<open>Stop\<close> and \<^verbatim>\<open>Join\<close> end with every worker gone and, for
  \<^verbatim>\<open>Join\<close>, with the queue drained.
\<close>

subsection \<open>When the workers stop\<close>

lemma managed_state:
  assumes "reach cfg s" "managed cfg c" "length (ws s) < 2 ^ 64"
  shows "counter_inv s" "orderly c (ws s) (worker_max_count (mgr s)) (cs s)"
    "wake_ok c (ws s) (mgr s) (cs s)"
  using wake.both.always [OF assms(1), of c] assms(2,3) by (auto simp: managed_inv_def wake_inv_def)

lemma idle_workers_stage:
  assumes "\<forall>p \<in> set ps. \<not> busy p"
  shows "number Starting ps = 0" "number Leaving ps = 0" "W_NotifyMgr \<notin> set ps" "\<forall>p \<in> set ps. \<not> awake p"
    "cnt idle_pc ps = number Inside ps" "0 < number Inside ps \<Longrightarrow> W_Wait \<in> set ps"
proof -
  have "stage_of p \<noteq> Starting \<and> (stage_of p = Leaving \<longrightarrow> p = W_Exit True) \<and> p \<noteq> W_NotifyMgr \<and> \<not> awake p \<and>
      idle_pc p = (stage_of p = Inside) \<and> (stage_of p = Inside \<longrightarrow> p = W_Wait)" if "p \<in> set ps" for p
    using assms that by (cases p) (auto split: if_splits)
  moreover have "W_Exit True \<notin> set ps" using assms by auto
  ultimately show "number Starting ps = 0" "number Leaving ps = 0" "W_NotifyMgr \<notin> set ps"
    "\<forall>p \<in> set ps. \<not> awake p" "0 < number Inside ps \<Longrightarrow> W_Wait \<in> set ps"
    by (force simp: cnt_zero_iff cnt_pos_iff)+
  show "cnt idle_pc ps = number Inside ps"
    using assms
  proof (induction ps)
    case (Cons p ps)
    then show ?case by (cases p) auto
  qed simp
qed

text \<open>What is left when no worker has anything to do: no call of \<^verbatim>\<open>AddWorker\<close>, \<^verbatim>\<open>Stop\<close> or
  \<^verbatim>\<open>Join\<close> is blocked, and if the pool has workers, the queue is empty, all of them are idle,
  and a client is blocked in \<^verbatim>\<open>Add\<close> only next to one that has been woken.\<close>

definition at_rest :: "nat \<Rightarrow> pool \<Rightarrow> bool" where
  "at_rest c s \<longleftrightarrow> \<not> mgr_waiting (pc_of c (cs s)) \<and>
     (WorkerCount (mgr s) \<noteq> 0 \<longrightarrow>
        PendingTaskCount (mgr s) = 0 \<and> tasks (mgr s) = [] \<and>
        IdleWorkerCount (mgr s) = WorkerCount (mgr s) \<and>
        (0 < cnt add_waiting (cs s) \<longrightarrow> 0 < cnt add_woken (cs s)))"

lemma quiescent_controller:
  assumes "orderly c ps (worker_max_count m) qs" "wake_ok c ps m qs" "\<forall>p \<in> set ps. \<not> busy p"
    and "workers_settled m \<longleftrightarrow> number Inside ps + number Leaving ps = unat (worker_max_count m)"
  shows "\<not> mgr_waiting (pc_of c qs)"
proof
  assume "mgr_waiting (pc_of c qs)"
  then consider "pc_of c qs = C_AW_Wait" | k where "pc_of c qs = C_RW_Wait k"
    by (cases "pc_of c qs") auto
  then show False
  proof cases
    case 1
    then have "number Inside ps = unat (worker_max_count m)"
      using assms(1) idle_workers_stage(1,2) [OF assms(3)] by (auto simp: orderly_def growing_def fresh_def)
    then have "workers_settled m" using assms(4) idle_workers_stage(2) [OF assms(3)] by simp
    with 1 assms(2) idle_workers_stage(3) [OF assms(3)] show False by (auto simp: wake_ok_def)
  next
    case 2
    then have "W_Wait \<notin> set ps" "\<not> workers_settled m" using assms(2) by (auto simp: wake_ok_def)
    moreover have "unat (worker_max_count m) = 0" using assms(1) 2 by (auto simp: orderly_def)
    ultimately show False using assms(4) idle_workers_stage(2,6) [OF assms(3)] by auto
  qed
qed

lemma quiescent:
  assumes "reach cfg s" "managed cfg c" "length (ws s) < 2 ^ 64" "\<forall>i. \<not> pops cfg i \<and> \<not> purges cfg i"
    and "\<nexists>t. work s t"
  shows "at_rest c s"
proof -
  note inv = managed_state [OF assms(1-3)]
  have nb: "\<forall>p \<in> set (ws s). \<not> busy p" using assms(5) by (rule no_work)
  note idle = idle_workers_stage [OF nb]
  have ctl: "\<not> mgr_waiting (pc_of c (cs s))"
    using inv nb control_count [OF inv(1,2) assms(3)] by (intro quiescent_controller) auto
  have count: "unat (WorkerCount (mgr s)) = number Inside (ws s)"
    using worker_count_number [OF inv(1) _ assms(3)] inv(2) idle(2) by (auto simp: orderly_def WorkerCount_def)
  have "tasks (mgr s) = []" if "WorkerCount (mgr s) \<noteq> 0"
  proof -
    have "0 < number Inside (ws s)" using that count by (metis gr0I unat_eq_zero)
    with idle(4,6) inv(3) show ?thesis by (auto simp: wake_ok_def)
  qed
  moreover have "IdleWorkerCount (mgr s) = WorkerCount (mgr s)"
  proof -
    have "cnt idle_pc (ws s) < 2 ^ 64" using cnt_le_length [of idle_pc "ws s"] assms(3) by linarith
    then have "unat (IdleWorkerCount (mgr s)) = cnt idle_pc (ws s)"
      using inv(1) by (simp add: counter_inv_def IdleWorkerCount_def unat_of_nat)
    then show ?thesis using idle(5) count by (simp add: word_unat_eq_iff)
  qed
  moreover have "producer_inv cfg s" using producers.both.always [OF assms(1)] by simp
  then have "0 < cnt add_waiting (cs s) \<Longrightarrow> tasks (mgr s) \<noteq> [] \<or> 0 < cnt add_woken (cs s)"
    using assms(4) by (auto simp: producer_inv_def)
  ultimately show ?thesis using ctl by (auto simp: at_rest_def PendingTaskCount_def tasks_size_def)
qed

lemma work_reach: "work\<^sup>*\<^sup>* s t \<Longrightarrow> reach cfg s \<Longrightarrow> reach cfg t \<and> length (ws t) = length (ws s)"
  by (induction rule: rtranclp_induct)
    (auto simp: work_def ws_grow_worker intro: reachable_step by_worker)

lemma work_ends: "\<nexists>f. \<forall>n. work (f n) (f (Suc n))"
proof
  assume "\<exists>f. \<forall>n. work (f n) (f (Suc n))"
  then obtain f where "\<forall>n. work (f n) (f (Suc n))" by blast
  then have "\<forall>n. (f (Suc n), f n) \<in> measure work_left" using work_decreases by auto
  then show False using wf_measure [of work_left] unfolding wf_iff_no_infinite_down_chain by blast
qed

subsection \<open>Stop and Join\<close>

text \<open>During \<^verbatim>\<open>Join\<close> of an unbounded pool: as soon as one of the \<open>v\<close> workers has left the loop, the
  queue is empty, and it stays empty.\<close>

fun join_phase :: "nat \<Rightarrow> Impl \<Rightarrow> cpc \<Rightarrow> bool" where
  "join_phase n m (C_Stop_Remove join) \<longleftrightarrow> (join \<longrightarrow> tm_state m = JOINING)"
| "join_phase n m (C_RW_Request (Stop_of join v) w) \<longleftrightarrow> w = v \<and> (join \<longrightarrow> tm_state m = JOINING)"
| "join_phase n m (C_RW_Check (Stop_of join v)) \<longleftrightarrow>
     (join \<longrightarrow> tm_state m = JOINING \<and> (n < unat v \<longrightarrow> tasks m = []))"
| "join_phase n m (C_RW_Wait (Stop_of join v)) \<longleftrightarrow>
     (join \<longrightarrow> tm_state m = JOINING \<and> (n < unat v \<longrightarrow> tasks m = []))"
| "join_phase n m (C_Stop_Finish (Some (join, v))) \<longleftrightarrow>
     (join \<longrightarrow> tm_state m = JOINING \<and> (v \<noteq> 0 \<longrightarrow> tasks m = []))"
| "join_phase n m p \<longleftrightarrow> True"

definition no_add :: "cpc list \<Rightarrow> bool" where
  "no_add qs \<longleftrightarrow> list_all (\<lambda>p. \<not> in_add p) qs"

definition join_ok :: "nat \<Rightarrow> wpc list \<Rightarrow> Impl \<Rightarrow> cpc list \<Rightarrow> bool" where
  "join_ok c ps m qs \<longleftrightarrow> no_add qs \<and> join_phase (number Inside ps) m (pc_of c qs)"

definition join_inv :: "pool_cfg \<Rightarrow> nat \<Rightarrow> pool \<Rightarrow> bool" where
  "join_inv cfg c s \<longleftrightarrow> managed cfg c \<longrightarrow> length (ws s) < 2 ^ 64 \<longrightarrow> capacity cfg = 0 \<longrightarrow>
     join_ok c (ws s) (mgr s) (cs s)"

lemma join_phase_mono:
  "join_phase n m p \<Longrightarrow> tm_state m' = tm_state m \<Longrightarrow>
   (tm_state m = JOINING \<Longrightarrow> suffix (tasks m') (tasks m) \<and> (n \<le> n' \<or> tasks m' = [])) \<Longrightarrow> join_phase n' m' p"
  by (induction n m p rule: join_phase.induct) auto

lemma join_phase_wake: "join_phase n m p \<Longrightarrow> join_phase n m (wake_mgr p)"
  by (induction n m p rule: join_phase.induct) auto

lemma join_phase_client: "client p \<Longrightarrow> join_phase n m p"
  by (cases p) auto

lemma no_add_update: "no_add qs \<Longrightarrow> \<not> in_add p \<Longrightarrow> no_add (qs[i := p])"
  by (simp add: no_add_def list_all_update)

lemma no_add_signal_mgr: "signal_mgr n qs qs' \<Longrightarrow> no_add qs \<Longrightarrow> no_add qs'"
  unfolding no_add_def by (erule notified_list_all) (auto dest: mgr_not_in_add)

lemma no_add_signal_add: "signal_add n qs qs' \<Longrightarrow> no_add qs \<Longrightarrow> no_add qs'"
  unfolding no_add_def by (erule notified_list_all) (auto dest: add_waiting_in_add)

text \<open>What a step of a worker can change for a thread in \<^verbatim>\<open>Stop\<close> or \<^verbatim>\<open>Join\<close>.\<close>

lemma worker_step_join:
  "worker_step s t \<Longrightarrow>
     tm_state (mgr t) = tm_state (mgr s) \<and> suffix (tasks (mgr t)) (tasks (mgr s)) \<and>
     (tm_state (mgr s) = JOINING \<longrightarrow> number Inside (ws s) \<le> number Inside (ws t) \<or> tasks (mgr t) = []) \<and>
     (no_add (cs s) \<longrightarrow> no_add (cs t)) \<and>
     (\<forall>c. pc_of c (cs t) = pc_of c (cs s) \<or> pc_of c (cs t) = wake_mgr (pc_of c (cs s)) \<or> client (pc_of c (cs t)))"
proof (induction rule: worker_step.induct)
  case (worker_enter w s active notify_manager m')
  then have "number Inside (ws s) \<le> number Inside ((ws s)[w := p])" for p
    using number_move [of w "ws s" Inside p] by auto
  with worker_enter show ?case by (auto simp: Worker_enter_def Let_def split: if_splits)
next
  case (worker_notify w s cs')
  then have "number Inside (ws s) \<le> number Inside ((ws s)[w := W_Loop])"
    using number_move [of w "ws s" Inside W_Loop] by auto
  then show ?case
    using no_add_signal_mgr [OF worker_notify(3)] pc_of_signal_mgr [OF worker_notify(3)] by auto
next
  case (worker_sleep w s cur m')
  then show ?case using worker_turn_SleepD [OF worker_sleep(2)] by auto
next
  case (worker_proceed w s cur t' nm calls m' cs')
  note turn = worker_turn_ProceedD [OF worker_proceed(2)]
  have "suffix (tasks m') (tasks (mgr s))" using turn_history [OF worker_proceed(2)] by (metis suffixI)
  moreover have "stage_of (ws s ! w) = Inside" using turn by auto
  then have "number Inside (ws s) \<le> number Inside ((ws s)[w := W_Run t'])"
    using number_move [OF worker_proceed(1), of Inside "W_Run t'"] by simp
  moreover have "no_add (cs s) \<longrightarrow> no_add cs'"
    using worker_proceed(3) no_add_signal_add by (auto split: if_splits)
  moreover have "pc_of c cs' = pc_of c (cs s) \<or> client (pc_of c cs')" for c
    using worker_proceed(3) pc_of_signal_add [of 1 "cs s" cs' c] by (auto split: if_splits)
  moreover have "tm_state m' = tm_state (mgr s)" using turn by simp
  ultimately show ?case by auto
next
  case (worker_leave w s cur m')
  then show ?case using worker_turn_LeaveD [OF worker_leave(2)] by (auto simp: IsActive_def)
next
  case (worker_run w s t)
  then show ?case using number_move [of w "ws s" Inside W_Loop] by auto
next
  case (worker_exit w s entered nm m' cs')
  have "number Inside ((ws s)[w := W_Done entered]) = number Inside (ws s)"
    using number_move [of w "ws s" Inside "W_Done entered"] worker_exit(1,2) by (cases entered) auto
  moreover have "no_add (cs s) \<longrightarrow> no_add cs'"
    using worker_exit(4) no_add_signal_mgr by (auto split: if_splits)
  moreover have "pc_of c cs' = pc_of c (cs s) \<or> pc_of c cs' = wake_mgr (pc_of c (cs s))" for c
    using worker_exit(4) pc_of_signal_mgr [of 1 "cs s" cs' c] by (auto split: if_splits)
  ultimately show ?case using Worker_exitD [OF worker_exit(3)] by auto
next
  case (worker_spurious w s)
  then show ?case using number_move [of w "ws s" Inside W_Woken] by auto
qed

lemma join_worker:
  assumes "worker_step s t" "join_ok c (ws s) (mgr s) (cs s)"
  shows "join_ok c (ws t) (mgr t) (cs t)"
proof -
  from worker_step_join [OF assms(1)]
  have eff: "tm_state (mgr t) = tm_state (mgr s)" "suffix (tasks (mgr t)) (tasks (mgr s))"
      "tm_state (mgr s) = JOINING \<Longrightarrow> number Inside (ws s) \<le> number Inside (ws t) \<or> tasks (mgr t) = []"
      "no_add (cs s) \<Longrightarrow> no_add (cs t)"
    and pc: "pc_of c (cs t) = pc_of c (cs s) \<or> pc_of c (cs t) = wake_mgr (pc_of c (cs s)) \<or> client (pc_of c (cs t))"
    by blast+
  have ok: "no_add (cs s)" "join_phase (number Inside (ws s)) (mgr s) (pc_of c (cs s))"
    using assms(2) by (simp_all add: join_ok_def)
  have step: "join_phase (number Inside (ws t)) (mgr t) (pc_of c (cs s))"
    using eff(2,3) by (intro join_phase_mono [OF ok(2) eff(1)]) simp
  from pc have "join_phase (number Inside (ws t)) (mgr t) (pc_of c (cs t))"
    using step join_phase_wake [OF step] join_phase_client by (elim disjE) simp_all
  with eff(4) ok(1) show ?thesis by (simp add: join_ok_def)
qed

text \<open>With no bound on the queue \<^verbatim>\<open>Add\<close> never blocks; while joining it queues nothing.\<close>

lemma unbounded_never_full: "capacity_inv cfg s \<Longrightarrow> capacity cfg = 0 \<Longrightarrow> \<not> queue_full (expire cur (mgr s))"
  by (auto simp: capacity_inv_def quiet_def queue_full_def)

lemma task_step_join:
  "task_step cfg s t \<Longrightarrow> capacity_inv cfg s \<Longrightarrow> capacity cfg = 0 \<Longrightarrow> no_add (cs s) \<Longrightarrow>
     tm_state (mgr t) = tm_state (mgr s) \<and> no_add (cs t) \<and>
     (tm_state (mgr s) = JOINING \<longrightarrow> suffix (tasks (mgr t)) (tasks (mgr s)))"
proof (induction rule: task_step.induct)
  case (add_queued i s e locked timeout cur cur2 v expiration notify calls m' ws')
  then show ?case using Add_enter_queuedD [OF add_queued(4)] by (auto simp: no_add_update)
next
  case (add_waits i s e locked timeout cur cur2 v expiration calls m')
  then show ?case using Add_enter_waitsD [OF add_waits(4)] unbounded_never_full by blast
next
  case (add_throws i s e locked timeout cur cur2 v expiration x calls m')
  then show ?case using Add_enter_throwsD [OF add_throws(4)]
    by (auto simp: no_add_update)
next
  case (remove_next_pending i s e r m')
  then show ?case by (auto simp: no_add_update suffix_tl dest!: RemoveNextPendingD)
next
  case (remove_expired_tasks i s e cur calls m')
  then show ?case by (auto simp: no_add_update RemoveExpiredTasks_split suffix_dropWhile)
next
  case (expired_task_count i s e n m')
  then show ?case by (auto simp: no_add_update ExpiredTaskCount_def)
qed (auto simp: no_add_update no_add_def list_all_length nth_list_update dest: add_waiting_in_add)

lemma join_task:
  assumes "task_step cfg s t" "capacity_inv cfg s" "capacity cfg = 0" "join_ok c (ws s) (mgr s) (cs s)"
  shows "join_ok c (ws t) (mgr t) (cs t)"
proof -
  have ok: "no_add (cs s)" "join_phase (number Inside (ws s)) (mgr s) (pc_of c (cs s))"
    using assms(4) by (simp_all add: join_ok_def)
  have eff: "tm_state (mgr t) = tm_state (mgr s)" "no_add (cs t)"
      "tm_state (mgr s) = JOINING \<Longrightarrow> suffix (tasks (mgr t)) (tasks (mgr s))"
    using task_step_join [OF assms(1-3) ok(1)] by auto
  have same: "number Inside (ws t) = number Inside (ws s)"
    using task_step_clients [OF assms(1)] by (blast intro: number_cong)
  have step: "join_phase (number Inside (ws t)) (mgr t) (pc_of c (cs s))"
    using eff(3) same by (intro join_phase_mono [OF ok(2) eff(1)]) simp
  have "pc_of c (cs t) = pc_of c (cs s) \<or> client (pc_of c (cs t))"
    using task_step_clients [OF assms(1)] pc_of_client_move [of "cs s" "cs t" c] by blast
  then have "join_phase (number Inside (ws t)) (mgr t) (pc_of c (cs t))"
    using step join_phase_client by (elim disjE) simp_all
  with eff(2) show ?thesis by (simp add: join_ok_def)
qed

lemma join_ok_move:
  assumes "join_ok c ps m qs" "orderly c ps mx qs" "i < length qs" "\<not> client (qs ! i) \<or> i = c"
    and "\<not> in_add p" "join_phase (number Inside ps) m (qs ! i) \<Longrightarrow> phase ps mx (qs ! i) \<Longrightarrow> join_phase (number Inside ps') m' p"
  shows "join_ok c ps' m' (qs[i := p])"
proof -
  have "i = c" using assms(2-4) by (auto simp: orderly_def)
  with assms show ?thesis by (auto simp: join_ok_def no_add_update pc_of_update) (auto simp: pc_of_def orderly_def)
qed

lemma join_control:
  "control_step cfg s t \<Longrightarrow> managed cfg c \<Longrightarrow> counter_inv s \<Longrightarrow> length (ws s) < 2 ^ 64 \<Longrightarrow>
   orderly c (ws s) (worker_max_count (mgr s)) (cs s) \<Longrightarrow> join_ok c (ws s) (mgr s) (cs s) \<Longrightarrow>
   join_ok c (ws t) (mgr t) (cs t)"
proof (induction rule: control_step.induct)
  case (mgr_spurious i s)
  then have "\<not> client (cs s ! i)" "\<not> in_add (wake_mgr (cs s ! i))"
    using client_not_waiting mgr_not_in_add by auto
  with mgr_spurious show ?case by (auto elim!: join_ok_move intro: join_phase_wake)
next
  case (set_thread_factory i s e f)
  have "join_ok c (ws s) (SetThreadFactory f (mgr s)) ((cs s)[i := C_Ret None])"
  proof (cases "i = c")
    case True
    with set_thread_factory show ?thesis by (auto simp: join_ok_def no_add_update pc_of_update)
  next
    case False
    with set_thread_factory show ?thesis
      by (auto simp: join_ok_def no_add_update pc_of_update intro: join_phase_mono)
  qed
  then show ?case by simp
next
  case (remove_worker_request i s k v n m' ws')
  from RemoveWorker_requestD [OF remove_worker_request(3)]
  have m': "tm_state m' = tm_state (mgr s)" "tasks m' = tasks (mgr s)" by auto
  have "number Inside ws' = number Inside (ws s)"
    using stage_notify_workers [OF remove_worker_request(4)] by (rule number_cong)
  with remove_worker_request m' show ?case by (cases k) (auto elim!: join_ok_move simp: steady_def)
next
  case (remove_worker_wait i s k)
  then show ?case by (cases k) (auto elim!: join_ok_move)
next
  case (remove_worker_clean i s k)
  have "number Inside (ws s) = 0" if "phase (ws s) (worker_max_count (mgr s)) (C_RW_Check k)"
    using control_count [OF remove_worker_clean(5,7,6)] remove_worker_clean(3) that by auto
  with remove_worker_clean show ?case by (cases k) (auto elim!: join_ok_move simp: unat_gt_0)
next
  case (stop_claim i s join do_stop m')
  then show ?case using StopImpl_claimD [OF stop_claim(3)] by (auto elim!: join_ok_move)
qed (auto elim!: join_ok_move simp: managed_def)

lemma join_inv_init: "pool_start s \<Longrightarrow> join_inv cfg c s"
  by (auto simp: pool_start_def pool_init_def join_inv_def join_ok_def no_add_def list_all_iff pc_of_def)

lemma join_inv_step:
  "counter_inv s \<and> managed_inv cfg c s \<and> capacity_inv cfg s \<Longrightarrow> join_inv cfg c s \<Longrightarrow>
   pool_step cfg s t \<Longrightarrow> join_inv cfg c t"
proof (elim pool_step.cases)
  fix s' t' assume "counter_inv s \<and> managed_inv cfg c s \<and> capacity_inv cfg s" "join_inv cfg c s"
    "s = s'" "t = t'" "worker_step s' t'"
  then show ?thesis using ws_grow_worker join_worker by (auto simp: join_inv_def)
next
  fix s' t' assume "counter_inv s \<and> managed_inv cfg c s \<and> capacity_inv cfg s" "join_inv cfg c s"
    "s = s'" "t = t'" "task_step cfg s' t'"
  then show ?thesis using ws_grow_task join_task by (auto simp: join_inv_def)
next
  fix s' t' assume *: "counter_inv s \<and> managed_inv cfg c s \<and> capacity_inv cfg s" "join_inv cfg c s"
    "s = s'" "t = t'" "control_step cfg s' t'"
  then have "length (ws s) \<le> length (ws t)" using ws_grow_control by blast
  with * show ?thesis using join_control by (auto simp: managed_inv_def join_inv_def)
qed

interpretation joins: relative_invariant pool_start "pool_step cfg"
    "\<lambda>s. counter_inv s \<and> managed_inv cfg c s \<and> capacity_inv cfg s" "join_inv cfg c"
  by unfold_locales
    (blast intro: join_inv_init join_inv_step managed_inv_init managed_inv_step counter_inv_init
      counters.preserved capacity_inv_init cap.preserved)+

subsection \<open>A complete run\<close>

text \<open>
  A pool with one worker and no bound, from \<^verbatim>\<open>Start\<close> to the end of \<^verbatim>\<open>Join\<close>: the client adds
  one task, the worker runs it, and \<^verbatim>\<open>Join\<close> waits for the worker to leave.
\<close>

definition run_cfg :: pool_cfg where
  "run_cfg = \<lparr>pid = (\<lambda>w. w + 100), creates = (\<lambda>_. True), cid = (\<lambda>i. i), control = (\<lambda>i. i = 0),
     removes = (\<lambda>_. False), purges = (\<lambda>_. False), pops = (\<lambda>_. False),
     simple = Some \<lparr>s_worker_count = 1, s_pending_task_count_max = 0\<rparr>\<rparr>"

definition run_mgr ::
  "TM_STATE \<Rightarrow> size_t \<Rightarrow> size_t \<Rightarrow> Task list \<Rightarrow> thread_ref set \<Rightarrow> thread_ref set \<Rightarrow> (pthread_t \<rightharpoonup> thread_ref) \<Rightarrow> Impl" where
  "run_mgr st count mx ts wk dead ids =
     \<lparr>worker_count = count, worker_max_count = mx, idle_count = 0, pending_task_count_max = 0,
      expired_count = 0, expire_callback = None, tm_state = st,
      thread_factory = Some SimpleThreadFactory_default, tasks = ts, workers = wk, dead_workers = dead,
      id_map = ids\<rparr>"

lemmas run_defs = run_cfg_def run_mgr_def ex_pool_def

lemma run_control:
  "reach run_cfg s \<Longrightarrow> control_step run_cfg s t \<Longrightarrow> reach run_cfg t"
  by (blast intro: reachable_step by_control)

lemma run_worker: "reach run_cfg s \<Longrightarrow> worker_step s t \<Longrightarrow> reach run_cfg t"
  by (blast intro: reachable_step by_worker)

text \<open>The beginning, up to the worker's loop, for every predicate \<open>Q\<close> that the steps of the controller and
  of workers without a task keep.\<close>

lemma run_to_workers:
  assumes init: "Q (pool_init 1)"
    and control: "\<And>s t. Q s \<Longrightarrow> control_step run_cfg s t \<Longrightarrow> Q t"
  shows "Q (ex_pool (run_mgr STARTED 0 1 [] {0} {} Map.empty) [W_Created] [C_AW_Start [0]] [] [])"
proof -
  let ?sm = "\<lparr>s_worker_count = 1, s_pending_task_count_max = 0\<rparr>"
  let ?m = "run_mgr UNINITIALIZED 0 0 [] {} {} Map.empty"
  let ?m3 = "run_mgr STARTED 0 0 [] {} {} Map.empty"
  from init have "Q (ex_pool ?m [] [C_Ret None] [] [])"
    by (rule control)
      (use set_thread_factory [of 0 "pool_init 1" None run_cfg "Some SimpleThreadFactory_default"] in
        \<open>simp add: pool_init_def NewThreadManager_def SetThreadFactory_def Impl_new_def run_defs\<close>)
  then have "Q (ex_pool ?m [] [C_SimpleStart] [] [])"
    by (rule control)
      (use simple_start_max [of 0 "ex_pool ?m [] [C_Ret None] [] []" None run_cfg ?sm] in
        \<open>simp add: SetPendingTaskCountMax_def run_defs\<close>)
  then have "Q (ex_pool ?m3 [] [C_AW_Begin 1] [] [])"
    by (rule control)
      (use simple_start_ok [of 0 "ex_pool ?m [] [C_SimpleStart] [] []" run_cfg ?sm True ?m3 "[]"] in
        \<open>simp add: Start_def run_defs\<close>)
  then have "Q (ex_pool ?m3 [W_Created] [C_AW_Publish 1 [0]] [] [])"
    by (rule control)
      (use add_worker_create [of 0 "ex_pool ?m3 [] [C_AW_Begin 1] [] []" 1 "[0]" run_cfg] in
        \<open>simp add: run_defs\<close>)
  then show ?thesis
    by (rule control)
      (use add_worker_publish [of 0 "ex_pool ?m3 [W_Created] [C_AW_Publish 1 [0]] [] []" 1 "[0]" run_cfg] in
        \<open>simp add: AddWorker_publish_def run_defs\<close>)
qed

lemma run_to_loop_by:
  assumes init: "Q (pool_init 1)"
    and control: "\<And>s t. Q s \<Longrightarrow> control_step run_cfg s t \<Longrightarrow> Q t"
    and worker: "\<And>s t. Q s \<Longrightarrow> worker_step s t \<Longrightarrow> \<forall>p \<in> set (ws s). \<forall>t. p \<noteq> W_Run t \<Longrightarrow> Q t"
  shows "Q (ex_pool (run_mgr STARTED 1 1 [] {0} {} [100 \<mapsto> 0]) [W_Loop] [C_Ret None] [] [])"
proof -
  let ?m = "run_mgr STARTED 0 1 [] {0} {} Map.empty"
  let ?mi = "run_mgr STARTED 0 1 [] {0} {} [100 \<mapsto> 0]"
  let ?me = "run_mgr STARTED 1 1 [] {0} {} [100 \<mapsto> 0]"
  have "Q (ex_pool ?m [W_Created] [C_AW_Start [0]] [] [])" using init control by (rule run_to_workers)
  then have "Q (ex_pool ?m [W_Start] [C_AW_Insert 0 []] [] [])"
    by (rule control)
      (use add_worker_start [of 0 "ex_pool ?m [W_Created] [C_AW_Start [0]] [] []" 0 "[]" run_cfg] in
        \<open>simp add: start_thread_def run_defs\<close>)
  then have "Q (ex_pool ?mi [W_Start] [C_AW_Start []] [] [])"
    by (rule control)
      (use add_worker_insert [of 0 "ex_pool ?m [W_Start] [C_AW_Insert 0 []] [] []" 0 "[]" run_cfg] in
        \<open>simp add: id_map_insert_def run_defs\<close>)
  then have "Q (ex_pool ?mi [W_Start] [C_AW_Check] [] [])"
    by (rule control)
      (use add_worker_started [of 0 "ex_pool ?mi [W_Start] [C_AW_Start []] [] []" run_cfg] in
        \<open>simp add: run_defs\<close>)
  then have "Q (ex_pool ?me [W_NotifyMgr] [C_AW_Check] [] [])"
    by (rule worker)
      (use worker_enter [of 0 "ex_pool ?mi [W_Start] [C_AW_Check] [] []" True True ?me] in
        \<open>simp add: Worker_enter_def run_defs\<close>)+
  then have "Q (ex_pool ?me [W_NotifyMgr] [C_Ret None] [] [])"
    by (rule control)
      (use add_worker_return [of 0 "ex_pool ?me [W_NotifyMgr] [C_AW_Check] [] []" run_cfg] in
        \<open>simp add: workers_settled_def run_defs\<close>)
  then show ?thesis
    by (rule worker)
      (use worker_notify [of 0 "ex_pool ?me [W_NotifyMgr] [C_Ret None] [] []" "[C_Ret None]"] in
        \<open>simp add: notified_def run_defs\<close>)+
qed

lemma run_to_loop:
  "reach run_cfg (ex_pool (run_mgr STARTED 1 1 [] {0} {} [100 \<mapsto> 0]) [W_Loop] [C_Ret None] [] [])"
proof (rule run_to_loop_by [of "reach run_cfg"])
  show "reach run_cfg (pool_init 1)" by (rule reachable_init) (auto simp: pool_start_def)
qed (blast intro: run_control run_worker)+

lemma run_to_task:
  "reach run_cfg (ex_pool (run_mgr STARTED 1 1 [ex_task] {0} {} [100 \<mapsto> 0]) [W_Loop] [C_Ret None] [ex_task] [])"
proof -
  let ?s = "ex_pool (run_mgr STARTED 1 1 [] {0} {} [100 \<mapsto> 0]) [W_Loop] [C_Ret None] [] []"
  have "task_step run_cfg ?s
    (ex_pool (run_mgr STARTED 1 1 [ex_task] {0} {} [100 \<mapsto> 0]) [W_Loop] [C_Ret None] [ex_task] [])"
    using add_queued [of 0 ?s None True 0 run_cfg 5 5 7 0 False "[]"
        "run_mgr STARTED 1 1 [ex_task] {0} {} [100 \<mapsto> 0]" "[W_Loop]"]
    by (simp add: Add_enter_def RemoveExpiredTasks_eq queue_full_def tasks_size_def Add_push_def
        Task_new_def new_task_def callback_calls_def ex_task_def run_defs)
  with run_to_loop show ?thesis by (blast intro: reachable_step by_task)
qed

lemma run_to_joining:
  "reach run_cfg (ex_pool (run_mgr JOINING 1 0 [] {0} {} [100 \<mapsto> 0])
     [W_Run (Some (mark_executing ex_task))] [C_RW_Check (Stop_of True 1)] [ex_task] [ex_task])"
proof -
  let ?t = "Some (mark_executing ex_task)"
  let ?mt = "run_mgr STARTED 1 1 [ex_task] {0} {} [100 \<mapsto> 0]"
  let ?m = "\<lambda>st mx. run_mgr st 1 mx [] {0} {} [100 \<mapsto> 0]"
  let ?s = "\<lambda>st mx pc. ex_pool (?m st mx) [W_Run ?t] [pc] [ex_task] [ex_task]"
  from run_to_task have "reach run_cfg (?s STARTED 1 (C_Ret None))"
    by (rule run_worker)
      (use worker_proceed [of 0 "ex_pool ?mt [W_Loop] [C_Ret None] [ex_task] []" 5 ?t False "[]" "?m STARTED 1"
          "[C_Ret None]"] in
        \<open>simp add: Worker_top_def IsActive_def Worker_loop_eq Worker_take_eq expire_def RemoveExpiredTasks_eq
          is_expired_def callback_calls_def taken_def started_def ex_task_def mark_executing_def run_defs\<close>)
  then have "reach run_cfg (?s STARTED 1 (C_Stop_Claim True))"
    by (rule run_control)
      (use stop [of 0 "?s STARTED 1 (C_Ret None)" None run_cfg True] in \<open>simp add: run_defs\<close>)
  then have "reach run_cfg (?s JOINING 1 (C_Stop_Remove True))"
    by (rule run_control)
      (use stop_claim [of 0 "?s STARTED 1 (C_Stop_Claim True)" True True "?m JOINING 1" run_cfg] in
        \<open>simp add: StopImpl_claim_def run_defs\<close>)
  then have "reach run_cfg (?s JOINING 1 (C_RW_Request (Stop_of True 1) 1))"
    by (rule run_control)
      (use stop_remove [of 0 "?s JOINING 1 (C_Stop_Remove True)" True run_cfg] in \<open>simp add: run_defs\<close>)
  then show ?thesis
    by (rule run_control)
      (use remove_worker_request [of 0 "?s JOINING 1 (C_RW_Request (Stop_of True 1) 1)" "Stop_of True 1" 1
          "Notify_times 0" "?m JOINING 0" "[W_Run ?t]" run_cfg] in
        \<open>simp add: RemoveWorker_request_def notified_def run_defs\<close>)
qed

lemma run_to_joined:
  "reach run_cfg (ex_pool (run_mgr JOINING 0 0 [] {} {} Map.empty) [W_Done True]
     [C_Stop_Finish (Some (True, 1))] [ex_task] [ex_task])"
proof -
  let ?k = "C_RW_Check (Stop_of True 1)"
  let ?m = "run_mgr JOINING 1 0 [] {0} {} [100 \<mapsto> 0]"
  let ?d = "run_mgr JOINING 0 0 [] {0} {0} [100 \<mapsto> 0]"
  have ids: "[100 \<mapsto> 0] |` (- {100}) = (Map.empty :: pthread_t \<rightharpoonup> thread_ref)" by (auto simp: restrict_map_def)
  from run_to_joining have "reach run_cfg (ex_pool ?m [W_Loop] [?k] [ex_task] [ex_task])"
    by (rule run_worker)
      (use worker_run [of 0 "ex_pool ?m [W_Run (Some (mark_executing ex_task))] [?k] [ex_task] [ex_task]"] in
        \<open>simp add: run_defs\<close>)
  then have "reach run_cfg (ex_pool ?m [W_Exit True] [?k] [ex_task] [ex_task])"
    by (rule run_worker)
      (use worker_leave [of 0 "ex_pool ?m [W_Loop] [?k] [ex_task] [ex_task]" 5 ?m] in
        \<open>simp add: Worker_top_def IsActive_def Worker_loop_eq run_defs\<close>)
  then have "reach run_cfg (ex_pool ?d [W_Done True] [?k] [ex_task] [ex_task])"
    by (rule run_worker)
      (use worker_exit [of 0 "ex_pool ?m [W_Exit True] [?k] [ex_task] [ex_task]" True True ?d "[?k]"] in
        \<open>simp add: Worker_exit_def notified_def run_defs\<close>)
  then show ?thesis
    by (rule run_control)
      (use remove_worker_clean [of 0 "ex_pool ?d [W_Done True] [?k] [ex_task] [ex_task]" "Stop_of True 1" run_cfg] in
        \<open>simp add: RemoveWorker_clean_def workers_settled_def ids run_defs\<close>)
qed

subsection \<open>Properties\<close>


lemma run_cfg_managed: "managed run_cfg 0" "\<forall>i. \<not> pops run_cfg i \<and> \<not> purges run_cfg i"
  "capacity run_cfg = 0"
  by (auto simp: managed_def run_cfg_def capacity_def)


text \<open>C2. \<^verbatim>\<open>Stop\<close> and \<^verbatim>\<open>Join\<close> complete, in a managed pool: one thread calls \<^verbatim>\<open>Start\<close>, \<^verbatim>\<open>Stop\<close>, \<^verbatim>\<open>Join\<close>
  and \<^verbatim>\<open>AddWorker\<close>, nobody calls \<^verbatim>\<open>RemoveWorker\<close>, every \<^verbatim>\<open>pthread_create\<close> succeeds, and there are fewer than \<open>2 ^ 64\<close> workers. When that
  thread is about to set the state \<^verbatim>\<open>STOPPED\<close>, every worker thread has returned (so that none is
  still running a task) and \<^verbatim>\<open>WorkerCount()\<close> is zero. If it was \<^verbatim>\<open>Join\<close>, the
  pool had workers and its queue is unbounded, then the queue is empty, and unless somebody calls
  \<^verbatim>\<open>RemoveNextPending\<close> the tasks that were handed to the workers are, expiring ones aside, all those
  added, once each and in the order of the additions.\<close>

theorem Join_completes:
  assumes "reach cfg s" and "managed cfg c" and "length (ws s) < 2 ^ 64"
    and "pc_of c (cs s) = C_Stop_Finish (Some (join, v))"
  shows "WorkerCount (mgr s) = 0 \<and> (\<forall>p \<in> set (ws s). p = W_Done True) \<and>
    (join \<and> v \<noteq> 0 \<and> capacity cfg = 0 \<longrightarrow> tasks (mgr s) = [] \<and>
       ((\<forall>i. \<not> pops cfg i) \<longrightarrow>
          filter undying (h_started s) = map mark_executing (filter undying (h_added s))))"
proof (intro conjI impI ballI)
  note inv = managed_state [OF assms(1-3)]
  have ph: "steady (ws s) 0" "number Stray (ws s) = 0" using inv(2) assms(4) by (auto simp: orderly_def)
  then show "WorkerCount (mgr s) = 0"
    using worker_count_number [OF inv(1) _ assms(3)] by (simp add: steady_def WorkerCount_def unat_eq_zero)
  fix p assume p: "p \<in> set (ws s)"
  have "stage_of p \<noteq> New" "stage_of p \<noteq> Starting" "stage_of p \<noteq> Inside" "stage_of p \<noteq> Leaving"
    "stage_of p \<noteq> Stray"
    using ph p by (simp_all add: steady_def cnt_zero_iff)
  then show "p = W_Done True" by (cases p) (simp_all split: if_splits)
next
  assume j: "join \<and> v \<noteq> 0 \<and> capacity cfg = 0"
  have "join_inv cfg c s" using joins.both.always [OF assms(1)] by blast
  with j assms(2-4) show empty: "tasks (mgr s) = []" by (auto simp: join_inv_def join_ok_def)
  assume "\<forall>i. \<not> pops cfg i"
  with served.always [OF assms(1)] have "map mark_executing (filter undying (h_removed s)) = filter undying (h_started s)"
    by (simp add: served_inv_def)
  moreover have "h_added s = h_removed s" using fifo.always [OF assms(1)] empty by (simp add: fifo_inv_def)
  ultimately show "filter undying (h_started s) = map mark_executing (filter undying (h_added s))" by simp
qed

theorem Join_completes_witness:
  "let s = ex_pool (run_mgr JOINING 0 0 [] {} {} Map.empty) [W_Done True]
     [C_Stop_Finish (Some (True, 1))] [ex_task] [ex_task]
   in tasks (mgr s) = [] \<and> filter undying (h_started s) = map mark_executing (filter undying (h_added s)) \<and>
      h_started s = [mark_executing ex_task]"
  using Join_completes [OF run_to_joined run_cfg_managed(1), of True 1] run_cfg_managed
  by (simp add: ex_pool_def pc_of_def)

text \<open>C11. In a managed pool (one thread calls \<^verbatim>\<open>Start\<close>, \<^verbatim>\<open>Stop\<close>, \<^verbatim>\<open>Join\<close> and \<^verbatim>\<open>AddWorker\<close>, nobody calls
  \<^verbatim>\<open>RemoveWorker\<close>, every \<^verbatim>\<open>pthread_create\<close> succeeds) of fewer than \<open>2 ^ 64\<close> workers the updates of \<^verbatim>\<open>worker_count_\<close> do not race, although they are made under two mutexes:
  while a worker is about to enter and increment it under \<^verbatim>\<open>mutex_\<close>, no worker is about to leave and decrement it under
  \<^verbatim>\<open>worker_monitor_\<close>. The counter is always the number of workers that have entered and not yet left.\<close>

theorem worker_count_updates_apart:
  assumes "reach cfg s" and "managed cfg c" and "length (ws s) < 2 ^ 64"
  shows "(W_Start \<notin> set (ws s) \<or> W_Exit True \<notin> set (ws s)) \<and> W_Exit False \<notin> set (ws s) \<and>
    unat (WorkerCount (mgr s)) = number Inside (ws s) + number Leaving (ws s)"
proof -
  note inv = managed_state [OF assms]
  have stray: "number Stray (ws s) = 0" and ph: "phase (ws s) (worker_max_count (mgr s)) (pc_of c (cs s))"
    using inv(2) by (simp_all add: orderly_def)
  have "number Starting (ws s) = 0 \<or> number Leaving (ws s) = 0"
    using ph by (cases "pc_of c (cs s)") (auto simp: steady_def growing_def)
  then have "W_Start \<notin> set (ws s) \<or> W_Exit True \<notin> set (ws s)" by (force simp: cnt_zero_iff)
  moreover have "W_Exit False \<notin> set (ws s)" using stray by (force simp: cnt_zero_iff)
  moreover have "unat (WorkerCount (mgr s)) = number Inside (ws s) + number Leaving (ws s)"
    using worker_count_number [OF inv(1) stray assms(3)] by (simp add: WorkerCount_def)
  ultimately show ?thesis by blast
qed

theorem worker_count_updates_apart_witness:
  "let s = ex_pool (run_mgr JOINING 0 0 [] {} {} Map.empty) [W_Done True] [C_Stop_Finish (Some (True, 1))] [ex_task] [ex_task]
   in reach run_cfg s \<and> unat (WorkerCount (mgr s)) = 0"
  using worker_count_updates_apart [OF run_to_joined run_cfg_managed(1)] run_to_joined by (simp add: ex_pool_def)

end
