(* ===== verification/Pool_Buffer.thy ===== *)
theory Pool_Buffer
  imports Pool_Liveness
begin

text \<open>
  The pending queue of the pool refines an abstract bounded buffer. The buffer is deterministic: an
  operation, with the task it puts or takes, determines the contents after it or is impossible. The
  steps of the pool are matched by operations so that the tasks put are those \<^verbatim>\<open>Add\<close> made and the tasks taken
  are those the workers got to run.
\<close>

subsection \<open>The abstract buffer\<close>

text \<open>\<open>Put\<close> appends at the back when there is room (\<open>cap = 0\<close> means no bound). \<open>Take\<close> is possible only
  for the first task that is not due at that time, and drops the due tasks before it. \<open>Expire\<close> drops
  the due tasks at the front. \<open>Discard\<close> drops the front, as \<^verbatim>\<open>RemoveNextPending\<close> does.\<close>

datatype buffer_op = Put Task | Take int64 Task | Expire int64 | Discard

fun buffer_do :: "size_t \<Rightarrow> buffer_op \<Rightarrow> Task list \<Rightarrow> Task list option" where
  "buffer_do cap (Put t) q = (if cap = 0 \<or> length q < unat cap then Some (q @ [t]) else None)"
| "buffer_do cap (Take cur t) q =
     (case dropWhile (is_expired cur) q of
        [] \<Rightarrow> None
      | first # rest \<Rightarrow> if t = first then Some rest else None)"
| "buffer_do cap (Expire cur) q = Some (dropWhile (is_expired cur) q)"
| "buffer_do cap Discard q = Some (tl q)"

fun buffer_run :: "size_t \<Rightarrow> buffer_op list \<Rightarrow> Task list \<Rightarrow> Task list option" where
  "buffer_run cap [] q = Some q"
| "buffer_run cap (x # xs) q = (case buffer_do cap x q of None \<Rightarrow> None | Some q' \<Rightarrow> buffer_run cap xs q')"

fun put_of :: "buffer_op \<Rightarrow> Task list" where
  "put_of (Put t) = [t]"
| "put_of x = []"

fun take_of :: "buffer_op \<Rightarrow> Task list" where
  "take_of (Take cur t) = [t]"
| "take_of x = []"

definition puts :: "buffer_op list \<Rightarrow> Task list" where
  "puts xs = concat (map put_of xs)"

definition takes :: "buffer_op list \<Rightarrow> Task list" where
  "takes xs = concat (map take_of xs)"

lemma puts_simps [simp]: "puts [] = []" "puts (x # xs) = put_of x @ puts xs" "puts (xs @ ys) = puts xs @ puts ys"
  by (simp_all add: puts_def)

lemma takes_simps [simp]:
  "takes [] = []" "takes (x # xs) = take_of x @ takes xs" "takes (xs @ ys) = takes xs @ takes ys"
  by (simp_all add: takes_def)

lemma buffer_run_append:
  "buffer_run cap xs q = Some q' \<Longrightarrow> buffer_run cap (xs @ ys) q = buffer_run cap ys q'"
  by (induction xs arbitrary: q) (auto split: option.splits)

subsection \<open>The simulation\<close>

text \<open>The operations \<open>xs\<close> match a step of the pool from \<open>s\<close> to \<open>t\<close>.\<close>

definition matched :: "pool_cfg \<Rightarrow> buffer_op list \<Rightarrow> pool \<Rightarrow> pool \<Rightarrow> bool" where
  "matched cfg xs s t \<longleftrightarrow> buffer_run (capacity cfg) xs (tasks (mgr s)) = Some (tasks (mgr t)) \<and>
     h_added t = h_added s @ puts xs \<and> h_started t = h_started s @ map mark_executing (takes xs) \<and>
     ((\<forall>i. \<not> pops cfg i) \<longrightarrow> Discard \<notin> set xs)"

lemma matched_same:
  "tasks (mgr t) = tasks (mgr s) \<Longrightarrow> h_added t = h_added s \<Longrightarrow> h_started t = h_started s \<Longrightarrow> \<exists>xs. matched cfg xs s t"
  by (rule exI [of _ "[]"]) (simp add: matched_def)

lemma matched_expire:
  assumes "tasks (mgr t) = dropWhile (is_expired cur) (tasks (mgr s))" "h_added t = h_added s" "h_started t = h_started s"
  shows "\<exists>xs. matched cfg xs s t"
  using assms by (intro exI [of _ "[Expire cur]"]) (simp add: matched_def)

lemma matched_put:
  assumes "capacity_inv cfg t" "tasks (mgr t) = tasks (mgr s) @ [x]" "h_added t = h_added s @ [x]" "h_started t = h_started s"
  shows "\<exists>xs. matched cfg xs s t"
  using assms by (intro exI [of _ "[Put x]"]) (auto simp: matched_def capacity_inv_def)

lemma matched_expire_put:
  assumes "capacity_inv cfg t" "tasks (mgr t) = dropWhile (is_expired cur) (tasks (mgr s)) @ [x]"
    "h_added t = h_added s @ [x]" "h_started t = h_started s"
  shows "\<exists>xs. matched cfg xs s t"
  using assms by (intro exI [of _ "[Expire cur, Put x]"]) (auto simp: matched_def capacity_inv_def)

lemma matched_worker: "worker_step s t \<Longrightarrow> \<exists>xs. matched cfg xs s t"
proof (induction rule: worker_step.induct)
  case (worker_sleep w s cur m')
  then show ?case by (intro matched_same) (auto dest!: worker_turn_SleepD)
next
  case (worker_leave w s cur m')
  then show ?case by (intro matched_same) (auto dest!: worker_turn_LeaveD)
next
  case (worker_proceed w s cur t' nm calls m' cs')
  define q where "q = dropWhile (is_expired cur) (tasks (mgr s))"
  have h: "tasks m' = tl q" "started t' = map mark_executing (take 1 q)"
    using turn_history [OF worker_proceed(2)] unfolding q_def by blast+
  show ?case
  proof (cases q)
    case Nil
    with h show ?thesis by (intro matched_expire [of _ cur]) (simp_all add: q_def del: dropWhile_eq_Nil_conv)
  next
    case (Cons x r)
    with h show ?thesis
      by (intro exI [of _ "[Take cur x]"]) (simp add: matched_def q_def [symmetric])
  qed
qed (rule matched_same; simp add: section_tasks)+

lemma matched_task: "task_step cfg s t \<Longrightarrow> capacity_inv cfg t \<Longrightarrow> \<exists>xs. matched cfg xs s t"
proof (induction rule: task_step.induct)
  case (add_queued i s e locked timeout cur cur2 v expiration notify calls m' ws')
  from Add_enter_queuedD [OF add_queued(4)] obtain task where
    "tasks m' = dropWhile (is_expired cur) (tasks (mgr s)) @ [task]" "Task_new cur2 v expiration = Inr task" by auto
  then show ?case using add_queued(6) by (intro matched_expire_put [of _ _ cur _ task]) simp_all
next
  case (add_waits i s e locked timeout cur cur2 v expiration calls m')
  then show ?case by (intro matched_expire [of _ cur]) (auto dest!: Add_enter_waitsD)
next
  case (add_throws i s e locked timeout cur cur2 v expiration x calls m')
  from Add_enter_throwsD [OF add_throws(4)] show ?case
    by (auto intro: matched_same matched_expire [of _ cur])
next
  case (add_resume_queued i s v timeout expiration cur notify calls m' ws')
  from Add_resume_queuedD [OF add_resume_queued(3)] obtain task where
    "tasks m' = tasks (mgr s) @ [task]" "Task_new cur v expiration = Inr task" by auto
  then show ?case using add_resume_queued(5) by (intro matched_put [of _ _ _ task]) simp_all
next
  case (add_resume_waits i s v timeout expiration cur calls m')
  then show ?case by (intro matched_same) (auto dest!: Add_resume_waitsD)
next
  case (remove_next_pending i s e r m')
  then show ?case by (intro exI [of _ "[Discard]"]) (auto simp: matched_def dest!: RemoveNextPendingD)
next
  case (remove_expired_tasks i s e cur calls m')
  then show ?case by (intro matched_expire [of _ cur]) (auto simp: RemoveExpiredTasks_split)
qed (rule matched_same; simp add: section_tasks)+

lemma matched_control: "control_step cfg s t \<Longrightarrow> \<exists>xs. matched cfg xs s t"
  by (induction rule: control_step.induct) (rule matched_same; simp add: section_tasks)+

lemma matched_step: "pool_step cfg s t \<Longrightarrow> capacity_inv cfg t \<Longrightarrow> \<exists>xs. matched cfg xs s t"
  by (metis matched_worker matched_task matched_control pool_step.cases)

definition buffered :: "pool_cfg \<Rightarrow> pool \<Rightarrow> bool" where
  "buffered cfg s \<longleftrightarrow> capacity_inv cfg s \<and> (\<exists>xs. buffer_run (capacity cfg) xs [] = Some (tasks (mgr s)) \<and>
     puts xs = h_added s \<and> map mark_executing (takes xs) = h_started s \<and>
     ((\<forall>i. \<not> pops cfg i) \<longrightarrow> Discard \<notin> set xs))"

lemma buffered_init: "pool_start s \<Longrightarrow> buffered cfg s"
  by (auto simp: buffered_def pool_start_def pool_init_def NewThreadManager_def Impl_new_def capacity_inv_init
      intro!: exI [of _ "[]"] capacity_inv_init)

lemma buffered_step:
  assumes "pool_step cfg s t" "buffered cfg s"
  shows "buffered cfg t"
proof -
  have cap: "capacity_inv cfg t" using assms cap.preserved by (auto simp: buffered_def)
  then obtain ys where ys: "matched cfg ys s t" using matched_step [OF assms(1)] by blast
  from assms(2) obtain xs where "buffer_run (capacity cfg) xs [] = Some (tasks (mgr s))" "puts xs = h_added s"
    "map mark_executing (takes xs) = h_started s" "(\<forall>i. \<not> pops cfg i) \<longrightarrow> Discard \<notin> set xs"
    by (auto simp: buffered_def)
  with ys cap show ?thesis
    by (auto simp: buffered_def matched_def buffer_run_append intro!: exI [of _ "xs @ ys"])
qed

interpretation buffer: inductive_invariant pool_start "pool_step cfg" "buffered cfg"
  by unfold_locales (blast intro: buffered_init buffered_step)+

text \<open>C7. Refinement. Whatever the clients do and however the threads are interleaved, the pool behaves
  as a bounded first-in-first-out buffer of the configured capacity. In every reachable state there is
  a history of buffer operations, each possible when it is made, that leads from the empty buffer to
  the pending queue, that puts exactly the tasks \<^verbatim>\<open>Add\<close> made, in that order, and that takes exactly
  the tasks handed to the workers (who get them marked \<^verbatim>\<open>EXECUTING\<close>), in that order. Nothing else removes
  a task but the expiry of its deadline and \<^verbatim>\<open>RemoveNextPending\<close>.\<close>

theorem pool_refines_bounded_buffer:
  assumes "reach cfg s"
  shows "\<exists>xs. buffer_run (capacity cfg) xs [] = Some (tasks (mgr s)) \<and> puts xs = h_added s \<and>
     map mark_executing (takes xs) = h_started s \<and> ((\<forall>i. \<not> pops cfg i) \<longrightarrow> Discard \<notin> set xs)"
  using buffer.always [OF assms] by (simp add: buffered_def)

theorem pool_refines_bounded_buffer_witness:
  "\<exists>xs. buffer_run 0 xs [] = Some [] \<and> puts xs = [ex_task] \<and> map mark_executing (takes xs) = [mark_executing ex_task] \<and>
     Discard \<notin> set xs"
  using pool_refines_bounded_buffer [OF run_to_joined] run_cfg_managed(2,3)
  by (simp add: ex_pool_def run_mgr_def)

end
