(* ===== verification/Pool_Ids.thy ===== *)
theory Pool_Ids
  imports Pool_Liveness
begin

text \<open>
  \<^verbatim>\<open>id_map_\<close>, by which \<^verbatim>\<open>CanSleep\<close> recognises a worker thread that calls \<^verbatim>\<open>Add\<close>: from the insertion in
  \<^verbatim>\<open>AddWorker\<close> on, the id of a worker is in it as long as the worker lives. A task that adds a task therefore
  never blocks its worker, except between the start of the thread and the insertion.
\<close>

subsection \<open>What a step does to the workers and their ids\<close>

fun live :: "stage \<Rightarrow> bool" where
  "live Starting = True"
| "live Inside = True"
| "live Leaving = True"
| "live g = False"

fun ended :: "stage \<Rightarrow> bool" where
  "ended Gone = True"
| "ended Stray = True"
| "ended g = False"

lemma ended_not_live: "ended g \<Longrightarrow> \<not> live g"
  by (cases g) auto

text \<open>The client \<open>i\<close> has started the worker \<open>w\<close> and not yet inserted its id.\<close>

definition inserting :: "nat \<Rightarrow> cpc list \<Rightarrow> bool" where
  "inserting w qs \<longleftrightarrow> (\<exists>i < length qs. \<exists>ths. qs ! i = C_AW_Insert w ths)"

lemma inserting_update:
  "i < length qs \<Longrightarrow> (\<forall>ths. qs ! i \<noteq> C_AW_Insert w ths) \<Longrightarrow> inserting w qs \<Longrightarrow> inserting w (qs[i := p])"
  unfolding inserting_def by (metis length_list_update nth_list_update_neq)

lemma inserting_notified:
  assumes "notified waiting wake n qs qs'" "\<And>v ths. \<not> waiting (C_AW_Insert v ths)" "inserting w qs"
  shows "inserting w qs'"
  using assms notified_nth [OF assms(1)] notified_length [OF assms(1)] unfolding inserting_def by metis

lemma inserting_signals:
  "signal_mgr n qs qs' \<Longrightarrow> inserting w qs \<Longrightarrow> inserting w qs'"
  "signal_add n qs qs' \<Longrightarrow> inserting w qs \<Longrightarrow> inserting w qs'"
  by (erule inserting_notified, simp, assumption)+

text \<open>A step that neither starts a worker nor removes an id.\<close>

definition calm :: "pool \<Rightarrow> pool \<Rightarrow> bool" where
  "calm s t \<longleftrightarrow> dom (id_map (mgr s)) \<subseteq> dom (id_map (mgr t)) \<and> length (ws s) \<le> length (ws t) \<and>
     (\<forall>w < length (ws t). live (stage_of (ws t ! w)) \<longrightarrow> w < length (ws s) \<and> live (stage_of (ws s ! w))) \<and>
     (\<forall>w < length (ws s). ended (stage_of (ws s ! w)) \<longrightarrow> ended (stage_of (ws t ! w))) \<and>
     (\<forall>w \<in> dead_workers (mgr t). w \<in> dead_workers (mgr s) \<or> w < length (ws t) \<and> ended (stage_of (ws t ! w))) \<and>
     (\<forall>w. inserting w (cs s) \<longrightarrow> inserting w (cs t))"

lemma calm_update:
  assumes "w < length (ws s)" "ws t = (ws s)[w := p]" "id_map (mgr t) = id_map (mgr s)"
    and "live (stage_of p) \<longrightarrow> live (stage_of (ws s ! w))" "ended (stage_of (ws s ! w)) \<longrightarrow> ended (stage_of p)"
    and "dead_workers (mgr t) = dead_workers (mgr s) \<or> dead_workers (mgr t) = insert w (dead_workers (mgr s)) \<and> ended (stage_of p)"
    and "\<And>v. inserting v (cs s) \<Longrightarrow> inserting v (cs t)"
  shows "calm s t"
  using assms by (auto simp: calm_def nth_list_update)

lemma calm_stages:
  assumes "map stage_of (ws t) = map stage_of (ws s)" "dom (id_map (mgr s)) \<subseteq> dom (id_map (mgr t))"
    and "dead_workers (mgr t) = dead_workers (mgr s)" "\<And>v. inserting v (cs s) \<Longrightarrow> inserting v (cs t)"
  shows "calm s t"
proof -
  have len: "length (ws t) = length (ws s)" using assms(1) by (rule map_eq_imp_length_eq)
  moreover have "w < length (ws s) \<Longrightarrow> stage_of (ws t ! w) = stage_of (ws s ! w)" for w
    using assms(1) len by (metis nth_map)
  ultimately show ?thesis using assms(2-4) by (simp add: calm_def)
qed

lemma Worker_enter_ids: "Worker_enter m = (a, n, m') \<Longrightarrow> id_map m' = id_map m \<and> dead_workers m' = dead_workers m"
  by (auto simp: Worker_enter_def Let_def split: if_splits)

lemma calm_worker: "worker_step s t \<Longrightarrow> calm s t"
proof (induction rule: worker_step.induct)
  case (worker_enter w s active nm m')
  with Worker_enter_ids [OF worker_enter(3)] show ?case by (intro calm_update [of w]) auto
next
  case (worker_notify w s cs')
  then show ?case by (intro calm_update [of w]) (auto intro: inserting_signals)
next
  case (worker_sleep w s cur m')
  with worker_turn_SleepD [OF worker_sleep(2)] show ?case by (intro calm_update [of w]) auto
next
  case (worker_proceed w s cur t' nm calls m' cs')
  from worker_proceed(3) have "inserting v (cs s) \<Longrightarrow> inserting v cs'" for v
    by (auto intro: inserting_signals split: if_splits)
  with worker_proceed(1) worker_turn_ProceedD [OF worker_proceed(2)] show ?case by (intro calm_update [of w]) auto
next
  case (worker_leave w s cur m')
  with worker_turn_LeaveD [OF worker_leave(2)] show ?case by (intro calm_update [of w]) auto
next
  case (worker_run w s t)
  then show ?case by (intro calm_update [of w]) auto
next
  case (worker_exit w s c nm m' cs')
  from worker_exit(4) have "inserting v (cs s) \<Longrightarrow> inserting v cs'" for v
    by (auto intro: inserting_signals split: if_splits)
  with worker_exit(1,2) Worker_exitD [OF worker_exit(3)] show ?case by (intro calm_update [of w]) (auto split: if_splits)
next
  case (worker_spurious w s)
  then show ?case by (intro calm_update [of w]) auto
qed

lemma task_step_ids:
  "task_step cfg s t \<Longrightarrow> id_map (mgr t) = id_map (mgr s) \<and> dead_workers (mgr t) = dead_workers (mgr s)"
proof (induction rule: task_step.induct)
  case (add_queued i s e locked timeout cur cur2 v expiration notify calls m' ws')
  then show ?case by (auto dest!: Add_enter_queuedD)
next
  case (add_waits i s e locked timeout cur cur2 v expiration calls m')
  then show ?case by (auto dest!: Add_enter_waitsD)
next
  case (add_throws i s e locked timeout cur cur2 v expiration x calls m')
  then show ?case by (auto dest!: Add_enter_throwsD)
next
  case (add_resume_queued i s v timeout expiration cur notify calls m' ws')
  then show ?case by (auto dest!: Add_resume_queuedD)
next
  case (add_resume_waits i s v timeout expiration cur calls m')
  then show ?case by (auto dest!: Add_resume_waitsD)
next
  case (remove_next_pending i s e r m')
  then show ?case by (auto dest!: RemoveNextPendingD)
next
  case (remove_expired_tasks i s e cur calls m')
  then show ?case by (auto simp: RemoveExpiredTasks_split)
qed (auto simp: ExpiredTaskCount_def SetExpireCallback_def)

lemma calm_task:
  assumes "task_step cfg s t"
  shows "calm s t"
proof (rule calm_stages)
  show "map stage_of (ws t) = map stage_of (ws s)" using task_step_clients [OF assms] by blast
  show "dom (id_map (mgr s)) \<subseteq> dom (id_map (mgr t))" "dead_workers (mgr t) = dead_workers (mgr s)"
    using task_step_ids [OF assms] by simp_all
  obtain i p where "i < length (cs s)" "client (cs s ! i)" "cs t = (cs s)[i := p]"
    using task_step_clients [OF assms] by (auto simp: client_move_def)
  then show "inserting v (cs s) \<Longrightarrow> inserting v (cs t)" for v by (auto intro!: inserting_update)
qed

subsection \<open>The invariant\<close>

text \<open>Thread ids may be used again after a thread has ended, and \<^verbatim>\<open>RemoveWorker\<close> removes the ids of the dead workers.
  So either ids are not reused or the pool is managed, where no worker lives when ids are removed.\<close>

definition ids_ok :: "pool_cfg \<Rightarrow> nat \<Rightarrow> pool \<Rightarrow> bool" where
  "ids_ok cfg c s \<longleftrightarrow> inj (pid cfg) \<or> managed cfg c \<and> length (ws s) < 2 ^ 64"

definition id_inv :: "pool_cfg \<Rightarrow> nat \<Rightarrow> pool \<Rightarrow> bool" where
  "id_inv cfg c s \<longleftrightarrow> (\<forall>w \<in> dead_workers (mgr s). w < length (ws s) \<and> ended (stage_of (ws s ! w))) \<and>
     (ids_ok cfg c s \<longrightarrow> (\<forall>w < length (ws s). live (stage_of (ws s ! w)) \<longrightarrow>
        pid cfg w \<in> dom (id_map (mgr s)) \<or> inserting w (cs s)))"

lemma id_inv_calm:
  assumes "calm s t" "id_inv cfg c s"
  shows "id_inv cfg c t"
proof -
  have "ids_ok cfg c t \<Longrightarrow> ids_ok cfg c s" using assms(1) by (auto simp: ids_ok_def calm_def)
  then have listed: "ids_ok cfg c t \<Longrightarrow> w < length (ws s) \<Longrightarrow> live (stage_of (ws s ! w)) \<Longrightarrow>
      pid cfg w \<in> dom (id_map (mgr s)) \<or> inserting w (cs s)" for w
    using assms(2) by (auto simp: id_inv_def)
  have "\<forall>w \<in> dead_workers (mgr t). w < length (ws t) \<and> ended (stage_of (ws t ! w))"
    using assms unfolding calm_def id_inv_def by (meson order_less_le_trans)
  moreover have "pid cfg w \<in> dom (id_map (mgr t)) \<or> inserting w (cs t)"
    if "ids_ok cfg c t" "w < length (ws t)" "live (stage_of (ws t ! w))" for w
    using listed [of w] assms(1) that unfolding calm_def by blast
  ultimately show ?thesis by (simp add: id_inv_def)
qed

lemma same_ids [simp]:
  "id_map (SetExpireCallback cb m) = id_map m" "id_map (SetThreadFactory f m) = id_map m"
  "id_map (SetPendingTaskCountMax v m) = id_map m" "id_map (AddWorker_publish v T m) = id_map m"
  "id_map (StopImpl_finish m) = id_map m"
  "dead_workers (SetExpireCallback cb m) = dead_workers m" "dead_workers (SetThreadFactory f m) = dead_workers m"
  "dead_workers (SetPendingTaskCountMax v m) = dead_workers m" "dead_workers (AddWorker_publish v T m) = dead_workers m"
  "dead_workers (StopImpl_finish m) = dead_workers m" "dead_workers (id_map_insert k w m) = dead_workers m"
  "dead_workers (RemoveWorker_clean g m) = {}" "dom (id_map (id_map_insert k w m)) = insert k (dom (id_map m))"
  "dom (id_map (RemoveWorker_clean g m)) = dom (id_map m) - g ` dead_workers m"
  by (auto simp: SetExpireCallback_def SetThreadFactory_def SetPendingTaskCountMax_def AddWorker_publish_def
      StopImpl_finish_def id_map_insert_def RemoveWorker_clean_def)

lemma Start_ids: "Start m = Inr (n, m') \<Longrightarrow> id_map m' = id_map m \<and> dead_workers m' = dead_workers m"
  by (auto dest!: StartD)

lemma calm_client:
  assumes "i < length (cs s)" "\<forall>w ths. cs s ! i \<noteq> C_AW_Insert w ths" "cs t = (cs s)[i := p]"
    and "map stage_of (ws t) = map stage_of (ws s)" "id_map (mgr t) = id_map (mgr s)" "dead_workers (mgr t) = dead_workers (mgr s)"
  shows "calm s t"
  using assms by (intro calm_stages) (auto intro: inserting_update)

lemma stage_wake: "stage_of (wake_worker p) = stage_of p"
  by (cases p) auto

text \<open>The three steps that are not calm.\<close>

lemma id_inv_start:
  assumes "i < length (cs s)" "cs s ! i = C_AW_Start (w # ths)" "id_inv cfg c s"
  shows "id_inv cfg c (s\<lparr>ws := (ws s)[w := start_thread b (ws s ! w)], cs := (cs s)[i := C_AW_Insert w ths]\<rparr>)"
proof -
  have ins: "inserting w ((cs s)[i := C_AW_Insert w ths])" using assms(1) unfolding inserting_def
    by (metis length_list_update nth_list_update_eq)
  have keeps: "inserting v (cs s) \<Longrightarrow> inserting v ((cs s)[i := C_AW_Insert w ths])" for v
    using assms(1,2) by (auto intro: inserting_update)
  have st: "ended (stage_of p) \<Longrightarrow> start_thread b p = p" for p by (auto simp: start_thread_def)
  show ?thesis
    using assms(3) ins keeps st by (cases "w < length (ws s)")
      (auto simp: id_inv_def ids_ok_def nth_list_update list_update_beyond split: if_splits)
qed

lemma id_inv_insert:
  assumes "i < length (cs s)" "cs s ! i = C_AW_Insert w ths" "id_inv cfg c s"
  shows "id_inv cfg c (s\<lparr>mgr := id_map_insert (pid cfg w) w (mgr s), cs := (cs s)[i := C_AW_Start ths]\<rparr>)"
proof -
  have "inserting v (cs s) \<Longrightarrow> v = w \<or> inserting v ((cs s)[i := C_AW_Start ths])" for v
    using assms(1,2) inserting_update [of i "cs s" v] by auto
  then show ?thesis using assms(3) by (auto simp: id_inv_def ids_ok_def)
qed

lemma id_inv_clean:
  assumes "i < length (cs s)" "cs s ! i = C_RW_Check k" "workers_settled (mgr s)" "id_inv cfg c s"
    and inv: "counter_inv s" "managed_inv cfg c s"
  shows "id_inv cfg c (s\<lparr>mgr := RemoveWorker_clean (pid cfg) (mgr s), cs := (cs s)[i := p]\<rparr>)"
proof -
  have keeps: "inserting v (cs s) \<Longrightarrow> inserting v ((cs s)[i := p])" for v
    using assms(1,2) by (auto intro: inserting_update)
  have "pid cfg w \<notin> pid cfg ` dead_workers (mgr s)"
    if ok: "ids_ok cfg c s" and w: "w < length (ws s)" "live (stage_of (ws s ! w))" for w
  proof (cases "inj (pid cfg)")
    case True
    have "w \<notin> dead_workers (mgr s)" using assms(4) w(2) ended_not_live by (auto simp: id_inv_def)
    with True show ?thesis by (auto simp: inj_def)
  next
    case False
    with ok have m: "managed cfg c" "length (ws s) < 2 ^ 64" by (auto simp: ids_ok_def)
    with inv(2) have o: "orderly c (ws s) (worker_max_count (mgr s)) (cs s)" by (simp add: managed_inv_def)
    with assms(1,2) have "i = c" by (auto simp: orderly_def)
    with o assms(1,2) have z: "worker_max_count (mgr s) = 0" "number Starting (ws s) = 0"
      by (auto simp: orderly_def pc_of_def)
    with control_count [OF inv(1) o m(2)] assms(3) have "number Inside (ws s) = 0" "number Leaving (ws s) = 0" by auto
    with z(2) number_pos [OF w(1)] w(2) show ?thesis by (cases "stage_of (ws s ! w)") fastforce+
  qed
  with assms(4) keeps show ?thesis by (auto simp: id_inv_def ids_ok_def)
qed

lemma id_inv_control:
  "control_step cfg s t \<Longrightarrow> counter_inv s \<Longrightarrow> managed_inv cfg c s \<Longrightarrow> id_inv cfg c s \<Longrightarrow> id_inv cfg c t"
proof (induction rule: control_step.induct)
  case (mgr_spurious i s)
  then have "\<forall>w ths. cs s ! i \<noteq> C_AW_Insert w ths" by auto
  with mgr_spurious show ?case by - (rule id_inv_calm [OF calm_client [of i]], auto)
next
  case (start_ok i s e notify m' ws')
  then show ?case by - (rule id_inv_calm [OF calm_client [of i]], auto simp: Start_ids stage_wake)
next
  case (simple_start_ok i s sm notify m' ws')
  then show ?case by - (rule id_inv_calm [OF calm_client [of i]], auto simp: Start_ids stage_wake)
next
  case (add_worker_create i s v ths)
  then show ?case
    by - (rule id_inv_calm [rotated], auto simp: calm_def nth_append intro: inserting_update split: if_splits)
next
  case (add_worker_start i s w ths)
  then show ?case by (intro id_inv_start)
next
  case (add_worker_insert i s w ths)
  then show ?case by (intro id_inv_insert)
next
  case (remove_worker_request i s k v n m' ws')
  then show ?case
    by - (rule id_inv_calm [OF calm_client [of i]], auto simp: stage_notify_workers dest!: RemoveWorker_requestD)
next
  case (remove_worker_clean i s k)
  then show ?case by (intro id_inv_clean)
next
  case (stop_claim i s join do_stop m')
  then show ?case by - (rule id_inv_calm [OF calm_client [of i]], auto dest!: StopImpl_claimD)
qed (rule id_inv_calm, rule calm_client; auto)+

lemma id_inv_init: "pool_start s \<Longrightarrow> id_inv cfg c s"
  by (auto simp: pool_start_def pool_init_def id_inv_def NewThreadManager_def Impl_new_def)

lemma id_inv_step:
  "pool_step cfg s t \<Longrightarrow> counter_inv s \<Longrightarrow> managed_inv cfg c s \<Longrightarrow> id_inv cfg c s \<Longrightarrow> id_inv cfg c t"
  by (metis pool_step.cases id_inv_control id_inv_calm calm_worker calm_task)

interpretation ids: relative_invariant pool_start "pool_step cfg"
  "\<lambda>s. counter_inv s \<and> managed_inv cfg c s" "id_inv cfg c"
  by unfold_locales (auto intro: mgd.both.initially mgd.both.preserved id_inv_init elim: id_inv_step)

subsection \<open>A run into the gap\<close>

text \<open>The run of \<open>Pool_Invariants\<close> goes on: client 0 creates and starts the worker; before client 0 inserts
  the worker's id, the worker takes the task and client 1 fills the queue.\<close>

definition gap_mgr :: "size_t \<Rightarrow> size_t \<Rightarrow> Task list \<Rightarrow> thread_ref set \<Rightarrow> (pthread_t \<rightharpoonup> thread_ref) \<Rightarrow> Impl" where
  "gap_mgr n mx ts wk ids = ex_started\<lparr>worker_count := n, worker_max_count := mx, tasks := ts, workers := wk, id_map := ids\<rparr>"

lemmas gap_defs = gap_mgr_def ex_started_def ex_pool_def Impl_new_def ex_cfg_def

abbreviation gap_pool :: "Impl \<Rightarrow> wpc \<Rightarrow> cpc \<Rightarrow> Task list \<Rightarrow> Task list \<Rightarrow> pool" where
  "gap_pool m q pc added removed \<equiv> ex_pool m [q] [pc, C_Ret None] added removed"

lemma gap_control: "reach ex_cfg s \<Longrightarrow> control_step ex_cfg s t \<Longrightarrow> reach ex_cfg t"
  by (blast intro: reachable_step by_control)

lemma gap_worker: "reach ex_cfg s \<Longrightarrow> worker_step s t \<Longrightarrow> reach ex_cfg t"
  by (blast intro: reachable_step by_worker)

lemma gap_run_started: "reach ex_cfg (gap_pool (gap_mgr 0 1 [ex_task] {0} Map.empty) W_Start (C_AW_Insert 0 []) [ex_task] [])"
proof -
  let ?m = "\<lambda>mx wk. gap_mgr 0 mx [ex_task] wk Map.empty"
  have "reach ex_cfg (ex_pool (?m 0 {}) [] [C_AW_Begin 1, C_Ret None] [ex_task] [])"
    using ex_run_added by (simp add: gap_defs)
  then have "reach ex_cfg (gap_pool (?m 0 {}) W_Created (C_AW_Publish 1 [0]) [ex_task] [])"
    by (rule gap_control)
      (use add_worker_create [of 0 "ex_pool (?m 0 {}) [] [C_AW_Begin 1, C_Ret None] [ex_task] []" 1 "[0]" ex_cfg] in
        \<open>simp add: gap_defs\<close>)
  then have "reach ex_cfg (gap_pool (?m 1 {0}) W_Created (C_AW_Start [0]) [ex_task] [])"
    by (rule gap_control)
      (use add_worker_publish [of 0 "gap_pool (?m 0 {}) W_Created (C_AW_Publish 1 [0]) [ex_task] []" 1 "[0]" ex_cfg] in
        \<open>simp add: gap_defs AddWorker_publish_def\<close>)
  then show ?thesis
    by (rule gap_control)
      (use add_worker_start [of 0 "gap_pool (?m 1 {0}) W_Created (C_AW_Start [0]) [ex_task] []" 0 "[]" ex_cfg] in
        \<open>simp add: gap_defs start_thread_def\<close>)
qed

lemma gap_run_busy:
  "reach ex_cfg (gap_pool (gap_mgr 1 1 [] {0} Map.empty) (W_Run (Some (mark_executing ex_task))) (C_AW_Insert 0 []) [ex_task] [ex_task])"
proof -
  let ?m = "\<lambda>n ts. gap_mgr n 1 ts {0} Map.empty" and ?k = "C_AW_Insert 0 []"
  from gap_run_started have "reach ex_cfg (gap_pool (?m 1 [ex_task]) W_NotifyMgr ?k [ex_task] [])"
    by (rule gap_worker)
      (use worker_enter [of 0 "gap_pool (?m 0 [ex_task]) W_Start ?k [ex_task] []" True True "?m 1 [ex_task]"] in
        \<open>simp add: gap_defs Worker_enter_def\<close>)
  then have "reach ex_cfg (gap_pool (?m 1 [ex_task]) W_Loop ?k [ex_task] [])"
    by (rule gap_worker)
      (use worker_notify [of 0 "gap_pool (?m 1 [ex_task]) W_NotifyMgr ?k [ex_task] []" "[?k, C_Ret None]"] in
        \<open>simp add: gap_defs notified_def\<close>)
  then show ?thesis
    by (rule gap_worker)
      (use worker_proceed [of 0 "gap_pool (?m 1 [ex_task]) W_Loop ?k [ex_task] []" 5 "Some (mark_executing ex_task)" True "[]"
          "?m 1 []" "[?k, C_Ret None]"] in
        \<open>simp add: gap_defs notified_def taken_def Worker_top_def Worker_loop_eq Worker_take_eq IsActive_def expire_def
          RemoveExpiredTasks_eq is_expired_def callback_calls_def ex_task_def\<close>)
qed

lemma gap_add:
  assumes "reach ex_cfg (gap_pool (gap_mgr 1 1 ts {0} Map.empty) q k added removed)" "ts = [] \<or> ts = [ex_task]"
  shows "reach ex_cfg (gap_pool (gap_mgr 1 1 (ts @ [ex_task]) {0} Map.empty) q k (added @ [ex_task]) removed)"
proof (rule reachable_step [OF assms(1) by_task])
  let ?m = "\<lambda>ts. gap_mgr 1 1 ts {0} Map.empty"
  have "RemoveExpiredTasks 5 (?m ts) = ([], ?m ts)"
    using assms(2) by (auto simp: RemoveExpiredTasks_eq is_expired_def callback_calls_def gap_defs ex_task_def)
  then have "Add_enter True 1 5 5 7 0 0 (?m ts) = Add_queued False [] (?m (ts @ [ex_task]))"
    using assms(2) by (auto simp: Add_enter_def queue_full_def tasks_size_def Add_push_def Task_new_def gap_defs ex_task_def word_le_nat_alt)
  with add_queued [of 1 "gap_pool (?m ts) q k added removed" None True 0 ex_cfg 5 5 7 0 False "[]" "?m (ts @ [ex_task])" "[q]"]
  show "task_step ex_cfg (gap_pool (?m ts) q k added removed) (gap_pool (?m (ts @ [ex_task])) q k (added @ [ex_task]) removed)"
    using assms(2) by (auto simp: ex_pool_def ex_cfg_def new_task_def Task_new_def ex_task_def gap_mgr_def is_expired_def)
qed

abbreviation gap_full :: "cpc \<Rightarrow> (pthread_t \<rightharpoonup> thread_ref) \<Rightarrow> pool" where
  "gap_full k ids \<equiv> gap_pool (gap_mgr 1 1 [ex_task, ex_task] {0} ids) (W_Run (Some (mark_executing ex_task))) k
     [ex_task, ex_task, ex_task] [ex_task]"

lemma gap_run_full: "reach ex_cfg (gap_full (C_AW_Insert 0 []) Map.empty)"
  using gap_add [OF gap_add [OF gap_run_busy]] by simp

lemma gap_run_inserted: "reach ex_cfg (gap_full (C_AW_Start []) [100 \<mapsto> 0])"
  by (rule gap_control [OF gap_run_full])
    (use add_worker_insert [of 0 "gap_full (C_AW_Insert 0 []) Map.empty" 0 "[]" ex_cfg] in
      \<open>simp add: gap_defs id_map_insert_def\<close>)

subsection \<open>Properties\<close>

text \<open>C17. But for a gap in \<^verbatim>\<open>AddWorker\<close>, a task never blocks the worker that runs it in \<^verbatim>\<open>Add\<close>, however the threads are interleaved. The id of a
  worker that runs a task is in \<^verbatim>\<open>id_map_\<close>, unless the thread that started it is just between \<^verbatim>\<open>Start()\<close> and the
  insertion. Hence a call of \<^verbatim>\<open>Add\<close> by the task does not wait for room in the queue, whatever its timeout: on a full queue
  of a started pool, once it has the mutex, it throws \<^verbatim>\<open>TooManyPendingTasksException\<close>, with the queue as it was, less the
  expired tasks at its front. Assumed is that no
  thread id is reused or that the pool is managed (one controlling thread, no \<^verbatim>\<open>RemoveWorker\<close>, every \<^verbatim>\<open>pthread_create\<close> succeeds,
  fewer than \<open>2 ^ 64\<close> workers).\<close>

theorem worker_never_waits_in_Add:
  assumes "reach cfg s" and "inj (pid cfg) \<or> managed cfg c \<and> length (ws s) < 2 ^ 64"
    and "w < length (ws s)" and "ws s ! w = W_Run t"
    and "\<forall>i < length (cs s). \<forall>ths. cs s ! i \<noteq> C_AW_Insert w ths"
  shows "pid cfg w \<in> dom (id_map (mgr s)) \<and>
    Add_enter locked (pid cfg w) cur cur2 v timeout expiration (mgr s) \<noteq> Add_waits calls m' \<and>
    (tm_state (mgr s) = STARTED \<and> queue_full (expire cur (mgr s)) \<longrightarrow>
       Add_enter True (pid cfg w) cur cur2 v timeout expiration (mgr s) =
         Add_throws TooManyPendingTasks_default (fst (RemoveExpiredTasks cur (mgr s))) (expire cur (mgr s)))"
proof -
  have "id_inv cfg c s" using ids.both.always [OF assms(1)] by blast
  moreover have "\<not> inserting w (cs s)" using assms(5) by (auto simp: inserting_def)
  ultimately have "pid cfg w \<in> dom (id_map (mgr s))"
    using assms(2-4) by (auto simp: id_inv_def ids_ok_def)
  moreover from this have sleep: "\<not> CanSleep (pid cfg w) (mgr s)" by (auto simp: CanSleep_def)
  then have "Add_enter locked (pid cfg w) cur cur2 v timeout expiration (mgr s) \<noteq> Add_waits calls m'"
    using Add_enter_waitsD by blast
  moreover have "Add_enter True (pid cfg w) cur cur2 v timeout expiration (mgr s) =
      Add_throws TooManyPendingTasks_default (fst (RemoveExpiredTasks cur (mgr s))) (expire cur (mgr s))"
    if "tm_state (mgr s) = STARTED" "queue_full (expire cur (mgr s))"
    using that sleep by (simp add: Add_enter_def RemoveExpiredTasks_split CanSleep_def)
  ultimately show ?thesis by blast
qed

theorem worker_never_waits_in_Add_witness:
  "Add_enter True 100 5 5 7 0 0 (mgr (gap_full (C_AW_Start []) [100 \<mapsto> 0])) =
     Add_throws TooManyPendingTasks_default [] (mgr (gap_full (C_AW_Start []) [100 \<mapsto> 0]))"
  using worker_never_waits_in_Add [OF gap_run_inserted, of 0 0 "Some (mark_executing ex_task)" True 5 5 7 0 0]
  by (simp add: gap_defs inj_def nth_Cons' expire_def RemoveExpiredTasks_eq is_expired_def callback_calls_def ex_task_def
      queue_full_def tasks_size_def)

text \<open>C40. The gap is real: a pool reaches a state in which a worker that runs a task is not in \<^verbatim>\<open>id_map_\<close> yet and the
  queue is full. If the task calls \<^verbatim>\<open>Add\<close> then, the worker waits for room in the queue, which only workers make.\<close>

theorem worker_can_wait_in_Add:
  "\<exists>s. reach ex_cfg s \<and> ws s = [W_Run (Some (mark_executing ex_task))] \<and> cs s ! 0 = C_AW_Insert 0 [] \<and>
     Add_enter True (pid ex_cfg 0) 5 5 7 0 0 (mgr s) = Add_waits [] (mgr s)"
proof (intro exI conjI)
  show "reach ex_cfg (gap_full (C_AW_Insert 0 []) Map.empty)" by (rule gap_run_full)
qed (simp_all add: gap_defs Add_enter_def RemoveExpiredTasks_eq queue_full_def tasks_size_def CanSleep_def
    callback_calls_def is_expired_def ex_task_def)

end
