(* ===== verification/Splitter.thy ===== *)
theory Splitter
  imports Thread_Manager
begin

text \<open>
  \<^verbatim>\<open>src/splitter/splitter_strategy.h\<close>, \<^verbatim>\<open>src/splitter/splitter_job.h\<close> and the job classes of
  \<^verbatim>\<open>src/splitter/splitter_job_scheduler.h\<close>. The class \<^verbatim>\<open>EpubSplitter\<close> comes from a third-party
  header that is not part of the repository: it is a parameter, a record of its three
  operations on an abstract object. The observers of a job are weak pointers: \<open>alive\<close> says
  which of them can still be locked.
\<close>

subsection \<open>std::to_string\<close>

definition digit :: "nat \<Rightarrow> char" where
  "digit d = char_of (48 + d)"

fun nat_string :: "nat \<Rightarrow> string" where
  "nat_string n = (if n < 10 then [digit n] else nat_string (n div 10) @ [digit (n mod 10)])"

declare nat_string.simps [simp del]

definition to_string :: "int \<Rightarrow> string" where
  "to_string i = (if i < 0 then ''-'' @ nat_string (nat (- i)) else nat_string (nat i))"

text \<open>Reading the digits back.\<close>

definition digit_value :: "char \<Rightarrow> nat" where
  "digit_value c = of_char c - 48"

definition nat_value :: "string \<Rightarrow> nat" where
  "nat_value s = foldl (\<lambda>v c. 10 * v + digit_value c) 0 s"

lemma digit_value_digit: "d < 10 \<Longrightarrow> digit_value (digit d) = d"
  by (simp add: digit_value_def digit_def)

lemma nat_value_nat_string: "nat_value (nat_string n) = n"
proof (induction n rule: nat_string.induct)
  case (1 n)
  show ?case
  proof (cases "n < 10")
    case True
    then show ?thesis by (simp add: nat_string.simps [of n] nat_value_def digit_value_digit)
  next
    case False
    with 1 have "nat_value (nat_string (n div 10)) = n div 10" by simp
    with False show ?thesis
      by (simp add: nat_string.simps [of n] nat_value_def digit_value_digit)
  qed
qed

lemma nat_string_inject: "nat_string m = nat_string n \<Longrightarrow> m = n"
  by (metis nat_value_nat_string)

subsection \<open>SplitterStrategy, EpubSectionSplitter\<close>

datatype State = OK | ERROR

definition MakePartialName :: "string \<Rightarrow> int \<Rightarrow> string \<Rightarrow> string" where
  "MakePartialName book_path index book_suffix = book_path @ ''_'' @ to_string index @ book_suffix"

record 'e epub_api =
  EpubSplitter_new :: "string \<Rightarrow> 'e"
  GetSectionCount :: "'e \<Rightarrow> int \<times> 'e"
  EpubSplitter_Split :: "int \<Rightarrow> string \<Rightarrow> 'e \<Rightarrow> bool \<times> 'e"

text \<open>The loop of \<open>Split\<close> from index \<open>i\<close> on, \<open>n\<close> sections left.\<close>

fun Split_loop ::
  "'e epub_api \<Rightarrow> string \<Rightarrow> int \<Rightarrow> nat \<Rightarrow> 'e \<Rightarrow> (string \<times> State) list \<Rightarrow> bool \<times> (string \<times> State) list" where
  "Split_loop api book_path i 0 e output_paths = (True, output_paths)"
| "Split_loop api book_path i (Suc n) e output_paths =
     (let output_name = MakePartialName book_path i ''_.epub'';
          (ok, e') = EpubSplitter_Split api i output_name e;
          state = (if ok then OK else ERROR);
          output_paths' = output_paths @ [(output_name, state)]
      in if state = ERROR then (False, output_paths')
         else Split_loop api book_path (i + 1) n e' output_paths')"

definition EpubSectionSplitter_Split ::
  "'e epub_api \<Rightarrow> string \<Rightarrow> (string \<times> State) list \<Rightarrow> bool \<times> (string \<times> State) list" where
  "EpubSectionSplitter_Split api book_path output_paths =
     (let epub_splitter = EpubSplitter_new api book_path;
          (section_count, e) = GetSectionCount api epub_splitter
      in if section_count \<le> 0 then (False, output_paths)
         else Split_loop api book_path 0 (nat section_count) e output_paths)"

subsection \<open>ObservableSplitterJob\<close>

type_synonym observer = nat

record SplitterJob =
  observer_list :: "observer list"
  book_path :: string
  output_paths :: "(string \<times> State) list"
  has_splitter :: bool

definition ObservableSplitterJob_new :: SplitterJob where
  "ObservableSplitterJob_new =
     \<lparr>observer_list = [], book_path = '''', output_paths = [], has_splitter = False\<rparr>"

definition SetBookPath :: "string \<Rightarrow> SplitterJob \<Rightarrow> SplitterJob" where
  "SetBookPath p job = job\<lparr>book_path := p\<rparr>"

definition GetBookPath :: "SplitterJob \<Rightarrow> string" where
  "GetBookPath job = book_path job"

definition SetSplitterStrategy :: "bool \<Rightarrow> SplitterJob \<Rightarrow> SplitterJob" where
  "SetSplitterStrategy nonnull job = job\<lparr>has_splitter := nonnull\<rparr>"

definition CreateJob :: SplitterJob where
  "CreateJob = SetSplitterStrategy True ObservableSplitterJob_new"

text \<open>\<^verbatim>\<open>weak_ptr::lock\<close>; two expired pointers lock to the same null pointer.\<close>

definition weak_lock :: "(observer \<Rightarrow> bool) \<Rightarrow> observer \<Rightarrow> observer option" where
  "weak_lock alive w = (if alive w then Some w else None)"

definition RegisterObserver :: "(observer \<Rightarrow> bool) \<Rightarrow> observer \<Rightarrow> SplitterJob \<Rightarrow> SplitterJob" where
  "RegisterObserver alive w job =
     (if \<exists>o' \<in> set (observer_list job). weak_lock alive w = weak_lock alive o' then job
      else job\<lparr>observer_list := observer_list job @ [w]\<rparr>)"

text \<open>\<open>UnRegisterObserver\<close> erases the element its iterator points to and then increments the
  iterator, which has no meaning after \<^verbatim>\<open>erase\<close>: a match has no defined outcome.\<close>

fun UnRegister_loop :: "(observer \<Rightarrow> bool) \<Rightarrow> observer \<Rightarrow> observer list \<Rightarrow> observer list res" where
  "UnRegister_loop alive w [] = Inr []"
| "UnRegister_loop alive w (x # xs) =
     (if weak_lock alive x = weak_lock alive w then Inl Undefined
      else bind_res (UnRegister_loop alive w xs) (\<lambda>ys. Inr (x # ys)))"

definition UnRegisterObserver :: "(observer \<Rightarrow> bool) \<Rightarrow> observer \<Rightarrow> SplitterJob \<Rightarrow> SplitterJob res" where
  "UnRegisterObserver alive w job =
     bind_res (UnRegister_loop alive w (observer_list job)) (\<lambda>xs. Inr (job\<lparr>observer_list := xs\<rparr>))"

text \<open>The observers called, in order; an expired one is a null pointer that is dereferenced.\<close>

fun Notify_loop :: "(observer \<Rightarrow> bool) \<Rightarrow> observer list \<Rightarrow> observer list res" where
  "Notify_loop alive [] = Inr []"
| "Notify_loop alive (x # xs) =
     (case weak_lock alive x of
        None \<Rightarrow> Inl Undefined
      | Some ob \<Rightarrow> bind_res (Notify_loop alive xs) (\<lambda>calls. Inr (ob # calls)))"

definition NotifyAllObservers :: "(observer \<Rightarrow> bool) \<Rightarrow> SplitterJob \<Rightarrow> observer list res" where
  "NotifyAllObservers alive job = Notify_loop alive (observer_list job)"

text \<open>\<open>Run\<close> drops the result of \<open>Split\<close>: the observers are told that the job is complete either way.\<close>

definition Job_Run ::
  "'e epub_api \<Rightarrow> (observer \<Rightarrow> bool) \<Rightarrow> SplitterJob \<Rightarrow> (SplitterJob \<times> observer list) res" where
  "Job_Run api alive job =
     (if \<not> has_splitter job then Inl Undefined
      else let job' = job\<lparr>output_paths := snd (EpubSectionSplitter_Split api (book_path job) (output_paths job))\<rparr>
           in bind_res (NotifyAllObservers alive job') (\<lambda>calls. Inr (job', calls)))"

subsection \<open>Lemmas\<close>

lemma MakePartialName_inject:
  "0 \<le> i \<Longrightarrow> 0 \<le> j \<Longrightarrow> MakePartialName b i s = MakePartialName b j s \<Longrightarrow> i = j"
  by (auto simp: MakePartialName_def to_string_def split: if_splits dest!: nat_string_inject)

text \<open>What the book object answers when its sections are asked for one after the other, each call on
  the object as the one before left it.\<close>

fun section_results :: "'e epub_api \<Rightarrow> string \<Rightarrow> int \<Rightarrow> nat \<Rightarrow> 'e \<Rightarrow> bool list" where
  "section_results api b i 0 e = []"
| "section_results api b i (Suc n) e =
     (let (ok, e') = EpubSplitter_Split api i (MakePartialName b i ''_.epub'') e
      in ok # section_results api b (i + 1) n e')"

lemma length_section_results [simp]: "length (section_results api b i n e) = n"
  by (induction n arbitrary: i e) (auto split: prod.split)

text \<open>How far the loop gets: as far as the answers are \<open>True\<close>.\<close>

lemma Split_loop_result:
  "Split_loop api b i n e out =
     (let rs = section_results api b i n e; k = length (takeWhile id rs) in
      (list_all id rs, out @ map (\<lambda>j. (MakePartialName b (i + int j) ''_.epub'', OK)) [0..<k] @
        (if k < n then [(MakePartialName b (i + int k) ''_.epub'', ERROR)] else [])))"
proof (induction n arbitrary: i e out)
  case 0
  then show ?case by simp
next
  case (Suc n)
  let ?name = "\<lambda>i. MakePartialName b i ''_.epub''"
  obtain ok e' where call: "EpubSplitter_Split api i (?name i) e = (ok, e')" by (metis surj_pair)
  have shift: "map (\<lambda>j. (?name (i + int j), OK)) [0..<Suc k] =
      (?name i, OK) # map (\<lambda>j. (?name (i + 1 + int j), OK)) [0..<k]" for k
    by (simp add: map_upt_Suc add.assoc del: upt_Suc)
  show ?case using call Suc.IH [of "i + 1" e' "out @ [(?name i, OK)]"]
    by (cases ok) (simp_all add: Let_def shift add.assoc del: upt_Suc)
qed

lemma Notify_loop_eq:
  "Notify_loop alive xs = (if \<forall>x \<in> set xs. alive x then Inr xs else Inl Undefined)"
  by (induction xs) (auto simp: weak_lock_def)

lemma Register_list:
  "\<forall>x \<in> set (w # observer_list job). alive x \<Longrightarrow>
   observer_list (RegisterObserver alive w job) =
     (if w \<in> set (observer_list job) then observer_list job else observer_list job @ [w])"
  by (auto simp: RegisterObserver_def weak_lock_def)

lemma Register_all:
  "\<forall>w \<in> set ws \<union> set (observer_list job). alive w \<Longrightarrow> distinct (observer_list job) \<Longrightarrow>
   distinct (observer_list (fold (RegisterObserver alive) ws job)) \<and>
   set (observer_list (fold (RegisterObserver alive) ws job)) = set (observer_list job) \<union> set ws"
proof (induction ws arbitrary: job)
  case (Cons w ws)
  let ?job = "RegisterObserver alive w job"
  have l: "observer_list ?job = (if w \<in> set (observer_list job) then observer_list job else observer_list job @ [w])"
    using Cons.prems(1) by (intro Register_list) auto
  then have "\<forall>x \<in> set ws \<union> set (observer_list ?job). alive x" "distinct (observer_list ?job)"
    using Cons.prems by auto
  from Cons.IH [OF this] l show ?case by auto
qed simp

subsection \<open>Properties\<close>

text \<open>C26. What a split leaves behind. A book without sections is refused and nothing is recorded.
  Otherwise the sections are written in order until the book object fails for the first time. If its
  first \<open>k\<close> answers are true, the entries for the sections before \<open>k\<close> are recorded as \<^verbatim>\<open>OK\<close>; if there
  is a section \<open>k\<close>, so that its answer is false, it follows with \<^verbatim>\<open>ERROR\<close> and is the last. The file
  names are pairwise different, the result is true exactly if all answers are, and earlier entries
  of \<^verbatim>\<open>output_paths\<close> stay.\<close>

theorem Split_outputs:
  assumes "GetSectionCount api (EpubSplitter_new api b) = (n, e)"
  shows "(n \<le> 0 \<longrightarrow> EpubSectionSplitter_Split api b out = (False, out)) \<and>
    (0 < n \<longrightarrow>
      (let answers = section_results api b 0 (nat n) e; k = length (takeWhile id answers);
           new = map (\<lambda>j. (MakePartialName b (int j) ''_.epub'', OK)) [0..<k] @
             (if k < nat n then [(MakePartialName b (int k) ''_.epub'', ERROR)] else [])
       in EpubSectionSplitter_Split api b out = (\<forall>ok \<in> set answers. ok, out @ new) \<and> distinct (map fst new)))"
proof (intro conjI impI)
  assume "n \<le> 0"
  then show "EpubSectionSplitter_Split api b out = (False, out)"
    using assms by (simp add: EpubSectionSplitter_Split_def)
next
  define k where "k = length (takeWhile id (section_results api b 0 (nat n) e))"
  define new where "new = map (\<lambda>j. (MakePartialName b (int j) ''_.epub'', OK)) [0..<k] @
    (if k < nat n then [(MakePartialName b (int k) ''_.epub'', ERROR)] else [])"
  assume "0 < n"
  then have "EpubSectionSplitter_Split api b out = Split_loop api b 0 (nat n) e out"
    using assms by (simp add: EpubSectionSplitter_Split_def)
  moreover have "map fst new = map (\<lambda>j. MakePartialName b (int j) ''_.epub'') [0..<(if k < nat n then Suc k else k)]"
    by (simp add: new_def comp_def)
  then have "distinct (map fst new)"
    by (auto simp: distinct_map inj_on_def dest!: MakePartialName_inject [rotated 2])
  ultimately show "let answers = section_results api b 0 (nat n) e; k = length (takeWhile id answers);
           new = map (\<lambda>j. (MakePartialName b (int j) ''_.epub'', OK)) [0..<k] @
             (if k < nat n then [(MakePartialName b (int k) ''_.epub'', ERROR)] else [])
       in EpubSectionSplitter_Split api b out = (\<forall>ok \<in> set answers. ok, out @ new) \<and> distinct (map fst new)"
    by (simp add: Split_loop_result Let_def k_def new_def list_all_iff)
qed

definition toy_epub :: "unit epub_api" where
  "toy_epub = \<lparr>EpubSplitter_new = (\<lambda>_. ()), GetSectionCount = (\<lambda>e. (3, e)),
     EpubSplitter_Split = (\<lambda>i name e. (i \<noteq> 1, e))\<rparr>"

theorem Split_outputs_witness:
  "EpubSectionSplitter_Split toy_epub ''b'' [] =
     (False, [(MakePartialName ''b'' 0 ''_.epub'', OK), (MakePartialName ''b'' 1 ''_.epub'', ERROR)])"
  using Split_outputs [of toy_epub "''b''" 3 "()" "[]"] by (simp add: toy_epub_def numeral_3_eq_3)

text \<open>C27. Observers. When live observers are registered, in any order and any number of times, each of
  them is notified exactly once when the job has run, whether or not the split succeeded.\<close>

theorem Observers_notified_once:
  assumes "\<forall>w \<in> set ws. alive w"
  shows "\<exists>job' calls. Job_Run api alive (fold (RegisterObserver alive) ws CreateJob) = Inr (job', calls) \<and>
    distinct calls \<and> set calls = set ws"
proof -
  let ?job = "fold (RegisterObserver alive) ws CreateJob"
  have "has_splitter (fold (RegisterObserver alive) ws j) = has_splitter j" for j
    by (induction ws arbitrary: j) (simp_all add: RegisterObserver_def)
  then have s: "has_splitter ?job" by (simp add: CreateJob_def SetSplitterStrategy_def)
  have "observer_list CreateJob = []"
    by (simp add: CreateJob_def SetSplitterStrategy_def ObservableSplitterJob_new_def)
  with Register_all [of ws CreateJob alive] assms
  have l: "distinct (observer_list ?job)" "set (observer_list ?job) = set ws" by auto
  with s assms show ?thesis by (simp add: Job_Run_def NotifyAllObservers_def Notify_loop_eq Let_def)
qed

theorem Observers_notified_once_witness:
  "\<exists>job' calls. Job_Run toy_epub (\<lambda>_. True) (fold (RegisterObserver (\<lambda>_. True)) [4, 9, 4] CreateJob) = Inr (job', calls) \<and>
     distinct calls \<and> set calls = {4, 9}"
  using Observers_notified_once [of "[4, 9, 4]" "\<lambda>_. True" toy_epub] by auto

end
