(* ===== verification/Scheduler.thy ===== *)
theory Scheduler
  imports Splitter Pool_Invariants
begin

text \<open>
  \<^verbatim>\<open>SplitterJobScheduler\<close> (\<^verbatim>\<open>src/splitter/splitter_job_scheduler.h\<close>): a thread pool, a counter of
  pending jobs and a monitor. Threads call \<^verbatim>\<open>AddSplitterJob\<close> and \<^verbatim>\<open>WaitAllJobDone\<close>, the workers of
  the pool call \<^verbatim>\<open>OnCompletedJob\<close> from the jobs they run; a step is one part of a method that
  other threads cannot interrupt, or one wake-up. Of the pool the scheduler only sees that a
  job that was added is run by a worker, once, at some later time, and that \<^verbatim>\<open>Add\<close> may throw
  instead. A job whose \<^verbatim>\<open>Split\<close> throws ends without telling its observers (\<^verbatim>\<open>Worker::Run\<close> swallows
  the exception).

  \<open>jobs_added\<close>, \<open>jobs_counted\<close>, \<open>jobs_done\<close> and \<open>jobs_lost\<close> are history.
  \<^verbatim>\<open>WaitAllJobDone\<close> tests the counter and waits without holding the mutex, so the test and the
  start of the wait are two steps.
\<close>

datatype add_pc = A_Idle | A_Registered | A_Added

datatype wait_pc =
    Wt_Idle
  | Wt_Test       \<comment> \<open>before \<^verbatim>\<open>while (pending_job_count_ != 0)\<close>\<close>
  | Wt_Wait       \<comment> \<open>the test was true, before \<^verbatim>\<open>monitor_.Wait()\<close> blocks\<close>
  | Wt_Sleeping
  | Wt_Returned

record scheduler =
  pending_job_count :: size_t
  adders :: "add_pc list"
  waiters :: "wait_pc list"
  jobs_added :: nat
  jobs_counted :: nat
  jobs_done :: nat
  jobs_lost :: nat

text \<open>The constructor: the counter and the pool it creates and starts.\<close>

definition SplitterJobScheduler_new :: "nat \<Rightarrow> nat \<Rightarrow> scheduler" where
  "SplitterJobScheduler_new n k =
     \<lparr>pending_job_count = 0, adders = replicate n A_Idle, waiters = replicate k Wt_Idle,
      jobs_added = 0, jobs_counted = 0, jobs_done = 0, jobs_lost = 0\<rparr>"

definition scheduler_pool :: "size_t \<Rightarrow> size_t \<Rightarrow> SimpleThreadManager \<times> Impl" where
  "scheduler_pool num_workers pending_job_max_count =
     (let (cfg, m) = NewSimpleThreadManager num_workers pending_job_max_count
      in (cfg, SetThreadFactory (Some SimpleThreadFactory_default) m))"

fun wake_waiter :: "wait_pc \<Rightarrow> wait_pc" where
  "wake_waiter Wt_Sleeping = Wt_Test"
| "wake_waiter p = p"

text \<open>The section at the end of \<open>AddSplitterJob\<close>, and that of \<open>OnCompletedJob\<close>.\<close>

definition AddSplitterJob_count :: "scheduler \<Rightarrow> scheduler" where
  "AddSplitterJob_count s = s\<lparr>pending_job_count := pending_job_count s + 1,
     waiters := map wake_waiter (waiters s), jobs_counted := jobs_counted s + 1\<rparr>"

definition OnCompletedJob :: "scheduler \<Rightarrow> scheduler" where
  "OnCompletedJob s = s\<lparr>pending_job_count := pending_job_count s - 1,
     waiters := map wake_waiter (waiters s), jobs_done := jobs_done s + 1\<rparr>"

text \<open>\<open>WaitAllJobDone\<close>.\<close>

inductive waiter_step :: "scheduler \<Rightarrow> scheduler \<Rightarrow> bool" where
  wait_call:
    "\<lbrakk>w < length (waiters s); waiters s ! w = Wt_Idle\<rbrakk> \<Longrightarrow>
     waiter_step s (s\<lparr>waiters := (waiters s)[w := Wt_Test]\<rparr>)"
| wait_test:
    "\<lbrakk>w < length (waiters s); waiters s ! w = Wt_Test\<rbrakk> \<Longrightarrow>
     waiter_step s (s\<lparr>waiters := (waiters s)[w := if pending_job_count s \<noteq> 0 then Wt_Wait else Wt_Returned]\<rparr>)"
| wait_block:
    "\<lbrakk>w < length (waiters s); waiters s ! w = Wt_Wait\<rbrakk> \<Longrightarrow>
     waiter_step s (s\<lparr>waiters := (waiters s)[w := Wt_Sleeping]\<rparr>)"
| wait_spurious:
    "\<lbrakk>w < length (waiters s); waiters s ! w = Wt_Sleeping\<rbrakk> \<Longrightarrow>
     waiter_step s (s\<lparr>waiters := (waiters s)[w := Wt_Test]\<rparr>)"

text \<open>\<open>AddSplitterJob\<close>, the end of a job, or a waiting thread.\<close>

inductive sched_step :: "scheduler \<Rightarrow> scheduler \<Rightarrow> bool" where
  sched_register:
    "\<lbrakk>i < length (adders s); adders s ! i = A_Idle\<rbrakk> \<Longrightarrow>
     sched_step s (s\<lparr>adders := (adders s)[i := A_Registered]\<rparr>)"
| sched_add:
    "\<lbrakk>i < length (adders s); adders s ! i = A_Registered\<rbrakk> \<Longrightarrow>
     sched_step s (s\<lparr>adders := (adders s)[i := A_Added], jobs_added := jobs_added s + 1\<rparr>)"
| sched_add_throws:
    "\<lbrakk>i < length (adders s); adders s ! i = A_Registered\<rbrakk> \<Longrightarrow>
     sched_step s (s\<lparr>adders := (adders s)[i := A_Idle]\<rparr>)"
| sched_count:
    "\<lbrakk>i < length (adders s); adders s ! i = A_Added\<rbrakk> \<Longrightarrow>
     sched_step s (AddSplitterJob_count (s\<lparr>adders := (adders s)[i := A_Idle]\<rparr>))"
| sched_job_done: "jobs_done s + jobs_lost s < jobs_added s \<Longrightarrow> sched_step s (OnCompletedJob s)"
| sched_job_throws:
    "jobs_done s + jobs_lost s < jobs_added s \<Longrightarrow> sched_step s (s\<lparr>jobs_lost := jobs_lost s + 1\<rparr>)"
| by_waiter: "waiter_step s t \<Longrightarrow> sched_step s t"

definition sched_start :: "scheduler \<Rightarrow> bool" where
  "sched_start s \<longleftrightarrow> (\<exists>n k. s = SplitterJobScheduler_new n k)"

lemmas sched_defs = AddSplitterJob_count_def OnCompletedJob_def

subsection \<open>Invariant\<close>

definition sched_inv :: "scheduler \<Rightarrow> bool" where
  "sched_inv s \<longleftrightarrow>
     pending_job_count s = of_nat (jobs_counted s) - of_nat (jobs_done s) \<and>
     jobs_counted s + cnt (\<lambda>p. p = A_Added) (adders s) = jobs_added s \<and>
     jobs_done s + jobs_lost s \<le> jobs_added s"

lemma sched_inv_init: "sched_start s \<Longrightarrow> sched_inv s"
  by (auto simp: sched_start_def SplitterJobScheduler_new_def sched_inv_def)

lemma sched_inv_step: "sched_step s t \<Longrightarrow> sched_inv s \<Longrightarrow> sched_inv t"
proof (induction rule: sched_step.induct)
  case (sched_count i s)
  then show ?case
    using cnt_update [of i "adders s" "\<lambda>p. p = A_Added" A_Idle] by (auto simp: sched_inv_def sched_defs)
next
  case (sched_register i s)
  then show ?case using cnt_update [of i "adders s" "\<lambda>p. p = A_Added" A_Registered] by (auto simp: sched_inv_def)
next
  case (sched_add i s)
  then show ?case using cnt_update [of i "adders s" "\<lambda>p. p = A_Added" A_Added] by (auto simp: sched_inv_def)
next
  case (sched_add_throws i s)
  then show ?case using cnt_update [of i "adders s" "\<lambda>p. p = A_Added" A_Idle] by (auto simp: sched_inv_def)
next
  case (by_waiter s t)
  then show ?case by (cases rule: waiter_step.cases) (auto simp: sched_inv_def)
qed (auto simp: sched_inv_def sched_defs)

interpretation sched: inductive_invariant sched_start sched_step sched_inv
  by unfold_locales (blast intro: sched_inv_init sched_inv_step)+

subsection \<open>A run\<close>

definition sched_ex :: "size_t \<Rightarrow> add_pc \<Rightarrow> wait_pc \<Rightarrow> nat \<Rightarrow> nat \<Rightarrow> nat \<Rightarrow> scheduler" where
  "sched_ex c a w n_add n_cnt n_done =
     \<lparr>pending_job_count = c, adders = [a], waiters = [w], jobs_added = n_add, jobs_counted = n_cnt,
      jobs_done = n_done, jobs_lost = 0\<rparr>"

abbreviation sched_reach :: "scheduler \<Rightarrow> bool" where
  "sched_reach \<equiv> reachable sched_start sched_step"

lemma sched_ex_added: "sched_reach (sched_ex 0 A_Added Wt_Idle 1 0 0)"
proof -
  have "sched_reach (sched_ex 0 A_Idle Wt_Idle 0 0 0)"
    by (rule reachable_init)
      (auto simp: sched_start_def SplitterJobScheduler_new_def sched_ex_def intro!: exI [of _ "Suc 0"])
  then have "sched_reach (sched_ex 0 A_Registered Wt_Idle 0 0 0)"
    by (rule reachable_step) (use sched_register [of 0 "sched_ex 0 A_Idle Wt_Idle 0 0 0"] in \<open>simp add: sched_ex_def\<close>)
  then show ?thesis
    by (rule reachable_step) (use sched_add [of 0 "sched_ex 0 A_Registered Wt_Idle 0 0 0"] in \<open>simp add: sched_ex_def\<close>)
qed

lemma sched_ex_underflow: "sched_reach (sched_ex (- 1) A_Added Wt_Idle 1 0 1)"
  by (rule reachable_step [OF sched_ex_added])
    (use sched_job_done [of "sched_ex 0 A_Added Wt_Idle 1 0 0"] in \<open>simp add: sched_ex_def OnCompletedJob_def\<close>)

lemma sched_ex_counted: "sched_reach (sched_ex 1 A_Idle Wt_Idle 1 1 0)"
  by (rule reachable_step [OF sched_ex_added])
    (use sched_count [of 0 "sched_ex 0 A_Added Wt_Idle 1 0 0"] in \<open>simp add: sched_ex_def AddSplitterJob_count_def\<close>)

lemma sched_ex_lost: "sched_reach (sched_ex 0 A_Idle Wt_Sleeping 1 1 1)"
proof -
  have "sched_reach (sched_ex 1 A_Idle Wt_Test 1 1 0)"
    by (rule reachable_step [OF sched_ex_counted])
      (use by_waiter [OF wait_call [of 0 "sched_ex 1 A_Idle Wt_Idle 1 1 0"]] in \<open>simp add: sched_ex_def\<close>)
  then have "sched_reach (sched_ex 1 A_Idle Wt_Wait 1 1 0)"
    by (rule reachable_step) (use by_waiter [OF wait_test [of 0 "sched_ex 1 A_Idle Wt_Test 1 1 0"]] in \<open>simp add: sched_ex_def\<close>)
  then have "sched_reach (sched_ex 0 A_Idle Wt_Wait 1 1 1)"
    by (rule reachable_step)
      (use sched_job_done [of "sched_ex 1 A_Idle Wt_Wait 1 1 0"] in \<open>simp add: sched_ex_def OnCompletedJob_def\<close>)
  then show ?thesis
    by (rule reachable_step) (use by_waiter [OF wait_block [of 0 "sched_ex 0 A_Idle Wt_Wait 1 1 1"]] in \<open>simp add: sched_ex_def\<close>)
qed

subsection \<open>Properties\<close>

text \<open>C23. What the counter means. In every reachable state in which no call of \<^verbatim>\<open>AddSplitterJob\<close> is
  between adding its job and counting it, and with fewer than \<open>2 ^ 64\<close> jobs, the counter is
  the number of jobs that were added and have not reported completion. In particular it is 0,
  and \<^verbatim>\<open>WaitAllJobDone\<close> returns at its test, exactly if every job has completed; a job that threw
  keeps it above 0 for ever.\<close>

theorem pending_job_count_exact:
  assumes "sched_reach s" and "A_Added \<notin> set (adders s)" and "jobs_added s < 2 ^ 64"
  shows "unat (pending_job_count s) = jobs_added s - jobs_done s \<and>
    (pending_job_count s = 0 \<longleftrightarrow> jobs_done s = jobs_added s) \<and>
    (0 < jobs_lost s \<longrightarrow> pending_job_count s \<noteq> 0)"
proof -
  have inv: "sched_inv s" using assms(1) by (rule sched.always)
  have "cnt (\<lambda>p. p = A_Added) (adders s) = 0" using assms(2) by (auto simp: cnt_zero_iff)
  with inv have c: "jobs_counted s = jobs_added s" "jobs_done s + jobs_lost s \<le> jobs_added s"
    and p: "pending_job_count s = of_nat (jobs_added s) - of_nat (jobs_done s)"
    by (auto simp: sched_inv_def)
  then have "pending_job_count s = of_nat (jobs_added s - jobs_done s)" by (simp add: of_nat_diff)
  then have u: "unat (pending_job_count s) = jobs_added s - jobs_done s"
    using assms(3) by (simp add: unat_of_nat)
  then have "pending_job_count s = 0 \<longleftrightarrow> jobs_done s = jobs_added s"
    using c(2) by (auto simp flip: unat_eq_zero)
  with u c(2) show ?thesis by auto
qed

theorem pending_job_count_exact_witness: "unat (pending_job_count (sched_ex 1 A_Idle Wt_Idle 1 1 0)) = 1"
  using pending_job_count_exact [OF sched_ex_counted] by (simp add: sched_ex_def)

text \<open>The job is counted after it was handed to the pool, so a fast worker completes it first: a
  reachable state has the counter at \<open>2 ^ 64 - 1\<close>, with one job added and completed.\<close>

theorem pending_job_count_underflow:
  "\<exists>s. sched_reach s \<and> pending_job_count s = 2 ^ 64 - 1 \<and> jobs_added s = 1 \<and> jobs_done s = 1"
  using sched_ex_underflow by (auto simp: sched_ex_def intro!: exI [of _ "sched_ex (- 1) A_Added Wt_Idle 1 0 1"])

text \<open>\<^verbatim>\<open>WaitAllJobDone\<close> can miss the last notification: a reachable state has every job completed, the
  counter at 0 and no call of \<^verbatim>\<open>AddSplitterJob\<close> under way, while a thread sleeps in the monitor,
  and every further step leaves it asleep unless it is a spurious wake-up of that thread.\<close>

theorem WaitAllJobDone_lost_wakeup:
  "\<exists>s. sched_reach s \<and> pending_job_count s = 0 \<and> jobs_done s = jobs_added s \<and> set (adders s) = {A_Idle} \<and>
     waiters s ! 0 = Wt_Sleeping \<and>
     {t. sched_step s t} \<subseteq> insert (s\<lparr>waiters := (waiters s)[0 := Wt_Test]\<rparr>) {t. waiters t ! 0 = Wt_Sleeping}"
proof (intro exI conjI subsetI)
  let ?s = "sched_ex 0 A_Idle Wt_Sleeping 1 1 1"
  show "sched_reach ?s" by (rule sched_ex_lost)
  fix t assume "t \<in> {t. sched_step ?s t}"
  then have "sched_step ?s t" by simp
  then show "t \<in> insert (?s\<lparr>waiters := (waiters ?s)[0 := Wt_Test]\<rparr>) {t. waiters t ! 0 = Wt_Sleeping}"
    by cases (auto simp: sched_ex_def elim!: waiter_step.cases)
qed (auto simp: sched_ex_def)

end
