(* ===== verification/Pool_Client.thy ===== *)
theory Pool_Client
  imports Pool_Liveness "HOL-Library.Multiset"
begin

text \<open>
  What a program on top of the thread pool sees of it. \<open>add_call\<close> is one client inside
  \<^verbatim>\<open>ThreadManager::Add\<close>, with the end of the call as an event. \<open>task_ends\<close> is a worker that returns from the
  runnable of its task. \<open>runs\<close> collects the runnables that are being run.

  Every task that was started is then either running or has returned.
\<close>

subsection \<open>A call of Add\<close>

datatype add_event = Add_pending | Add_done | Add_threw exn

text \<open>Client \<open>i\<close> inside \<^verbatim>\<open>Add(v, timeout)\<close>, without an expiration: entering, waking up, or giving up.\<close>

inductive add_call :: "pool_cfg \<Rightarrow> nat \<Rightarrow> runnable_ref \<Rightarrow> int64 \<Rightarrow> add_event \<Rightarrow> pool \<Rightarrow> pool \<Rightarrow> bool"
  for cfg i v timeout where
  call_queued:
    "\<lbrakk>i < length (cs p); cs p ! i = C_Ret e; locked \<or> timeout \<noteq> 0;
      Add_enter locked (cid cfg i) cur cur2 v timeout 0 (mgr p) = Add_queued notify calls m';
      if notify then signal_workers 1 (ws p) ws' else ws' = ws p\<rbrakk>
     \<Longrightarrow> add_call cfg i v timeout Add_done p (p\<lparr>mgr := m', ws := ws', cs := (cs p)[i := C_Ret None],
           h_removed := h_removed p @ takeWhile (is_expired cur) (tasks (mgr p)),
           h_added := h_added p @ new_task cur2 v 0\<rparr>)"
| call_waits:
    "\<lbrakk>i < length (cs p); cs p ! i = C_Ret e; locked \<or> timeout \<noteq> 0;
      Add_enter locked (cid cfg i) cur cur2 v timeout 0 (mgr p) = Add_waits calls m'\<rbrakk>
     \<Longrightarrow> add_call cfg i v timeout Add_pending p (p\<lparr>mgr := m', cs := (cs p)[i := C_AddWait v timeout 0],
           h_removed := h_removed p @ taken (mgr p) m'\<rparr>)"
| call_throws:
    "\<lbrakk>i < length (cs p); cs p ! i = C_Ret e; locked \<or> timeout \<noteq> 0;
      Add_enter locked (cid cfg i) cur cur2 v timeout 0 (mgr p) = Add_throws x calls m'\<rbrakk>
     \<Longrightarrow> add_call cfg i v timeout (Add_threw x) p (p\<lparr>mgr := m', cs := (cs p)[i := C_Ret (Some x)],
           h_removed := h_removed p @ taken (mgr p) m'\<rparr>)"
| call_wakes:
    "\<lbrakk>i < length (cs p); add_waiting (cs p ! i)\<rbrakk>
     \<Longrightarrow> add_call cfg i v timeout Add_pending p (p\<lparr>cs := (cs p)[i := wake_add (cs p ! i)]\<rparr>)"
| call_resume_queued:
    "\<lbrakk>i < length (cs p); cs p ! i = C_AddWoken v timeout 0;
      Add_resume cur v 0 (mgr p) = Add_queued notify calls m';
      if notify then signal_workers 1 (ws p) ws' else ws' = ws p\<rbrakk>
     \<Longrightarrow> add_call cfg i v timeout Add_done p (p\<lparr>mgr := m', ws := ws', cs := (cs p)[i := C_Ret None],
           h_added := h_added p @ new_task cur v 0\<rparr>)"
| call_resume_waits:
    "\<lbrakk>i < length (cs p); cs p ! i = C_AddWoken v timeout 0;
      Add_resume cur v 0 (mgr p) = Add_waits calls m'\<rbrakk>
     \<Longrightarrow> add_call cfg i v timeout Add_pending p (p\<lparr>mgr := m', cs := (cs p)[i := C_AddWait v timeout 0]\<rparr>)"
| call_timeout:
    "\<lbrakk>i < length (cs p); cs p ! i = C_AddWait v timeout 0; timeout \<noteq> 0\<rbrakk>
     \<Longrightarrow> add_call cfg i v timeout (Add_threw TimedOut_default) p
           (p\<lparr>cs := (cs p)[i := C_Ret (Some TimedOut_default)]\<rparr>)"

lemma add_call_step: "add_call cfg i v timeout ev p p' \<Longrightarrow> task_step cfg p p'"
  by (induction rule: add_call.induct)
    (rule task_step.intros; assumption)+

lemma Task_new_undying: "Task_new cur v 0 = Inr task \<Longrightarrow> undying task"
  by (auto simp: Task_new_def undying_def)

text \<open>A call that queues its task adds one task, with its runnable; no other step of the call adds any.\<close>

lemma add_call_added:
  "add_call cfg i v timeout ev p p' \<Longrightarrow>
     (ev = Add_done \<longrightarrow> (\<exists>t. h_added p' = h_added p @ [t] \<and> task_runnable t = v \<and> undying t)) \<and>
     (ev \<noteq> Add_done \<longrightarrow> h_added p' = h_added p)"
proof (induction rule: add_call.induct)
  case (call_queued p e locked cur cur2 notify calls m' ws')
  from Add_enter_queuedD [OF call_queued(4)] show ?case by (auto dest: Task_new_undying)
next
  case (call_resume_queued p cur notify calls m' ws')
  from Add_resume_queuedD [OF call_resume_queued(3)] show ?case by (auto dest: Task_new_undying)
qed auto

text \<open>Where the client is after a step of the call.\<close>

lemma add_call_pc:
  "add_call cfg i v timeout ev p p' \<Longrightarrow>
     client (cs p ! i) \<and> client (cs p' ! i) \<and> length (cs p') = length (cs p) \<and> i < length (cs p) \<and>
     (ev = Add_done \<longrightarrow> cs p' ! i = C_Ret None) \<and> (\<forall>x. ev = Add_threw x \<longrightarrow> cs p' ! i = C_Ret (Some x)) \<and>
     (ev = Add_pending \<longrightarrow> in_add (cs p' ! i))"
  by (induction rule: add_call.induct)
    (auto dest: client_wake(2) elim: add_waiting.elims)

subsection \<open>Running tasks\<close>

fun run_of :: "wpc \<Rightarrow> runnable_ref multiset" where
  "run_of (W_Run (Some t)) = {#task_runnable t#}"
| "run_of p = {#}"

definition runs :: "wpc list \<Rightarrow> runnable_ref multiset" where
  "runs ps = sum_list (map run_of ps)"

lemma runs_simps [simp]:
  "runs [] = {#}" "runs (p # ps) = run_of p + runs ps" "runs (ps @ qs) = runs ps + runs qs"
  by (simp_all add: runs_def)

lemma runs_replicate [simp]: "run_of p = {#} \<Longrightarrow> runs (replicate n p) = {#}"
  by (induction n) auto

lemma runs_update: "w < length ps \<Longrightarrow> runs (ps[w := p]) + run_of (ps ! w) = runs ps + run_of p"
proof (induction ps arbitrary: w)
  case (Cons q ps)
  then show ?case by (cases w) (simp_all add: ac_simps)
qed simp

lemma runs_move: "w < length ps \<Longrightarrow> run_of (ps ! w) = {#} \<Longrightarrow> runs (ps[w := p]) = runs ps + run_of p"
  using runs_update [of w ps p] by simp

lemma runs_same: "run_of p = run_of (ps ! w) \<Longrightarrow> runs (ps[w := p]) = runs ps"
  using runs_update [of w ps p] by (cases "w < length ps") (simp_all add: list_update_beyond)

lemma run_of_wake [simp]: "run_of (wake_worker p) = run_of p"
  by (cases p) auto

lemma runs_wake_all: "runs (map wake_worker ps) = runs ps"
  by (induction ps) auto

lemma runs_signal: "signal_workers n ps ps' \<Longrightarrow> runs ps' = runs ps"
proof -
  assume "signal_workers n ps ps'"
  then have "list_all2 (\<lambda>p p'. p' = p \<or> p = W_Wait \<and> p' = wake_worker p) ps ps'" by (simp add: notified_def)
  then show ?thesis by (induction rule: list_all2_induct) auto
qed

lemma runs_notify: "notify_workers n ps ps' \<Longrightarrow> runs ps' = runs ps"
  by (cases n) (auto simp: runs_signal runs_wake_all)

lemma runs_signal_if: "if notify then signal_workers n ps ps' else ps' = ps \<Longrightarrow> runs ps' = runs ps"
  by (auto simp: runs_signal split: if_splits)

text \<open>Worker \<open>w\<close> returns from the runnable of \<open>t\<close>.\<close>

definition task_ends :: "nat \<Rightarrow> Task \<Rightarrow> pool \<Rightarrow> pool \<Rightarrow> bool" where
  "task_ends w t p p' \<longleftrightarrow> w < length (ws p) \<and> ws p ! w = W_Run (Some t) \<and> p' = p\<lparr>ws := (ws p)[w := W_Loop]\<rparr>"

definition job_ends :: "pool \<Rightarrow> pool \<Rightarrow> bool" where
  "job_ends p p' \<longleftrightarrow> (\<exists>w < length (ws p). \<exists>t. ws p ! w = W_Run (Some t) \<and> p' = p\<lparr>ws := (ws p)[w := W_Loop]\<rparr>)"

definition runs_task :: "nat \<Rightarrow> runnable_ref \<Rightarrow> pool \<Rightarrow> bool" where
  "runs_task w r p \<longleftrightarrow> w < length (ws p) \<and> (\<exists>t. ws p ! w = W_Run (Some t) \<and> task_runnable t = r)"

lemma job_ends_iff: "job_ends p p' \<longleftrightarrow> (\<exists>w t. task_ends w t p p')"
  by (auto simp: job_ends_def task_ends_def)

lemma job_ends_worker: "job_ends p p' \<Longrightarrow> worker_step p p'"
  by (auto simp: job_ends_def intro: worker_run)

lemma task_ends_worker: "task_ends w t p p' \<Longrightarrow> worker_step p p'"
  using job_ends_worker job_ends_iff by blast

lemma job_ends_not_same [simp]: "\<not> job_ends p p"
proof
  assume "job_ends p p"
  then obtain w t where w: "w < length (ws p)" "ws p ! w = W_Run (Some t)" "p = p\<lparr>ws := (ws p)[w := W_Loop]\<rparr>"
    by (auto simp: job_ends_def)
  then have "ws p ! w = W_Loop" by (metis nth_list_update_eq pool.select_convs(2) pool.surjective pool.update_convs(2))
  with w(2) show False by simp
qed

lemma wakes_up_not_ends: "wakes_up s t \<Longrightarrow> \<not> job_ends s t"
proof
  assume "wakes_up s t" "job_ends s t"
  then obtain w w' u where w: "w < length (ws s)" "ws s ! w = W_Wait" "t = s\<lparr>ws := (ws s)[w := W_Woken]\<rparr>"
    "w' < length (ws s)" "ws s ! w' = W_Run (Some u)" "t = s\<lparr>ws := (ws s)[w' := W_Loop]\<rparr>"
    by (auto simp: wakes_up_def job_ends_def)
  then have "(ws s)[w := W_Woken] = (ws s)[w' := W_Loop]" by (metis pool.select_convs(2) pool.surjective pool.update_convs(2))
  then have "(ws s)[w := W_Woken] ! w = (ws s)[w' := W_Loop] ! w" by simp
  with w show False by (cases "w = w'") auto
qed

lemma task_ends_runs:
  "task_ends w t p p' \<Longrightarrow> add_mset (task_runnable t) (runs (ws p')) = runs (ws p) \<and> h_started p' = h_started p \<and>
     h_added p' = h_added p \<and> mgr p' = mgr p \<and> cs p' = cs p"
  using runs_update [of w "ws p" W_Loop] by (auto simp: task_ends_def)

subsection \<open>Every started task is running or has returned\<close>

lemma run_of_started: "run_of (W_Run t) = image_mset task_runnable (mset (started t))"
  by (cases t) simp_all

definition started_runs :: "pool \<Rightarrow> runnable_ref multiset" where
  "started_runs p = image_mset task_runnable (mset (h_started p))"

lemma worker_account:
  assumes "worker_step p p'" and "\<not> job_ends p p'"
  shows "started_runs p' + runs (ws p) = started_runs p + runs (ws p')"
  using assms
proof (induction rule: worker_step.induct)
  case (worker_enter w s active nm m')
  then show ?case by (simp add: started_runs_def runs_move)
next
  case (worker_notify w s cs')
  then show ?case by (simp add: started_runs_def runs_move)
next
  case (worker_sleep w s cur m')
  with worker_turn_SleepD [OF worker_sleep(2)] show ?case by (auto simp: started_runs_def runs_move)
next
  case (worker_proceed w s cur t nm calls m' cs')
  have "run_of (ws s ! w) = {#}" using worker_turn_ProceedD [OF worker_proceed(2)] by auto
  with worker_proceed(1) show ?case by (simp add: started_runs_def runs_move run_of_started ac_simps)
next
  case (worker_leave w s cur m')
  with worker_turn_LeaveD [OF worker_leave(2)] show ?case by (auto simp: started_runs_def runs_move)
next
  case (worker_run w s t)
  then have "t = None" by (auto simp: job_ends_def)
  with worker_run show ?case by (simp add: started_runs_def runs_move)
qed (simp_all add: started_runs_def runs_move)

lemma task_account: "task_step cfg p p' \<Longrightarrow> h_started p' = h_started p \<and> runs (ws p') = runs (ws p)"
  by (induction rule: task_step.induct) (auto dest: runs_signal_if)

lemma control_account:
  "control_step cfg p p' \<Longrightarrow> h_started p' = h_started p \<and> h_added p' = h_added p \<and> runs (ws p') = runs (ws p)"
proof (induction rule: control_step.induct)
  case (add_worker_start i s w ths)
  have "run_of (start_thread (creates cfg w) (ws s ! w)) = run_of (ws s ! w)" by (simp add: start_thread_def)
  then show ?case by (simp add: runs_same)
qed (auto simp: runs_notify runs_wake_all)

text \<open>The same, as numbers.\<close>

lemma size_started_runs [simp]: "size (started_runs p) = length (h_started p)"
  by (simp add: started_runs_def)

lemma worker_added: "worker_step p p' \<Longrightarrow> h_added p' = h_added p"
  by (induction rule: worker_step.induct) simp_all

lemma worker_keeps:
  assumes "worker_step p p'" and "\<not> job_ends p p'"
  shows "length (h_started p') + size (runs (ws p)) = length (h_started p) + size (runs (ws p')) \<and> h_added p' = h_added p"
  using arg_cong [OF worker_account [OF assms], of size] worker_added [OF assms(1)] by simp

lemma job_ends_count:
  "job_ends p p' \<Longrightarrow> Suc (size (runs (ws p'))) = size (runs (ws p)) \<and> h_added p' = h_added p \<and> h_started p' = h_started p"
  unfolding job_ends_iff using task_ends_runs by (metis size_add_mset)

lemma add_call_keeps:
  assumes "add_call cfg i v timeout ev p p'"
  shows "h_started p' = h_started p \<and> runs (ws p') = runs (ws p) \<and>
    (ev = Add_done \<longrightarrow> (\<exists>t. h_added p' = h_added p @ [t] \<and> task_runnable t = v \<and> undying t)) \<and>
    (ev \<noteq> Add_done \<longrightarrow> h_added p' = h_added p)"
  using task_account [OF add_call_step [OF assms]] add_call_added [OF assms] by blast

lemma runs_not_busy: "\<forall>p \<in> set ps. \<not> busy p \<Longrightarrow> runs ps = {#}"
proof (induction ps)
  case (Cons p ps)
  then show ?case by (cases p rule: run_of.cases) auto
qed simp

lemma started_added: "fifo_inv p \<Longrightarrow> length (h_started p) \<le> length (h_added p)"
  by (auto simp: fifo_inv_def dest!: list_emb_length)

text \<open>If the queue is empty, every task without an expiration time has been started.\<close>

lemma all_started:
  assumes "fifo_inv p" "served_inv cfg p" "\<forall>i. \<not> pops cfg i" "tasks (mgr p) = []" "list_all undying (h_added p)"
  shows "length (h_started p) = length (h_added p)"
proof -
  have "h_added p = h_removed p" using assms(1,4) by (simp add: fifo_inv_def)
  then have "filter undying (h_removed p) = h_added p" using assms(5) by (simp add: list_all_iff)
  then have "length (h_added p) = length (filter undying (h_started p))"
    using assms(2,3) by (metis length_map served_inv_def)
  also have "\<dots> \<le> length (h_started p)" by simp
  finally show ?thesis using started_added [OF assms(1)] by simp
qed

text \<open>Nothing but the end of its task takes a worker out of it.\<close>

definition keeps_running :: "wpc list \<Rightarrow> wpc list \<Rightarrow> bool" where
  "keeps_running ps ps' \<longleftrightarrow> length ps \<le> length ps' \<and>
     (\<forall>w < length ps. \<forall>t. ps ! w = W_Run (Some t) \<longrightarrow> ps' ! w = W_Run (Some t))"

lemma keeps_running_update: "\<forall>t. ps ! w \<noteq> W_Run (Some t) \<Longrightarrow> keeps_running ps (ps[w := p])"
  unfolding keeps_running_def by (metis length_list_update nth_list_update_neq order_refl)

lemma keeps_running_refl [simp]: "keeps_running ps ps"
  by (simp add: keeps_running_def)

lemma keeps_running_append [simp]: "keeps_running ps (ps @ qs)"
  by (simp add: keeps_running_def nth_append)

lemma keeps_running_wake_all: "keeps_running ps (map wake_worker ps)"
  by (simp add: keeps_running_def)

lemma keeps_running_signal:
  assumes "signal_workers n ps ps'"
  shows "keeps_running ps ps'"
proof -
  have "ps' ! w = W_Run (Some t)" if "w < length ps" "ps ! w = W_Run (Some t)" for w t
    using notified_nth [OF assms that(1)] that(2) by auto
  then show ?thesis using notified_length [OF assms] by (simp add: keeps_running_def)
qed

lemma keeps_running_notify: "notify_workers n ps ps' \<Longrightarrow> keeps_running ps ps'"
  by (cases n) (auto simp: keeps_running_signal keeps_running_wake_all)

lemma worker_keeps_running: "worker_step p p' \<Longrightarrow> \<not> job_ends p p' \<Longrightarrow> keeps_running (ws p) (ws p')"
proof (induction rule: worker_step.induct)
  case (worker_sleep w s cur m')
  with worker_turn_SleepD [OF worker_sleep(2)] show ?case by (auto intro: keeps_running_update)
next
  case (worker_proceed w s cur t nm calls m' cs')
  with worker_turn_ProceedD [OF worker_proceed(2)] show ?case by (auto intro: keeps_running_update)
next
  case (worker_leave w s cur m')
  with worker_turn_LeaveD [OF worker_leave(2)] show ?case by (auto intro: keeps_running_update)
next
  case (worker_run w s t)
  then show ?case by (auto simp: job_ends_def intro: keeps_running_update)
qed (auto intro: keeps_running_update)

lemma task_keeps_running: "task_step cfg p p' \<Longrightarrow> keeps_running (ws p) (ws p')"
  by (induction rule: task_step.induct) (auto simp: keeps_running_signal split: if_splits)

lemma control_keeps_running: "control_step cfg p p' \<Longrightarrow> keeps_running (ws p) (ws p')"
proof (induction rule: control_step.induct)
  case (add_worker_start i s w ths)
  have "keeps_running (ws s) ((ws s)[w := start_thread (creates cfg w) (ws s ! w)])"
    by (cases "ws s ! w = W_Created") (auto simp: start_thread_def intro: keeps_running_update)
  then show ?case by simp
qed (auto simp: keeps_running_notify keeps_running_wake_all)

text \<open>Two workers run two tasks.\<close>

lemma runs_split: "w < length ps \<Longrightarrow> ps ! w = W_Run (Some t) \<Longrightarrow> runs ps = add_mset (task_runnable t) (runs (ps[w := W_Loop]))"
  using runs_update [of w ps W_Loop] by simp

lemma runs_member: "w < length ps \<Longrightarrow> ps ! w = W_Run (Some t) \<Longrightarrow> task_runnable t \<in># runs ps"
  by (simp add: runs_split)

lemma runs_twice:
  assumes "w < length ps" "ps ! w = W_Run (Some t)" "v < length ps" "ps ! v = W_Run (Some u)" "w \<noteq> v"
    and "task_runnable t = task_runnable u"
  shows "2 \<le> count (runs ps) (task_runnable t)"
proof -
  have "task_runnable u \<in># runs (ps[w := W_Loop])" using assms by (intro runs_member [of v]) simp_all
  with runs_split [OF assms(1,2)] assms(6) show ?thesis by (simp add: Suc_le_eq)
qed

lemma task_ends_work: "task_ends w t p p' \<Longrightarrow> work_left p' < work_left p \<and> length (ws p') = length (ws p)"
proof -
  assume t: "task_ends w t p p'"
  then have "\<not> wakes_up p p'" using wakes_up_not_ends job_ends_iff by blast
  with task_ends_worker [OF t] have "work p p'" by (simp add: work_def)
  then show ?thesis using work_decreases t by (auto simp: task_ends_def)
qed

end
