(* ===== verification/Splitter_System.thy ===== *)
theory Splitter_System
  imports Scheduler Pool_Client
begin

text \<open>
  The scheduler of \<^verbatim>\<open>splitter_job_scheduler.h\<close> on the thread pool of \<^verbatim>\<open>thread_manager.cc\<close>: the two step
  relations run together. A thread that calls \<^verbatim>\<open>AddSplitterJob\<close> is a client of the pool, which it
  calls as \<^verbatim>\<open>Add(job)\<close>, with no timeout and no expiration; a worker that ends its task ends a job, and so
  runs \<^verbatim>\<open>OnCompletedJob\<close> of the scheduler, the observer of all jobs, or drops the job that threw.

  What the theory \<open>Scheduler\<close> took for granted of the pool is proved here: no more jobs end than were
  added. What the pool promises is then a promise of the scheduler: all jobs end.
\<close>

subsection \<open>The system\<close>

record system =
  thread_manager :: pool
  job_scheduler :: scheduler

text \<open>A worker moves. The end of a task is the only step that the scheduler notices.\<close>

inductive sys_worker_step :: "system \<Rightarrow> system \<Rightarrow> bool" where
  sys_worker:
    "\<lbrakk>worker_step (thread_manager x) p; \<not> job_ends (thread_manager x) p\<rbrakk> \<Longrightarrow>
     sys_worker_step x (x\<lparr>thread_manager := p\<rparr>)"
| sys_job_done:
    "job_ends (thread_manager x) p \<Longrightarrow>
     sys_worker_step x (x\<lparr>thread_manager := p, job_scheduler := OnCompletedJob (job_scheduler x)\<rparr>)"
| sys_job_throws:
    "job_ends (thread_manager x) p \<Longrightarrow>
     sys_worker_step x (x\<lparr>thread_manager := p,
       job_scheduler := (job_scheduler x)\<lparr>jobs_lost := jobs_lost (job_scheduler x) + 1\<rparr>\<rparr>)"

text \<open>Thread \<open>i\<close> calls \<^verbatim>\<open>AddSplitterJob\<close>, as client \<open>i\<close> of the pool.\<close>

definition calling :: "nat \<Rightarrow> add_pc \<Rightarrow> system \<Rightarrow> bool" where
  "calling i a x \<longleftrightarrow> i < length (adders (job_scheduler x)) \<and> adders (job_scheduler x) ! i = a \<and>
     i < length (cs (thread_manager x))"

definition adder_at :: "nat \<Rightarrow> add_pc \<Rightarrow> scheduler \<Rightarrow> scheduler" where
  "adder_at i a s = s\<lparr>adders := (adders s)[i := a]\<rparr>"

inductive adder_step :: "pool_cfg \<Rightarrow> system \<Rightarrow> system \<Rightarrow> bool" for cfg where
  sys_register:
    "calling i A_Idle x \<Longrightarrow> adder_step cfg x (x\<lparr>job_scheduler := adder_at i A_Registered (job_scheduler x)\<rparr>)"
| sys_add_pending:
    "\<lbrakk>calling i A_Registered x; add_call cfg i job 0 Add_pending (thread_manager x) p\<rbrakk> \<Longrightarrow>
     adder_step cfg x (x\<lparr>thread_manager := p\<rparr>)"
| sys_add_done:
    "\<lbrakk>calling i A_Registered x; add_call cfg i job 0 Add_done (thread_manager x) p;
      s = adder_at i A_Added (job_scheduler x)\<rbrakk> \<Longrightarrow>
     adder_step cfg x (x\<lparr>thread_manager := p, job_scheduler := s\<lparr>jobs_added := jobs_added s + 1\<rparr>\<rparr>)"
| sys_add_throws:
    "\<lbrakk>calling i A_Registered x; add_call cfg i job 0 (Add_threw e) (thread_manager x) p\<rbrakk> \<Longrightarrow>
     adder_step cfg x (x\<lparr>thread_manager := p, job_scheduler := adder_at i A_Idle (job_scheduler x)\<rparr>)"
| sys_count:
    "calling i A_Added x \<Longrightarrow>
     adder_step cfg x (x\<lparr>job_scheduler := AddSplitterJob_count (adder_at i A_Idle (job_scheduler x))\<rparr>)"

inductive sys_step :: "pool_cfg \<Rightarrow> system \<Rightarrow> system \<Rightarrow> bool" for cfg where
  sys_by_worker: "sys_worker_step x y \<Longrightarrow> sys_step cfg x y"
| sys_by_adder: "adder_step cfg x y \<Longrightarrow> sys_step cfg x y"
| sys_by_control: "control_step cfg (thread_manager x) p \<Longrightarrow> sys_step cfg x (x\<lparr>thread_manager := p\<rparr>)"
| sys_by_waiter: "waiter_step (job_scheduler x) s \<Longrightarrow> sys_step cfg x (x\<lparr>job_scheduler := s\<rparr>)"

definition sys_start :: "system \<Rightarrow> bool" where
  "sys_start x \<longleftrightarrow> pool_start (thread_manager x) \<and> sched_start (job_scheduler x)"

abbreviation sys_reach :: "pool_cfg \<Rightarrow> system \<Rightarrow> bool" where
  "sys_reach cfg \<equiv> reachable sys_start (sys_step cfg)"

subsection \<open>The system seen from the pool\<close>

lemma sys_worker_pool: "sys_worker_step x y \<Longrightarrow> worker_step (thread_manager x) (thread_manager y)"
  by (induction rule: sys_worker_step.induct) (auto dest: job_ends_worker)

lemma adder_pool:
  "adder_step cfg x y \<Longrightarrow>
   thread_manager y = thread_manager x \<or> task_step cfg (thread_manager x) (thread_manager y)"
  by (induction rule: adder_step.induct) (auto dest: add_call_step)

lemma sys_pool:
  "sys_step cfg x y \<Longrightarrow> thread_manager y = thread_manager x \<or> pool_step cfg (thread_manager x) (thread_manager y)"
  by (induction rule: sys_step.induct)
    (auto dest: sys_worker_pool adder_pool intro: pool_step.intros)

lemma sys_reach_pool: "sys_reach cfg x \<Longrightarrow> reach cfg (thread_manager x)"
proof (induction rule: reachable.induct)
  case (reachable_init x)
  then show ?case by (auto simp: sys_start_def intro: reachable.reachable_init)
next
  case (reachable_step x y)
  then show ?case by (metis sys_pool reachable.reachable_step)
qed

subsection \<open>The account of the jobs\<close>

definition jobs_inv :: "system \<Rightarrow> bool" where
  "jobs_inv x \<longleftrightarrow>
     length (h_added (thread_manager x)) = jobs_added (job_scheduler x) \<and>
     length (h_started (thread_manager x)) =
       jobs_done (job_scheduler x) + jobs_lost (job_scheduler x) + size (runs (ws (thread_manager x))) \<and>
     list_all undying (h_added (thread_manager x))"

lemma jobs_inv_worker: "sys_worker_step x y \<Longrightarrow> jobs_inv x \<Longrightarrow> jobs_inv y"
proof (induction rule: sys_worker_step.induct)
  case (sys_worker x p)
  with worker_keeps [of "thread_manager x" p] show ?case by (simp add: jobs_inv_def)
next
  case (sys_job_done x p)
  with job_ends_count [of "thread_manager x" p] show ?case by (simp add: jobs_inv_def OnCompletedJob_def)
next
  case (sys_job_throws x p)
  with job_ends_count [of "thread_manager x" p] show ?case by (simp add: jobs_inv_def)
qed

lemma jobs_inv_adder: "adder_step cfg x y \<Longrightarrow> jobs_inv x \<Longrightarrow> jobs_inv y"
proof (induction rule: adder_step.induct)
  case (sys_add_done i x job p s)
  from add_call_keeps [OF sys_add_done(2)] sys_add_done(3,4) show ?case
    by (auto simp: jobs_inv_def adder_at_def)
next
  case (sys_add_pending i x job p)
  from add_call_keeps [OF sys_add_pending(2)] sys_add_pending(3) show ?case by (simp add: jobs_inv_def)
next
  case (sys_add_throws i x job e p)
  from add_call_keeps [OF sys_add_throws(2)] sys_add_throws(3) show ?case by (simp add: jobs_inv_def adder_at_def)
qed (simp_all add: jobs_inv_def AddSplitterJob_count_def adder_at_def)

lemma waiter_keeps:
  "waiter_step s s' \<Longrightarrow> jobs_added s' = jobs_added s \<and> jobs_done s' = jobs_done s \<and> jobs_lost s' = jobs_lost s \<and> adders s' = adders s"
  by (induction rule: waiter_step.induct) auto

lemma jobs_inv_step: "sys_step cfg x y \<Longrightarrow> jobs_inv x \<Longrightarrow> jobs_inv y"
proof (induction rule: sys_step.induct)
  case (sys_by_control x p)
  with control_account [OF sys_by_control(1)] show ?case by (simp add: jobs_inv_def)
next
  case (sys_by_waiter x s)
  with waiter_keeps [OF sys_by_waiter(1)] show ?case by (simp add: jobs_inv_def)
qed (auto intro: jobs_inv_worker jobs_inv_adder)

lemma jobs_inv_start: "sys_start x \<Longrightarrow> jobs_inv x"
  by (auto simp: sys_start_def pool_start_def pool_init_def sched_start_def SplitterJobScheduler_new_def jobs_inv_def)

interpretation jobs: inductive_invariant sys_start "sys_step cfg" jobs_inv
  by unfold_locales (blast intro: jobs_inv_start jobs_inv_step)+

subsection \<open>The system seen from the scheduler\<close>

text \<open>A job that ends was added, and had not ended before.\<close>

lemma job_ends_room:
  assumes "jobs_inv x" "fifo_inv (thread_manager x)" "job_ends (thread_manager x) p"
  shows "jobs_done (job_scheduler x) + jobs_lost (job_scheduler x) < jobs_added (job_scheduler x)"
  using assms(1) started_added [OF assms(2)] job_ends_count [OF assms(3)] by (simp add: jobs_inv_def)

lemma worker_sched:
  assumes "sys_worker_step x y" "jobs_inv x" "fifo_inv (thread_manager x)"
  shows "job_scheduler y = job_scheduler x \<or> sched_step (job_scheduler x) (job_scheduler y)"
  using assms
proof (induction rule: sys_worker_step.induct)
  case (sys_job_throws x p)
  from sched_job_throws [OF job_ends_room [OF sys_job_throws(2,3,1)]] show ?case by simp
qed (auto dest: job_ends_room intro: sched_job_done)

lemma adder_sched:
  "adder_step cfg x y \<Longrightarrow> job_scheduler y = job_scheduler x \<or> sched_step (job_scheduler x) (job_scheduler y)"
proof (induction rule: adder_step.induct)
  case (sys_add_done i x job p s)
  then show ?case using sched_add [of i "job_scheduler x"] by (simp add: calling_def adder_at_def)
qed (auto simp: calling_def adder_at_def intro: sched_register sched_add_throws sched_count)

lemma sys_sched:
  assumes "sys_step cfg x y" "jobs_inv x" "fifo_inv (thread_manager x)"
  shows "job_scheduler y = job_scheduler x \<or> sched_step (job_scheduler x) (job_scheduler y)"
  using assms
  by (induction rule: sys_step.induct) (auto dest: worker_sched adder_sched intro: by_waiter)

lemma sys_reach_sched: "sys_reach cfg x \<Longrightarrow> sched_reach (job_scheduler x)"
proof (induction rule: reachable.induct)
  case (reachable_init x)
  then show ?case by (auto simp: sys_start_def intro: reachable.reachable_init)
next
  case (reachable_step x y)
  have "jobs_inv x" using reachable_step(1) by (rule jobs.always)
  moreover have "fifo_inv (thread_manager x)" using sys_reach_pool [OF reachable_step(1)] by (rule fifo.always)
  ultimately show ?case
    using sys_sched [OF reachable_step(2)] reachable_step(3) by (metis reachable.reachable_step)
qed

subsection \<open>The system at rest\<close>

definition sys_work :: "system \<Rightarrow> system \<Rightarrow> bool" where
  "sys_work x y \<longleftrightarrow> sys_worker_step x y \<and> \<not> wakes_up (thread_manager x) (thread_manager y)"

lemma sys_work_pool: "sys_work x y \<Longrightarrow> work (thread_manager x) (thread_manager y)"
  by (auto simp: sys_work_def work_def dest: sys_worker_pool)

lemma sys_work_exists:
  assumes "work (thread_manager x) p"
  shows "\<exists>y. sys_work x y"
proof (cases "job_ends (thread_manager x) p")
  case True
  let ?y = "x\<lparr>thread_manager := p, job_scheduler := OnCompletedJob (job_scheduler x)\<rparr>"
  have "sys_worker_step x ?y" using True by (rule sys_job_done)
  with assms have "sys_work x ?y" by (simp add: sys_work_def work_def)
  then show ?thesis ..
next
  case False
  have "sys_worker_step x (x\<lparr>thread_manager := p\<rparr>)" using assms False by (simp add: work_def sys_worker)
  with assms have "sys_work x (x\<lparr>thread_manager := p\<rparr>)" by (simp add: sys_work_def work_def)
  then show ?thesis ..
qed

lemma sys_work_ends: "\<nexists>f. \<forall>n. sys_work (f n) (f (Suc n))"
proof
  assume "\<exists>f. \<forall>n. sys_work (f n) (f (Suc n))"
  then obtain f where f: "\<And>n. sys_work (f n) (f (Suc n))" by auto
  have "\<forall>n. work (thread_manager (f n)) (thread_manager (f (Suc n)))" using sys_work_pool [OF f] by simp
  then have "\<exists>g. \<forall>n. work (g n) (g (Suc n))" by (rule exI [of _ "\<lambda>n. thread_manager (f n)"])
  with work_ends show False by (rule notE)
qed

lemma sys_work_reach:
  "sys_work\<^sup>*\<^sup>* x y \<Longrightarrow> sys_reach cfg x \<Longrightarrow>
     sys_reach cfg y \<and> length (ws (thread_manager y)) = length (ws (thread_manager x)) \<and>
     adders (job_scheduler y) = adders (job_scheduler x) \<and> jobs_added (job_scheduler y) = jobs_added (job_scheduler x)"
proof (induction rule: rtranclp_induct)
  case (step y z)
  from step(2) have z: "sys_worker_step y z" by (simp add: sys_work_def)
  then have "length (ws (thread_manager z)) = length (ws (thread_manager y))"
    using ws_grow_worker sys_worker_pool by blast
  moreover have "adders (job_scheduler z) = adders (job_scheduler y) \<and>
      jobs_added (job_scheduler z) = jobs_added (job_scheduler y)"
    using z by (induction rule: sys_worker_step.induct) (simp_all add: OnCompletedJob_def)
  ultimately show ?case using step z by (auto intro: reachable_step sys_by_worker)
qed simp

lemma rest_all_ended:
  assumes inv: "jobs_inv x" "fifo_inv (thread_manager x)" "served_inv cfg (thread_manager x)"
    and "\<forall>i. \<not> pops cfg i" "tasks (mgr (thread_manager x)) = []" "\<forall>p \<in> set (ws (thread_manager x)). \<not> busy p"
  shows "jobs_done (job_scheduler x) + jobs_lost (job_scheduler x) = jobs_added (job_scheduler x)"
proof -
  let ?p = "thread_manager x"
  have "length (h_started ?p) = length (h_added ?p)"
    using all_started [OF inv(2,3) assms(4,5)] inv(1) by (simp add: jobs_inv_def)
  moreover have "runs (ws ?p) = {#}" using assms(6) by (rule runs_not_busy)
  ultimately show ?thesis using inv(1) by (simp add: jobs_inv_def)
qed

subsection \<open>A run\<close>

text \<open>The scheduler's pool with one worker and no bound; the thread that created it adds a job.\<close>

definition sys_ex :: "pool \<Rightarrow> scheduler \<Rightarrow> system" where
  "sys_ex p s = \<lparr>thread_manager = p, job_scheduler = s\<rparr>"

definition pool_ex :: "Task list \<Rightarrow> wpc \<Rightarrow> Task list \<Rightarrow> pool" where
  "pool_ex ts p added = ex_pool (run_mgr STARTED 1 1 ts {0} {} [100 \<mapsto> 0]) [p] [C_Ret None] added []"

lemma sys_run_loop: "sys_reach run_cfg (sys_ex (pool_ex [] W_Loop []) (sched_ex 0 A_Idle Wt_Idle 0 0 0))"
proof -
  let ?Q = "\<lambda>p. sys_reach run_cfg (sys_ex p (sched_ex 0 A_Idle Wt_Idle 0 0 0))"
  show ?thesis
    unfolding pool_ex_def
  proof (rule run_to_loop_by [of ?Q])
    show "?Q (pool_init 1)"
      by (rule reachable_init)
        (auto simp: sys_start_def sys_ex_def pool_start_def sched_start_def sched_ex_def
          SplitterJobScheduler_new_def intro!: exI [of _ "Suc 0"])
  next
    fix s t assume "?Q s" "control_step run_cfg s t"
    then show "?Q t"
      using sys_by_control [of run_cfg "sys_ex s (sched_ex 0 A_Idle Wt_Idle 0 0 0)" t]
      by (auto simp: sys_ex_def intro: reachable_step)
  next
    fix s t assume Q: "?Q s" and step: "worker_step s t" and "\<forall>p \<in> set (ws s). \<forall>t. p \<noteq> W_Run t"
    then have "\<not> job_ends s t" by (auto simp: job_ends_def)
    with Q step show "?Q t"
      using sys_worker [of "sys_ex s (sched_ex 0 A_Idle Wt_Idle 0 0 0)" t]
      by (auto simp: sys_ex_def intro!: reachable_step [OF Q [unfolded sys_ex_def]] sys_by_worker)
  qed
qed

lemma sys_run_added: "sys_reach run_cfg (sys_ex (pool_ex [ex_task] W_Loop [ex_task]) (sched_ex 1 A_Idle Wt_Idle 1 1 0))"
proof -
  let ?p = "pool_ex [] W_Loop []" and ?p' = "pool_ex [ex_task] W_Loop [ex_task]"
  have registered: "sys_reach run_cfg (sys_ex ?p (sched_ex 0 A_Registered Wt_Idle 0 0 0))"
    by (rule reachable_step [OF sys_run_loop], rule sys_by_adder)
      (use sys_register [of 0 "sys_ex ?p (sched_ex 0 A_Idle Wt_Idle 0 0 0)" run_cfg] in
        \<open>simp add: calling_def adder_at_def sys_ex_def sched_ex_def pool_ex_def run_defs\<close>)
  have "Add_enter True (cid run_cfg 0) 5 5 7 0 0 (mgr ?p) = Add_queued False [] (mgr ?p')"
    by (simp add: Add_enter_def RemoveExpiredTasks_eq queue_full_def tasks_size_def Add_push_def
        Task_new_def callback_calls_def ex_task_def pool_ex_def run_defs)
  from call_queued [OF _ _ _ this, of None]
  have "add_call run_cfg 0 7 0 Add_done ?p ?p'"
    by (simp add: pool_ex_def new_task_def Task_new_def ex_task_def run_defs)
  then have "adder_step run_cfg (sys_ex ?p (sched_ex 0 A_Registered Wt_Idle 0 0 0)) (sys_ex ?p' (sched_ex 0 A_Added Wt_Idle 1 0 0))"
    using sys_add_done [of 0 "sys_ex ?p (sched_ex 0 A_Registered Wt_Idle 0 0 0)" run_cfg 7 ?p']
    by (simp add: calling_def adder_at_def sys_ex_def sched_ex_def pool_ex_def run_defs)
  then have "sys_reach run_cfg (sys_ex ?p' (sched_ex 0 A_Added Wt_Idle 1 0 0))"
    by (rule reachable_step [OF registered sys_by_adder])
  then show ?thesis
    by (rule reachable_step, intro sys_by_adder)
      (use sys_count [of 0 "sys_ex ?p' (sched_ex 0 A_Added Wt_Idle 1 0 0)" run_cfg] in
        \<open>simp add: calling_def adder_at_def sys_ex_def sched_ex_def AddSplitterJob_count_def pool_ex_def run_defs\<close>)
qed

subsection \<open>Properties\<close>

text \<open>C12. The composition is sound: in every run of the scheduler on its pool, whatever the callers and
  workers do, the pool alone behaves as a pool, and the scheduler alone behaves as the theory
  \<open>Scheduler\<close> describes, in which a job ends only if it was added and had not ended before.\<close>

theorem system_refines:
  assumes "sys_reach cfg x"
  shows "reach cfg (thread_manager x) \<and> sched_reach (job_scheduler x)"
  using sys_reach_pool [OF assms] sys_reach_sched [OF assms] by simp

theorem system_refines_witness: "sched_reach (sched_ex 1 A_Idle Wt_Idle 1 1 0)"
  using system_refines [OF sys_run_added] by (simp add: sys_ex_def)

text \<open>C3. All jobs end. From every reachable state of the scheduler on its pool the workers come to
  rest, in any order, after finitely many steps. If the pool has workers, no call of \<^verbatim>\<open>AddSplitterJob\<close> is
  about to count its job, and fewer than \<open>2 ^ 64\<close> jobs were added, then every job has ended and the counter is
  the number of jobs that threw: \<^verbatim>\<open>WaitAllJobDone\<close> returns at its next test exactly if there is none.\<close>

theorem all_jobs_end:
  assumes "sys_reach cfg x" and "managed cfg c" and "length (ws (thread_manager x)) < 2 ^ 64"
    and "\<forall>i. \<not> pops cfg i \<and> \<not> purges cfg i"
    and "A_Added \<notin> set (adders (job_scheduler x))" and "jobs_added (job_scheduler x) < 2 ^ 64"
  shows "(\<nexists>f. f 0 = x \<and> (\<forall>n. sys_work (f n) (f (Suc n)))) \<and>
    (\<forall>y. sys_work\<^sup>*\<^sup>* x y \<and> (\<nexists>z. sys_work y z) \<and> WorkerCount (mgr (thread_manager y)) \<noteq> 0 \<longrightarrow>
       jobs_done (job_scheduler y) + jobs_lost (job_scheduler y) = jobs_added (job_scheduler y) \<and>
       unat (pending_job_count (job_scheduler y)) = jobs_lost (job_scheduler y))"
proof (intro conjI allI impI; (elim conjE)?)
  show "\<nexists>f. f 0 = x \<and> (\<forall>n. sys_work (f n) (f (Suc n)))" using sys_work_ends by auto
next
  fix y assume "sys_work\<^sup>*\<^sup>* x y" and rest: "\<nexists>z. sys_work y z" and
    workers: "WorkerCount (mgr (thread_manager y)) \<noteq> 0"
  from sys_work_reach [OF this(1) assms(1)] have y: "sys_reach cfg y"
    "length (ws (thread_manager y)) < 2 ^ 64" "A_Added \<notin> set (adders (job_scheduler y))"
    "jobs_added (job_scheduler y) < 2 ^ 64" using assms(3,5,6) by auto
  note pool = sys_reach_pool [OF y(1)]
  from rest have still: "\<nexists>p. work (thread_manager y) p" using sys_work_exists by blast
  from quiescent [OF pool assms(2) y(2) assms(4) still] workers
  have "tasks (mgr (thread_manager y)) = []" by (simp add: at_rest_def)
  then show all: "jobs_done (job_scheduler y) + jobs_lost (job_scheduler y) = jobs_added (job_scheduler y)"
    using rest_all_ended [OF jobs.always [OF y(1)] fifo.always [OF pool] served.always [OF pool]]
      assms(4) no_work [OF still] by simp
  have "sched_inv (job_scheduler y)" using sys_reach_sched [OF y(1)] by (rule sched.always)
  moreover have "cnt (\<lambda>p. p = A_Added) (adders (job_scheduler y)) = 0" using y(3) by (auto simp: cnt_zero_iff)
  ultimately have "pending_job_count (job_scheduler y) = of_nat (jobs_lost (job_scheduler y))"
    by (simp add: sched_inv_def all [symmetric])
  then show "unat (pending_job_count (job_scheduler y)) = jobs_lost (job_scheduler y)"
    using y(4) all by (simp add: unat_of_nat)
qed

theorem all_jobs_end_witness:
  "let x = sys_ex (pool_ex [ex_task] W_Loop [ex_task]) (sched_ex 1 A_Idle Wt_Idle 1 1 0)
   in (\<exists>y. sys_work x y) \<and>
     {y. sys_work\<^sup>*\<^sup>* x y \<and> (\<nexists>z. sys_work y z) \<and> WorkerCount (mgr (thread_manager y)) \<noteq> 0}
       \<subseteq> {y. jobs_done (job_scheduler y) + jobs_lost (job_scheduler y) = jobs_added (job_scheduler y)}"
proof -
  let ?x = "sys_ex (pool_ex [ex_task] W_Loop [ex_task]) (sched_ex 1 A_Idle Wt_Idle 1 1 0)"
  have "\<exists>p. work (thread_manager ?x) p"
    by (rule busy_can_work [of 0]) (simp_all add: sys_ex_def pool_ex_def run_defs)
  then have "\<exists>y. sys_work ?x y" using sys_work_exists by blast
  with all_jobs_end [OF sys_run_added run_cfg_managed(1) _ run_cfg_managed(2)] show ?thesis
    by (auto simp: Let_def) (simp_all add: sys_ex_def pool_ex_def sched_ex_def run_defs)
qed

end
