(* ===== verification/Mutex.thy ===== *)
theory Mutex
  imports Time_Util
begin

text \<open>
  \<^verbatim>\<open>src/threads/mutex.h\<close> and \<^verbatim>\<open>src/threads/mutex.cc\<close> without the starvation-free lock, which
  has a theory of its own. The \<^verbatim>\<open>pthread_mutex_*\<close> and \<^verbatim>\<open>pthread_rwlock_*\<close> functions are
  not part of the sources: they are a parameter (a record of functions on an abstract lock
  state \<open>'m\<close>, each taking the calling thread), and the locales below state the documented
  behaviour the code relies on. \<^verbatim>\<open>Mutex\<close> and \<^verbatim>\<open>ReadWriteMutex\<close> have virtual methods, so the
  guards are written over a method table.
\<close>

datatype mutex_type =
  PTHREAD_MUTEX_DEFAULT | PTHREAD_MUTEX_ADAPTIVE_NP | PTHREAD_MUTEX_RECURSIVE_NP

record ('t, 'm) pthread_mutex_api =
  pthread_mutexattr_init :: int
  pthread_mutexattr_settype :: "mutex_type \<Rightarrow> int"
  pthread_mutexattr_destroy :: int
  pthread_mutex_init :: "mutex_type \<Rightarrow> int \<times> 'm"
  pthread_mutex_destroy :: "'m \<Rightarrow> int"
  pthread_mutex_lock :: "'t \<Rightarrow> 'm \<Rightarrow> (int \<times> 'm) call"
  pthread_mutex_trylock :: "'t \<Rightarrow> 'm \<Rightarrow> int \<times> 'm"
  pthread_mutex_timedlock :: "'t \<Rightarrow> timespec \<Rightarrow> 'm \<Rightarrow> int \<times> 'm"
  pthread_mutex_unlock :: "'t \<Rightarrow> 'm \<Rightarrow> int \<times> 'm"

definition DCHECK :: "bool \<Rightarrow> unit res" where
  "DCHECK b = (if b then Inr () else Inl Aborted)"

subsection \<open>Mutex::Impl\<close>

record 'm Mutex_Impl =
  pthread_mutex :: 'm
  initialized :: bool

definition DefaultInitializer :: "('t, 'm) pthread_mutex_api \<Rightarrow> 'm res" where
  "DefaultInitializer api =
     (case pthread_mutex_init api PTHREAD_MUTEX_DEFAULT of (ret, m) \<Rightarrow>
       bind_res (DCHECK (ret = 0)) (\<lambda>_. Inr m))"

definition InitWithKind :: "('t, 'm) pthread_mutex_api \<Rightarrow> mutex_type \<Rightarrow> 'm res" where
  "InitWithKind api kind =
     bind_res (DCHECK (pthread_mutexattr_init api = 0)) (\<lambda>_.
     bind_res (DCHECK (pthread_mutexattr_settype api kind = 0)) (\<lambda>_.
     case pthread_mutex_init api kind of (ret, m) \<Rightarrow>
     bind_res (DCHECK (ret = 0)) (\<lambda>_.
     bind_res (DCHECK (pthread_mutexattr_destroy api = 0)) (\<lambda>_. Inr m))))"

definition AdaptiveInitializer :: "('t, 'm) pthread_mutex_api \<Rightarrow> 'm res" where
  "AdaptiveInitializer api = InitWithKind api PTHREAD_MUTEX_ADAPTIVE_NP"

definition RecursiveInitializer :: "('t, 'm) pthread_mutex_api \<Rightarrow> 'm res" where
  "RecursiveInitializer api = InitWithKind api PTHREAD_MUTEX_RECURSIVE_NP"

definition Mutex_Impl_new :: "'m res \<Rightarrow> 'm Mutex_Impl res" where
  "Mutex_Impl_new Init = bind_res Init (\<lambda>m. Inr \<lparr>pthread_mutex = m, initialized = True\<rparr>)"

definition Mutex_Impl_delete ::
  "('t, 'm) pthread_mutex_api \<Rightarrow> 'm Mutex_Impl \<Rightarrow> 'm Mutex_Impl res" where
  "Mutex_Impl_delete api impl =
     (if initialized impl then
        bind_res (DCHECK (pthread_mutex_destroy api (pthread_mutex impl) = 0))
          (\<lambda>_. Inr (impl\<lparr>initialized := False\<rparr>))
      else Inr impl)"

text \<open>The return code of the lock call is dropped; so is that of the unlock call.\<close>

definition Mutex_Lock ::
  "('t, 'm) pthread_mutex_api \<Rightarrow> 't \<Rightarrow> 'm Mutex_Impl \<Rightarrow> 'm Mutex_Impl call" where
  "Mutex_Lock api t impl =
     bind_call (pthread_mutex_lock api t (pthread_mutex impl))
       (\<lambda>(ret, m). Returns (impl\<lparr>pthread_mutex := m\<rparr>))"

definition Mutex_TryLock ::
  "('t, 'm) pthread_mutex_api \<Rightarrow> 't \<Rightarrow> 'm Mutex_Impl \<Rightarrow> bool \<times> 'm Mutex_Impl" where
  "Mutex_TryLock api t impl =
     (case pthread_mutex_trylock api t (pthread_mutex impl) of (ret, m) \<Rightarrow>
       (ret = 0, impl\<lparr>pthread_mutex := m\<rparr>))"

definition Impl_TimedLock ::
  "('t, 'm) pthread_mutex_api \<Rightarrow> clock_reading \<Rightarrow> 't \<Rightarrow> int \<Rightarrow> 'm Mutex_Impl \<Rightarrow>
     (bool \<times> 'm Mutex_Impl) res" where
  "Impl_TimedLock api rt t milliseconds impl =
     bind_res (CurrentTime rt) (\<lambda>now.
     bind_res (add64 milliseconds now) (\<lambda>deadline.
     case pthread_mutex_timedlock api t (ToTimespec deadline) (pthread_mutex impl) of (ret, m) \<Rightarrow>
       Inr (ret = 0, impl\<lparr>pthread_mutex := m\<rparr>)))"

text \<open>\<^verbatim>\<open>Mutex::TimedLock(int64_t)\<close> hands its argument to \<^verbatim>\<open>Impl::TimedLock(int)\<close>.\<close>

definition Mutex_TimedLock ::
  "('t, 'm) pthread_mutex_api \<Rightarrow> clock_reading \<Rightarrow> 't \<Rightarrow> int64 \<Rightarrow> 'm Mutex_Impl \<Rightarrow>
     (bool \<times> 'm Mutex_Impl) res" where
  "Mutex_TimedLock api rt t ms impl = Impl_TimedLock api rt t (narrow32 ms) impl"

definition Mutex_Unlock ::
  "('t, 'm) pthread_mutex_api \<Rightarrow> 't \<Rightarrow> 'm Mutex_Impl \<Rightarrow> 'm Mutex_Impl" where
  "Mutex_Unlock api t impl =
     impl\<lparr>pthread_mutex := snd (pthread_mutex_unlock api t (pthread_mutex impl))\<rparr>"

definition Mutex_GetUnderlyingImpl :: "'m Mutex_Impl \<Rightarrow> 'm" where
  "Mutex_GetUnderlyingImpl impl = pthread_mutex impl"

subsection \<open>Guard\<close>

text \<open>The virtual methods of a \<^verbatim>\<open>Mutex\<close>, as the guard calls them.\<close>

record ('t, 's) Mutex_methods =
  Lock :: "'t \<Rightarrow> 's \<Rightarrow> 's call"
  TryLock :: "'t \<Rightarrow> 's \<Rightarrow> bool \<times> 's"
  TimedLock :: "'t \<Rightarrow> int64 \<Rightarrow> 's \<Rightarrow> (bool \<times> 's) res"
  Unlock :: "'t \<Rightarrow> 's \<Rightarrow> 's"

definition Mutex_vtable ::
  "('t, 'm) pthread_mutex_api \<Rightarrow> clock_reading \<Rightarrow> ('t, 'm Mutex_Impl) Mutex_methods" where
  "Mutex_vtable api rt =
     \<lparr>Lock = Mutex_Lock api, TryLock = Mutex_TryLock api,
      TimedLock = Mutex_TimedLock api rt, Unlock = Mutex_Unlock api\<rparr>"

text \<open>A guard is whether its pointer \<^verbatim>\<open>mutex_\<close> is set (\<^verbatim>\<open>operator bool\<close>).\<close>

definition Guard_new ::
  "('t, 's) Mutex_methods \<Rightarrow> 't \<Rightarrow> int64 \<Rightarrow> 's \<Rightarrow> (bool \<times> 's) call" where
  "Guard_new M t timeout mutex =
     (if timeout = 0 then bind_call (Lock M t mutex) (\<lambda>mutex'. Returns (True, mutex'))
      else if timeout < 0 then Returns (TryLock M t mutex)
      else call_of_res (TimedLock M t timeout mutex))"

definition Guard_delete :: "('t, 's) Mutex_methods \<Rightarrow> 't \<Rightarrow> bool \<Rightarrow> 's \<Rightarrow> 's" where
  "Guard_delete M t g mutex = (if g then Unlock M t mutex else mutex)"

subsection \<open>ReadWriteMutex and RWGuard\<close>

record ('t, 'l) pthread_rwlock_api =
  pthread_rwlock_init :: "int \<times> 'l"
  pthread_rwlock_destroy :: "'l \<Rightarrow> int"
  pthread_rwlock_rdlock :: "'t \<Rightarrow> 'l \<Rightarrow> (int \<times> 'l) call"
  pthread_rwlock_wrlock :: "'t \<Rightarrow> 'l \<Rightarrow> (int \<times> 'l) call"
  pthread_rwlock_tryrdlock :: "'t \<Rightarrow> 'l \<Rightarrow> int \<times> 'l"
  pthread_rwlock_trywrlock :: "'t \<Rightarrow> 'l \<Rightarrow> int \<times> 'l"
  pthread_rwlock_unlock :: "'t \<Rightarrow> 'l \<Rightarrow> int \<times> 'l"

record 'l RW_Impl =
  rw_lock :: 'l
  rw_initialized :: bool

definition RW_Impl_new :: "('t, 'l) pthread_rwlock_api \<Rightarrow> 'l RW_Impl res" where
  "RW_Impl_new api = (case pthread_rwlock_init api of (ret, l) \<Rightarrow>
     bind_res (DCHECK (ret = 0)) (\<lambda>_. Inr \<lparr>rw_lock = l, rw_initialized = True\<rparr>))"

definition RW_Impl_delete ::
  "('t, 'l) pthread_rwlock_api \<Rightarrow> 'l RW_Impl \<Rightarrow> 'l RW_Impl res" where
  "RW_Impl_delete api impl =
     (if rw_initialized impl then
        bind_res (DCHECK (pthread_rwlock_destroy api (rw_lock impl) = 0))
          (\<lambda>_. Inr (impl\<lparr>rw_initialized := False\<rparr>))
      else Inr impl)"

definition RW_AcquireRead ::
  "('t, 'l) pthread_rwlock_api \<Rightarrow> 't \<Rightarrow> 'l RW_Impl \<Rightarrow> 'l RW_Impl call" where
  "RW_AcquireRead api t impl =
     bind_call (pthread_rwlock_rdlock api t (rw_lock impl)) (\<lambda>(ret, l). Returns (impl\<lparr>rw_lock := l\<rparr>))"

definition RW_AcquireWrite ::
  "('t, 'l) pthread_rwlock_api \<Rightarrow> 't \<Rightarrow> 'l RW_Impl \<Rightarrow> 'l RW_Impl call" where
  "RW_AcquireWrite api t impl =
     bind_call (pthread_rwlock_wrlock api t (rw_lock impl)) (\<lambda>(ret, l). Returns (impl\<lparr>rw_lock := l\<rparr>))"

definition RW_AttemptRead ::
  "('t, 'l) pthread_rwlock_api \<Rightarrow> 't \<Rightarrow> 'l RW_Impl \<Rightarrow> bool \<times> 'l RW_Impl" where
  "RW_AttemptRead api t impl =
     (case pthread_rwlock_tryrdlock api t (rw_lock impl) of (ret, l) \<Rightarrow>
       (\<not> (ret \<noteq> 0), impl\<lparr>rw_lock := l\<rparr>))"

definition RW_AttemptWrite ::
  "('t, 'l) pthread_rwlock_api \<Rightarrow> 't \<Rightarrow> 'l RW_Impl \<Rightarrow> bool \<times> 'l RW_Impl" where
  "RW_AttemptWrite api t impl =
     (case pthread_rwlock_trywrlock api t (rw_lock impl) of (ret, l) \<Rightarrow>
       (\<not> (ret \<noteq> 0), impl\<lparr>rw_lock := l\<rparr>))"

definition RW_Release ::
  "('t, 'l) pthread_rwlock_api \<Rightarrow> 't \<Rightarrow> 'l RW_Impl \<Rightarrow> 'l RW_Impl" where
  "RW_Release api t impl = impl\<lparr>rw_lock := snd (pthread_rwlock_unlock api t (rw_lock impl))\<rparr>"

record ('t, 's) RW_methods =
  AcquireRead :: "'t \<Rightarrow> 's \<Rightarrow> 's call"
  AcquireWrite :: "'t \<Rightarrow> 's \<Rightarrow> 's call"
  Release :: "'t \<Rightarrow> 's \<Rightarrow> 's"

definition RW_vtable :: "('t, 'l) pthread_rwlock_api \<Rightarrow> ('t, 'l RW_Impl) RW_methods" where
  "RW_vtable api = \<lparr>AcquireRead = RW_AcquireRead api, AcquireWrite = RW_AcquireWrite api,
                    Release = RW_Release api\<rparr>"

datatype RWGuardType = RW_READ | RW_WRITE

definition RWGuard_new_bool :: "('t, 's) RW_methods \<Rightarrow> 't \<Rightarrow> bool \<Rightarrow> 's \<Rightarrow> 's call" where
  "RWGuard_new_bool M t write rw = (if write then AcquireWrite M t rw else AcquireRead M t rw)"

definition RWGuard_new_type :: "('t, 's) RW_methods \<Rightarrow> 't \<Rightarrow> RWGuardType \<Rightarrow> 's \<Rightarrow> 's call" where
  "RWGuard_new_type M t type rw =
     (if type = RW_WRITE then AcquireWrite M t rw else AcquireRead M t rw)"

definition RWGuard_delete :: "('t, 's) RW_methods \<Rightarrow> 't \<Rightarrow> 's \<Rightarrow> 's" where
  "RWGuard_delete M t rw = Release M t rw"

subsection \<open>The contract of a mutex and what a guard makes of it\<close>

text \<open>
  The laws a client of \<^verbatim>\<open>Mutex\<close> relies on, over the method table. \<open>owner\<close> reads the
  thread that holds the lock. Other threads may act while a call waits, so a law only says
  what the caller knows: whether it holds the mutex when the call is back.
\<close>

locale mutex_contract =
  fixes M :: "('t, 's) Mutex_methods" and owner :: "'s \<Rightarrow> 't option"
  assumes Lock_owner: "Lock M t s = Returns s' \<Longrightarrow> owner s \<noteq> Some t \<and> owner s' = Some t"
    and Lock_free: "owner s = None \<Longrightarrow> \<exists>s'. Lock M t s = Returns s'"
    and TryLock_true: "TryLock M t s = (True, s') \<Longrightarrow> owner s = None \<and> owner s' = Some t"
    and TryLock_false: "TryLock M t s = (False, s') \<Longrightarrow> owner s \<noteq> None \<and> s' = s"
    and TimedLock_true: "TimedLock M t ms s = Inr (True, s') \<Longrightarrow> owner s' = Some t"
    and TimedLock_false:
      "TimedLock M t ms s = Inr (False, s') \<Longrightarrow> owner s' = Some t \<longleftrightarrow> owner s = Some t"
    and Unlock_owner: "owner s = Some t \<Longrightarrow> owner (Unlock M t s) = None"
begin

lemma guard_bool_iff_owner:
  assumes "owner s \<noteq> Some t" and "Guard_new M t timeout s = Returns (g, s')"
  shows "g \<longleftrightarrow> owner s' = Some t"
proof (cases "timeout = 0")
  case True
  then show ?thesis using assms by (auto simp: Guard_new_def bind_call_eq_Returns dest: Lock_owner)
next
  case False
  with assms show ?thesis
    by (cases g) (auto simp: Guard_new_def call_of_res_eq_Returns split: if_splits
        dest: TryLock_true TryLock_false TimedLock_true TimedLock_false)
qed

lemma guard_releases:
  assumes "g \<longleftrightarrow> owner s = Some t"
  shows "owner (Guard_delete M t g s) \<noteq> Some t"
  using assms by (cases g) (auto simp: Guard_delete_def dest: Unlock_owner)

lemma guard_try_never_blocks: "timeout < 0 \<Longrightarrow> \<exists>g s'. Guard_new M t timeout s = Returns (g, s')"
  by (cases "TryLock M t s") (simp add: Guard_new_def)

lemma guard_try_decides:
  assumes "timeout < 0" and "Guard_new M t timeout s = Returns (g, s')"
  shows "g \<longleftrightarrow> owner s = None"
  using assms by (cases g) (auto simp: Guard_new_def dest: TryLock_true TryLock_false)

lemma guard_blocking_true: "Guard_new M t 0 s = Returns (g, s') \<Longrightarrow> g"
  by (auto simp: Guard_new_def bind_call_eq_Returns)

end

text \<open>
  The documented behaviour of \<^verbatim>\<open>pthread_mutex_*\<close> on a mutex of the default kind: \<^verbatim>\<open>lock\<close>
  by the holder never returns, \<^verbatim>\<open>trylock\<close> returns at once with a non-zero code iff the
  mutex is held, \<^verbatim>\<open>timedlock\<close> returns 0 iff the caller holds the mutex now, \<^verbatim>\<open>unlock\<close> by
  the holder frees it.
\<close>

locale pthread_mutex_laws =
  fixes api :: "('t, 'm) pthread_mutex_api" and held_by :: "'m \<Rightarrow> 't option"
  assumes lock_returns:
      "pthread_mutex_lock api t m = Returns (ret, m') \<Longrightarrow> held_by m \<noteq> Some t \<and> held_by m' = Some t"
    and lock_when_free: "held_by m = None \<Longrightarrow> \<exists>r. pthread_mutex_lock api t m = Returns r"
    and trylock_0:
      "pthread_mutex_trylock api t m = (0, m') \<Longrightarrow> held_by m = None \<and> held_by m' = Some t"
    and trylock_busy:
      "pthread_mutex_trylock api t m = (ret, m') \<Longrightarrow> ret \<noteq> 0 \<Longrightarrow> held_by m \<noteq> None \<and> m' = m"
    and timedlock_0: "pthread_mutex_timedlock api t ts m = (0, m') \<Longrightarrow> held_by m' = Some t"
    and timedlock_timeout:
      "pthread_mutex_timedlock api t ts m = (ret, m') \<Longrightarrow> ret \<noteq> 0 \<Longrightarrow>
         held_by m' = Some t \<longleftrightarrow> held_by m = Some t"
    and unlock_by_owner: "held_by m = Some t \<Longrightarrow> held_by (snd (pthread_mutex_unlock api t m)) = None"

lemma Mutex_TimedLock_InrE:
  assumes "Mutex_TimedLock api rt t ms s = Inr (b, s')"
  obtains ts ret m where "pthread_mutex_timedlock api t ts (pthread_mutex s) = (ret, m)"
    and "b \<longleftrightarrow> ret = 0" and "s' = s\<lparr>pthread_mutex := m\<rparr>"
proof -
  from assms obtain ts where
    "(case pthread_mutex_timedlock api t ts (pthread_mutex s) of (ret, m) \<Rightarrow>
        Inr (ret = 0, s\<lparr>pthread_mutex := m\<rparr>)) = (Inr (b, s') :: fault + _)"
    by (auto simp: Mutex_TimedLock_def Impl_TimedLock_def bind_res_eq_Inr)
  then show thesis
    using that by (cases "pthread_mutex_timedlock api t ts (pthread_mutex s)") auto
qed

text \<open>Over such a library the wrapper of the sources satisfies the contract of a mutex.\<close>

lemma Mutex_vtable_contract:
  assumes "pthread_mutex_laws api held_by"
  shows "mutex_contract (Mutex_vtable api rt) (\<lambda>s. held_by (pthread_mutex s))"
proof -
  note laws = pthread_mutex_laws.lock_returns [OF assms] pthread_mutex_laws.lock_when_free [OF assms]
    pthread_mutex_laws.trylock_0 [OF assms] pthread_mutex_laws.trylock_busy [OF assms]
    pthread_mutex_laws.timedlock_0 [OF assms] pthread_mutex_laws.timedlock_timeout [OF assms]
    pthread_mutex_laws.unlock_by_owner [OF assms]
  show ?thesis
    by unfold_locales
      (auto simp: Mutex_vtable_def Mutex_Lock_def Mutex_TryLock_def Mutex_Unlock_def
        bind_call_eq_Returns split: prod.split_asm elim!: Mutex_TimedLock_InrE
        dest: laws(1,3-6) intro: laws(7) dest!: laws(2) simp flip: split_paired_Ex)
qed

text \<open>
  A default mutex as POSIX describes it, its state being the holder: the instance the
  interpretation and the witnesses use.
\<close>

definition EBUSY :: int where "EBUSY = 16"
definition ETIMEDOUT :: int where "ETIMEDOUT = 110"
definition EPERM :: int where "EPERM = 1"

definition posix_mutex :: "(nat, nat option) pthread_mutex_api" where
  "posix_mutex =
     \<lparr>pthread_mutexattr_init = 0, pthread_mutexattr_settype = (\<lambda>_. 0), pthread_mutexattr_destroy = 0,
      pthread_mutex_init = (\<lambda>_. (0, None)),
      pthread_mutex_destroy = (\<lambda>m. if m = None then 0 else EBUSY),
      pthread_mutex_lock = (\<lambda>t m. if m = None then Returns (0, Some t) else Blocks),
      pthread_mutex_trylock = (\<lambda>t m. if m = None then (0, Some t) else (EBUSY, m)),
      pthread_mutex_timedlock = (\<lambda>t ts m. if m = None then (0, Some t) else (ETIMEDOUT, m)),
      pthread_mutex_unlock = (\<lambda>t m. if m = Some t then (0, None) else (EPERM, m))\<rparr>"

interpretation posix: pthread_mutex_laws posix_mutex "\<lambda>m. m"
  by unfold_locales
    (auto simp: posix_mutex_def EBUSY_def ETIMEDOUT_def split: if_splits)

interpretation posix_guard: mutex_contract "Mutex_vtable posix_mutex rt" pthread_mutex
  by (rule Mutex_vtable_contract [OF posix.pthread_mutex_laws_axioms])

subsection \<open>Properties\<close>

text \<open>C21. Scoped locking. For every thread that does not hold the mutex, every timeout and
  every pthread library with the documented behaviour: when the constructor of \<^verbatim>\<open>Guard\<close>
  returns, the guard converts to true exactly if the thread holds the mutex, and after the
  destructor the thread does not hold it.\<close>

theorem Guard_scope:
  assumes "pthread_mutex_laws api held_by"
    and "held_by (pthread_mutex s) \<noteq> Some t"
    and "Guard_new (Mutex_vtable api rt) t timeout s = Returns (g, s')"
  shows "(g \<longleftrightarrow> held_by (pthread_mutex s') = Some t) \<and>
     held_by (pthread_mutex (Guard_delete (Mutex_vtable api rt) t g s')) \<noteq> Some t"
proof -
  note contract = Mutex_vtable_contract [OF assms(1)]
  have "g \<longleftrightarrow> held_by (pthread_mutex s') = Some t"
    using mutex_contract.guard_bool_iff_owner [OF contract assms(2) assms(3)] .
  with mutex_contract.guard_releases [OF contract this] show ?thesis by simp
qed

theorem Guard_scope_witness:
  "Guard_new (Mutex_vtable posix_mutex (0, \<lparr>tv_sec = 1, tv_nsec = 0\<rparr>)) 7 0 \<lparr>pthread_mutex = None, initialized = True\<rparr>
      = Returns (True, \<lparr>pthread_mutex = Some 7, initialized = True\<rparr>) \<and>
   pthread_mutex (Guard_delete (Mutex_vtable posix_mutex (0, \<lparr>tv_sec = 1, tv_nsec = 0\<rparr>)) 7 True
      \<lparr>pthread_mutex = Some 7, initialized = True\<rparr>) \<noteq> Some (7::nat)"
proof -
  let ?s = "\<lparr>pthread_mutex = None, initialized = True\<rparr>"
  have g: "Guard_new (Mutex_vtable posix_mutex (0, \<lparr>tv_sec = 1, tv_nsec = 0\<rparr>)) 7 0 ?s
      = Returns (True, \<lparr>pthread_mutex = Some 7, initialized = True\<rparr>)"
    by (simp add: Guard_new_def Mutex_vtable_def Mutex_Lock_def posix_mutex_def)
  show ?thesis
    using Guard_scope [OF posix.pthread_mutex_laws_axioms _ g] g by simp
qed

text \<open>A guard with a negative timeout never blocks and never fails, and it is true
  exactly if nobody held the mutex; a guard without a timeout is true whenever its
  constructor returns.\<close>

theorem Guard_timeout_modes:
  assumes "pthread_mutex_laws api held_by" and "timeout < 0"
  shows "(\<exists>g s'. Guard_new (Mutex_vtable api rt) t timeout s = Returns (g, s') \<and>
             (g \<longleftrightarrow> held_by (pthread_mutex s) = None)) \<and>
         (\<forall>g s'. Guard_new (Mutex_vtable api rt) t 0 s = Returns (g, s') \<longrightarrow> g)"
proof -
  note contract = Mutex_vtable_contract [OF assms(1)]
  obtain g s' where g: "Guard_new (Mutex_vtable api rt) t timeout s = Returns (g, s')"
    using mutex_contract.guard_try_never_blocks [OF contract assms(2)] by blast
  show ?thesis
    using g mutex_contract.guard_try_decides [OF contract assms(2) g]
      mutex_contract.guard_blocking_true [OF contract] by blast
qed

theorem Guard_timeout_modes_witness:
  "\<exists>g s'. Guard_new (Mutex_vtable posix_mutex (0, \<lparr>tv_sec = 1, tv_nsec = 0\<rparr>)) 1 (-1)
     \<lparr>pthread_mutex = Some (2::nat), initialized = True\<rparr> = Returns (g, s') \<and> \<not> g"
  using Guard_timeout_modes [OF posix.pthread_mutex_laws_axioms, of "-1" "(0, \<lparr>tv_sec = 1, tv_nsec = 0\<rparr>)" 1
      "\<lparr>pthread_mutex = Some 2, initialized = True\<rparr>"] by auto

text \<open>The timeout of \<^verbatim>\<open>Mutex::TimedLock\<close> is narrowed to a 32-bit \<^verbatim>\<open>int\<close>: below
  \<open>2 ^ 31\<close> milliseconds the deadline handed to \<^verbatim>\<open>pthread_mutex_timedlock\<close> is now plus the
  timeout, but for a timeout in \<open>[2 ^ 31, 2 ^ 32)\<close> it is \<open>2 ^ 32\<close> ms earlier, hence before
  now.\<close>

theorem TimedLock_deadline:
  assumes now: "CurrentTime rt = Inr now" and "0 \<le> now" "now \<le> 2 ^ 50" and "0 \<le> ms" "ms < 2 ^ 32"
  shows "Mutex_TimedLock api rt t ms impl =
     (let deadline = now + (if ms < 2 ^ 31 then ms else ms - 2 ^ 32);
          (ret, m) = pthread_mutex_timedlock api t (ToTimespec deadline) (pthread_mutex impl)
      in Inr (ret = 0, impl\<lparr>pthread_mutex := m\<rparr>)) \<and>
     (2 ^ 31 \<le> ms \<longrightarrow> now + (ms - 2 ^ 32) < now)"
proof -
  have n: "narrow32 ms = (if ms < 2 ^ 31 then ms else ms - 2 ^ 32)"
  proof (cases "ms < 2 ^ 31")
    case True
    then show ?thesis using assms by (simp add: narrow32_id)
  next
    case False
    have "(ms + 2 ^ 31) mod 2 ^ 32 = ((ms + 2 ^ 31 - 2 ^ 32) + 2 ^ 32) mod (2 ^ 32 :: int)"
      by (simp only: diff_add_cancel)
    also have "\<dots> = ms + 2 ^ 31 - 2 ^ 32"
      using False assms by (subst mod_add_self2) (simp add: mod_pos_pos_trivial)
    finally show ?thesis using False by (simp add: narrow32_def)
  qed
  have "in_int64 ((if ms < 2 ^ 31 then ms else ms - 2 ^ 32) + now)"
    using assms by (auto simp: int64_bounds)
  then show ?thesis
    using assms n by (simp add: Mutex_TimedLock_def Impl_TimedLock_def add64_def checked64_def
        Let_def add.commute split: prod.splits)
qed

theorem TimedLock_deadline_witness:
  "CurrentTime (0, \<lparr>tv_sec = 1, tv_nsec = 0\<rparr>) = Inr 1000 \<and>
   Mutex_TimedLock posix_mutex (0, \<lparr>tv_sec = 1, tv_nsec = 0\<rparr>) 1 3000000000
     \<lparr>pthread_mutex = Some 2, initialized = True\<rparr>
   = Inr (False, \<lparr>pthread_mutex = Some 2, initialized = True\<rparr>)"
proof -
  have "valid_timespec \<lparr>tv_sec = 1, tv_nsec = 0\<rparr>" by (simp add: valid_timespec_def NS_PER_S_def)
  from ToMilliseconds_timespec_value [OF this]
  have c: "CurrentTime (0, \<lparr>tv_sec = 1, tv_nsec = 0\<rparr>) = Inr 1000"
    by (simp add: CurrentTime_def CurrentTimeTicks_def ToMilliseconds_timespec_def NS_PER_S_def)
  show ?thesis
    using c TimedLock_deadline [OF c, of 3000000000 posix_mutex 1]
    by (simp add: posix_mutex_def ETIMEDOUT_def)
qed

end
