(* ===== verification/Monitor.thy ===== *)
theory Monitor
  imports Mutex
begin

text \<open>
  \<^verbatim>\<open>src/threads/monitor.h\<close> and \<^verbatim>\<open>src/threads/monitor.cc\<close>. A monitor is a condition variable and a
  pointer to a mutex, which it owns or shares with others, so the mutexes live in a store
  (a map from addresses to \<^verbatim>\<open>Mutex\<close> objects). The \<^verbatim>\<open>pthread_cond_*\<close> functions are a parameter;
  a wait takes the calling thread, the condition variable and the mutex and returns their
  states when the call is back. \<open>None\<close> is a null pointer, or a condition variable that was
  never initialised.
\<close>

type_synonym addr = nat
type_synonym 'm mutex_store = "addr \<rightharpoonup> 'm Mutex_Impl"

record ('t, 'm, 'c) pthread_cond_api =
  pthread_cond_init :: "int \<times> 'c"
  pthread_cond_destroy :: "'c \<Rightarrow> int"
  pthread_cond_wait :: "'t \<Rightarrow> 'c \<Rightarrow> 'm \<Rightarrow> (int \<times> 'c \<times> 'm) call"
  pthread_cond_timedwait :: "'t \<Rightarrow> timespec \<Rightarrow> 'c \<Rightarrow> 'm \<Rightarrow> (int \<times> 'c \<times> 'm) call"
  pthread_cond_signal :: "'c \<Rightarrow> int \<times> 'c"
  pthread_cond_broadcast :: "'c \<Rightarrow> int \<times> 'c"

record 'c Monitor_Impl =
  owned_mutex :: "addr option"
  mon_mutex :: "addr option"
  pthread_cond :: "'c option"
  cond_initialized :: bool

subsection \<open>Construction and destruction\<close>

definition Cleanup :: "('t, 'm, 'c) pthread_cond_api \<Rightarrow> 'c Monitor_Impl \<Rightarrow> 'c Monitor_Impl res" where
  "Cleanup capi impl =
     (if cond_initialized impl then
        case pthread_cond impl of
          None \<Rightarrow> Inl Undefined
        | Some c \<Rightarrow> bind_res (DCHECK (pthread_cond_destroy capi c = 0))
            (\<lambda>_. Inr (impl\<lparr>cond_initialized := False, pthread_cond := None\<rparr>))
      else Inr impl)"

definition Init ::
  "('t, 'm, 'c) pthread_cond_api \<Rightarrow> addr option \<Rightarrow> 'c Monitor_Impl \<Rightarrow> 'c Monitor_Impl res" where
  "Init capi mutex impl =
     (let impl1 = impl\<lparr>mon_mutex := mutex\<rparr>;
          (ret, c) = pthread_cond_init capi;
          impl2 = (if ret = 0 then impl1\<lparr>pthread_cond := Some c, cond_initialized := True\<rparr> else impl1)
      in if \<not> cond_initialized impl2
         then bind_res (Cleanup capi impl2) (\<lambda>_. Inl (Thrown SystemResource_default))
         else Inr impl2)"

definition Monitor_blank :: "addr option \<Rightarrow> 'c Monitor_Impl" where
  "Monitor_blank owned =
     \<lparr>owned_mutex = owned, mon_mutex = None, pthread_cond = None, cond_initialized = False\<rparr>"

text \<open>\<^verbatim>\<open>Monitor()\<close>: \<open>a\<close> is the address of the new mutex.\<close>

definition Monitor_new ::
  "('t, 'm) pthread_mutex_api \<Rightarrow> ('t, 'm, 'c) pthread_cond_api \<Rightarrow> addr \<Rightarrow> 'm mutex_store \<Rightarrow>
     ('c Monitor_Impl \<times> 'm mutex_store) res" where
  "Monitor_new api capi a store =
     bind_res (Mutex_Impl_new (DefaultInitializer api)) (\<lambda>m.
     bind_res (Init capi (Some a) (Monitor_blank (Some a))) (\<lambda>impl. Inr (impl, store(a \<mapsto> m))))"

definition Monitor_new_mutex ::
  "('t, 'm, 'c) pthread_cond_api \<Rightarrow> addr option \<Rightarrow> 'c Monitor_Impl res" where
  "Monitor_new_mutex capi mutex = Init capi mutex (Monitor_blank None)"

definition GetMutex :: "'c Monitor_Impl \<Rightarrow> addr res" where
  "GetMutex impl = (case mon_mutex impl of None \<Rightarrow> Inl Undefined | Some a \<Rightarrow> Inr a)"

definition Monitor_new_monitor ::
  "('t, 'm, 'c) pthread_cond_api \<Rightarrow> 'c Monitor_Impl \<Rightarrow> 'c Monitor_Impl res" where
  "Monitor_new_monitor capi monitor =
     bind_res (GetMutex monitor) (\<lambda>a. Init capi (Some a) (Monitor_blank None))"

definition deref :: "'m mutex_store \<Rightarrow> addr \<Rightarrow> 'm Mutex_Impl res" where
  "deref store a = (case store a of None \<Rightarrow> Inl Undefined | Some m \<Rightarrow> Inr m)"

text \<open>The destructor runs \<open>Cleanup\<close>, then destroys the owned mutex if there is one.\<close>

definition Monitor_delete ::
  "('t, 'm) pthread_mutex_api \<Rightarrow> ('t, 'm, 'c) pthread_cond_api \<Rightarrow> 'c Monitor_Impl \<Rightarrow> 'm mutex_store \<Rightarrow>
     'm mutex_store res" where
  "Monitor_delete api capi impl store =
     bind_res (Cleanup capi impl) (\<lambda>_.
     case owned_mutex impl of
       None \<Rightarrow> Inr store
     | Some a \<Rightarrow> bind_res (deref store a) (\<lambda>m.
         bind_res (Mutex_Impl_delete api m) (\<lambda>_. Inr (store(a := None)))))"

subsection \<open>Locking\<close>

definition Monitor_Lock ::
  "('t, 'm Mutex_Impl) Mutex_methods \<Rightarrow> 't \<Rightarrow> 'c Monitor_Impl \<Rightarrow> 'm mutex_store \<Rightarrow> 'm mutex_store call" where
  "Monitor_Lock M t impl store =
     bind_call (call_of_res (GetMutex impl)) (\<lambda>a.
     bind_call (call_of_res (deref store a)) (\<lambda>m.
     bind_call (Lock M t m) (\<lambda>m'. Returns (store(a \<mapsto> m')))))"

definition Monitor_Unlock ::
  "('t, 'm Mutex_Impl) Mutex_methods \<Rightarrow> 't \<Rightarrow> 'c Monitor_Impl \<Rightarrow> 'm mutex_store \<Rightarrow> 'm mutex_store res" where
  "Monitor_Unlock M t impl store =
     bind_res (GetMutex impl) (\<lambda>a.
     bind_res (deref store a) (\<lambda>m. Inr (store(a \<mapsto> Unlock M t m))))"

text \<open>\<^verbatim>\<open>Synchronized\<close> is a \<^verbatim>\<open>Guard\<close> without timeout on the mutex of the monitor.\<close>

definition Synchronized_new ::
  "('t, 'm Mutex_Impl) Mutex_methods \<Rightarrow> 't \<Rightarrow> 'c Monitor_Impl \<Rightarrow> 'm mutex_store \<Rightarrow>
     (bool \<times> 'm mutex_store) call" where
  "Synchronized_new M t monitor store =
     bind_call (call_of_res (GetMutex monitor)) (\<lambda>a.
     bind_call (call_of_res (deref store a)) (\<lambda>m.
     bind_call (Guard_new M t 0 m) (\<lambda>(g, m'). Returns (g, store(a \<mapsto> m')))))"

definition Synchronized_delete ::
  "('t, 'm Mutex_Impl) Mutex_methods \<Rightarrow> 't \<Rightarrow> 'c Monitor_Impl \<Rightarrow> bool \<Rightarrow> 'm mutex_store \<Rightarrow>
     'm mutex_store res" where
  "Synchronized_delete M t monitor g store =
     bind_res (GetMutex monitor) (\<lambda>a.
     bind_res (deref store a) (\<lambda>m. Inr (store(a \<mapsto> Guard_delete M t g m))))"

subsection \<open>Waiting and notifying\<close>

text \<open>The common part of the two waits: the asserted pointer, the mutex behind it, and the call.\<close>

definition cond_call ::
  "('c \<Rightarrow> 'm \<Rightarrow> (int \<times> 'c \<times> 'm) call) \<Rightarrow> 'c Monitor_Impl \<Rightarrow> 'm mutex_store \<Rightarrow>
     (int \<times> 'c Monitor_Impl \<times> 'm mutex_store) call" where
  "cond_call wait impl store =
     (case mon_mutex impl of
        None \<Rightarrow> Fails Aborted
      | Some a \<Rightarrow> bind_call (call_of_res (deref store a)) (\<lambda>m.
          case pthread_cond impl of
            None \<Rightarrow> Fails Undefined
          | Some c \<Rightarrow> bind_call (wait c (Mutex_GetUnderlyingImpl m)) (\<lambda>(ret, c', pm).
              Returns (ret, impl\<lparr>pthread_cond := Some c'\<rparr>, store(a \<mapsto> m\<lparr>pthread_mutex := pm\<rparr>)))))"

definition WaitForever ::
  "('t, 'm, 'c) pthread_cond_api \<Rightarrow> 't \<Rightarrow> 'c Monitor_Impl \<Rightarrow> 'm mutex_store \<Rightarrow>
     (int \<times> 'c Monitor_Impl \<times> 'm mutex_store) call" where
  "WaitForever capi t impl store = cond_call (pthread_cond_wait capi t) impl store"

definition WaitForTime ::
  "('t, 'm, 'c) pthread_cond_api \<Rightarrow> 't \<Rightarrow> timespec \<Rightarrow> 'c Monitor_Impl \<Rightarrow> 'm mutex_store \<Rightarrow>
     (int \<times> 'c Monitor_Impl \<times> 'm mutex_store) call" where
  "WaitForTime capi t abstime impl store = cond_call (pthread_cond_timedwait capi t abstime) impl store"

definition WaitForTimeRelative ::
  "('t, 'm, 'c) pthread_cond_api \<Rightarrow> clock_reading \<Rightarrow> 't \<Rightarrow> int64 \<Rightarrow> 'c Monitor_Impl \<Rightarrow> 'm mutex_store \<Rightarrow>
     (int \<times> 'c Monitor_Impl \<times> 'm mutex_store) call" where
  "WaitForTimeRelative capi rt t timeout_ms impl store =
     (if timeout_ms = 0 then WaitForever capi t impl store
      else bind_call (call_of_res (bind_res (CurrentTime rt) (\<lambda>now. add64 now timeout_ms)))
        (\<lambda>deadline. WaitForTime capi t (ToTimespec deadline) impl store))"

text \<open>\<open>Wait\<close>: the exception it throws, if any, and the state in which it does so.\<close>

definition wait_outcome :: "int \<Rightarrow> exn option" where
  "wait_outcome ret =
     (if ret = ETIMEDOUT then Some TimedOut_default
      else if ret \<noteq> 0 then Some (RuntimeError ''pthread_cond_wait() failed'')
      else None)"

definition Monitor_Wait ::
  "('t, 'm, 'c) pthread_cond_api \<Rightarrow> clock_reading \<Rightarrow> 't \<Rightarrow> int64 \<Rightarrow> 'c Monitor_Impl \<Rightarrow> 'm mutex_store \<Rightarrow>
     (exn option \<times> 'c Monitor_Impl \<times> 'm mutex_store) call" where
  "Monitor_Wait capi rt t timeout_ms impl store =
     bind_call (WaitForTimeRelative capi rt t timeout_ms impl store)
       (\<lambda>(ret, impl', store'). Returns (wait_outcome ret, impl', store'))"

definition cond_notify :: "('c \<Rightarrow> int \<times> 'c) \<Rightarrow> 'c Monitor_Impl \<Rightarrow> 'c Monitor_Impl res" where
  "cond_notify signal impl =
     (case mon_mutex impl of
        None \<Rightarrow> Inl Aborted
      | Some _ \<Rightarrow> (case pthread_cond impl of
          None \<Rightarrow> Inl Undefined
        | Some c \<Rightarrow> (case signal c of (ret, c') \<Rightarrow>
            bind_res (DCHECK (ret = 0)) (\<lambda>_. Inr (impl\<lparr>pthread_cond := Some c'\<rparr>)))))"

definition Monitor_Notify :: "('t, 'm, 'c) pthread_cond_api \<Rightarrow> 'c Monitor_Impl \<Rightarrow> 'c Monitor_Impl res" where
  "Monitor_Notify capi impl = cond_notify (pthread_cond_signal capi) impl"

definition Monitor_NotifyAll :: "('t, 'm, 'c) pthread_cond_api \<Rightarrow> 'c Monitor_Impl \<Rightarrow> 'c Monitor_Impl res" where
  "Monitor_NotifyAll capi impl = cond_notify (pthread_cond_broadcast capi) impl"

subsection \<open>The contract of the condition variable\<close>

text \<open>Thread \<open>t\<close> holds the mutex of the monitor.\<close>

definition monitor_held ::
  "('m \<Rightarrow> 't option) \<Rightarrow> 't \<Rightarrow> 'c Monitor_Impl \<Rightarrow> 'm mutex_store \<Rightarrow> bool" where
  "monitor_held held_by t impl store \<longleftrightarrow>
     (\<exists>a m. mon_mutex impl = Some a \<and> store a = Some m \<and> held_by (pthread_mutex m) = Some t)"

text \<open>
  Documented behaviour of the condition variable of the library: a wait entered with the mutex
  held ends, whatever it returns, with the mutex held by the caller again.
\<close>

locale pthread_cond_laws = pthread_mutex_laws api held_by
  for api :: "('t, 'm) pthread_mutex_api" and held_by :: "'m \<Rightarrow> 't option" +
  fixes capi :: "('t, 'm, 'c) pthread_cond_api"
  assumes wait_reacquires:
      "held_by m = Some t \<Longrightarrow> pthread_cond_wait capi t c m = Returns (ret, c', m') \<Longrightarrow> held_by m' = Some t"
    and timedwait_reacquires:
      "held_by m = Some t \<Longrightarrow> pthread_cond_timedwait capi t ts c m = Returns (ret, c', m') \<Longrightarrow>
         held_by m' = Some t"
begin

lemma cond_call_holds:
  assumes "monitor_held held_by t impl store" and "cond_call wait impl store = Returns (ret, impl', store')"
    and "\<And>c m ret c' m'. held_by m = Some t \<Longrightarrow> wait c m = Returns (ret, c', m') \<Longrightarrow> held_by m' = Some t"
  shows "monitor_held held_by t impl' store' \<and> mon_mutex impl' = mon_mutex impl"
proof -
  from assms(1,2) obtain a m c c' pm where
    "mon_mutex impl = Some a" "store a = Some m" "held_by (pthread_mutex m) = Some t"
    "wait c (pthread_mutex m) = Returns (ret, c', pm)"
    "impl' = impl\<lparr>pthread_cond := Some c'\<rparr>" "store' = store(a \<mapsto> m\<lparr>pthread_mutex := pm\<rparr>)"
    by (auto simp: monitor_held_def cond_call_def deref_def bind_call_eq_Returns Mutex_GetUnderlyingImpl_def
        split: option.split_asm)
  with assms(3) show ?thesis by (fastforce simp: monitor_held_def)
qed

lemma relative_wait_holds:
  assumes "monitor_held held_by t impl store"
    and "WaitForTimeRelative capi rt t timeout_ms impl store = Returns (ret, impl', store')"
  shows "monitor_held held_by t impl' store' \<and> mon_mutex impl' = mon_mutex impl"
proof (cases "timeout_ms = 0")
  case True
  then have "cond_call (pthread_cond_wait capi t) impl store = Returns (ret, impl', store')"
    using assms(2) by (simp add: WaitForTimeRelative_def WaitForever_def)
  from cond_call_holds [OF assms(1) this] show ?thesis using wait_reacquires by blast
next
  case False
  then obtain d where "cond_call (pthread_cond_timedwait capi t (ToTimespec d)) impl store = Returns (ret, impl', store')"
    using assms(2) by (auto simp: WaitForTimeRelative_def WaitForTime_def bind_call_eq_Returns)
  from cond_call_holds [OF assms(1) this] show ?thesis using timedwait_reacquires by blast
qed

lemma synchronized_holds:
  assumes "Synchronized_new (Mutex_vtable api rt) t impl store = Returns (g, store')"
  shows "g \<and> monitor_held held_by t impl store'"
proof -
  note contract = Mutex_vtable_contract [OF pthread_mutex_laws_axioms, of rt]
  from assms obtain a m m' where "mon_mutex impl = Some a" "store' = store(a \<mapsto> m')"
    and lock: "Lock (Mutex_vtable api rt) t m = Returns m'" and "g"
    by (auto simp: Synchronized_new_def GetMutex_def Guard_new_def bind_call_eq_Returns call_of_res_eq_Returns
        split: option.split_asm)
  with mutex_contract.Lock_owner [OF contract lock] show ?thesis by (auto simp: monitor_held_def)
qed

lemma synchronized_ends:
  assumes "monitor_held held_by t impl store"
    and "Synchronized_delete (Mutex_vtable api rt) t impl True store = Inr store'"
  shows "\<not> monitor_held held_by t impl store'"
proof -
  note contract = Mutex_vtable_contract [OF pthread_mutex_laws_axioms, of rt]
  from assms obtain a m where "mon_mutex impl = Some a" "held_by (pthread_mutex m) = Some t"
    "store' = store(a \<mapsto> Unlock (Mutex_vtable api rt) t m)"
    by (auto simp: Synchronized_delete_def GetMutex_def deref_def Guard_delete_def monitor_held_def bind_res_eq_Inr)
  then show ?thesis using mutex_contract.Unlock_owner [OF contract] by (auto simp: monitor_held_def)
qed

end

text \<open>A condition variable on which a wait without deadline is notified at once and one with a
  deadline runs into it: the instance of the interpretation and the witnesses.\<close>

definition posix_cond :: "(nat, nat option, unit) pthread_cond_api" where
  "posix_cond =
     \<lparr>pthread_cond_init = (0, ()), pthread_cond_destroy = (\<lambda>_. 0),
      pthread_cond_wait = (\<lambda>t c m. if m = Some t then Returns (0, c, m) else Returns (EPERM, c, m)),
      pthread_cond_timedwait = (\<lambda>t ts c m. if m = Some t then Returns (ETIMEDOUT, c, m) else Returns (EPERM, c, m)),
      pthread_cond_signal = (\<lambda>c. (0, c)), pthread_cond_broadcast = (\<lambda>c. (0, c))\<rparr>"

interpretation posix_monitor: pthread_cond_laws posix_mutex "\<lambda>m. m" posix_cond
  by unfold_locales (auto simp: posix_cond_def split: if_splits)

subsection \<open>Properties\<close>

text \<open>C18. A monitor protects across a wait. For every library with the documented behaviour: a
  thread inside \<^verbatim>\<open>Synchronized\<close> holds the mutex of the monitor; it still holds it when
  \<^verbatim>\<open>Monitor::Wait\<close> is over, also when \<^verbatim>\<open>Wait\<close> leaves with an exception, and what it leaves with is
  nothing, \<^verbatim>\<open>TimedOutException\<close> or \<^verbatim>\<open>std::runtime_error\<close>; and it holds it no more after the
  destructor of \<^verbatim>\<open>Synchronized\<close>.\<close>

theorem Monitor_Wait_keeps_lock:
  assumes "pthread_cond_laws api held_by capi"
    and "Synchronized_new (Mutex_vtable api rt) t impl store = Returns (g, store1)"
    and "Monitor_Wait capi rt2 t timeout_ms impl store1 = Returns (e, impl2, store2)"
    and "Synchronized_delete (Mutex_vtable api rt) t impl2 g store2 = Inr store3"
  shows "monitor_held held_by t impl store1 \<and> monitor_held held_by t impl2 store2 \<and>
    mon_mutex impl2 = mon_mutex impl \<and>
    e \<in> {None, Some TimedOut_default, Some (RuntimeError ''pthread_cond_wait() failed'')} \<and>
    \<not> monitor_held held_by t impl2 store3"
proof -
  have h1: "g" "monitor_held held_by t impl store1"
    using pthread_cond_laws.synchronized_holds [OF assms(1,2)] by simp_all
  from assms(3) obtain ret where w: "WaitForTimeRelative capi rt2 t timeout_ms impl store1 = Returns (ret, impl2, store2)"
    and e: "e = wait_outcome ret" by (auto simp: Monitor_Wait_def bind_call_eq_Returns)
  have h2: "monitor_held held_by t impl2 store2" "mon_mutex impl2 = mon_mutex impl"
    using pthread_cond_laws.relative_wait_holds [OF assms(1) h1(2) w] by simp_all
  have "\<not> monitor_held held_by t impl2 store3"
    using pthread_cond_laws.synchronized_ends [OF assms(1) h2(1)] assms(4) h1(1) by simp
  with h1 h2 e show ?thesis by (auto simp: wait_outcome_def)
qed

definition one_second :: clock_reading where
  "one_second = (0, \<lparr>tv_sec = 1, tv_nsec = 0\<rparr>)"

lemma one_second_now: "CurrentTime one_second = Inr 1000"
proof -
  have "valid_timespec \<lparr>tv_sec = 1, tv_nsec = 0\<rparr>" by (simp add: valid_timespec_def NS_PER_S_def)
  from ToMilliseconds_timespec_value [OF this] show ?thesis
    by (simp add: one_second_def CurrentTime_def CurrentTimeTicks_def ToMilliseconds_timespec_def NS_PER_S_def)
qed

theorem Monitor_Wait_keeps_lock_witness:
  "let impl = \<lparr>owned_mutex = None, mon_mutex = Some 5, pthread_cond = Some (), cond_initialized = True\<rparr>;
       free = [5 \<mapsto> \<lparr>pthread_mutex = None, initialized = True\<rparr>];
       held = [5 \<mapsto> \<lparr>pthread_mutex = Some 7, initialized = True\<rparr>]
   in Monitor_Wait posix_cond one_second 7 20 impl held = Returns (Some TimedOut_default, impl, held) \<and>
      monitor_held (\<lambda>m. m) 7 impl held \<and> \<not> monitor_held (\<lambda>m. m) (7::nat) impl free"
proof -
  let ?impl = "\<lparr>owned_mutex = None, mon_mutex = Some 5, pthread_cond = Some (), cond_initialized = True\<rparr>"
  let ?free = "[5 \<mapsto> \<lparr>pthread_mutex = None, initialized = True\<rparr>]"
  let ?held = "[5 \<mapsto> \<lparr>pthread_mutex = Some 7, initialized = True\<rparr>]"
  have 1: "Synchronized_new (Mutex_vtable posix_mutex one_second) 7 ?impl ?free = Returns (True, ?held)"
    by (simp add: Synchronized_new_def GetMutex_def deref_def Guard_new_def Mutex_vtable_def Mutex_Lock_def
        posix_mutex_def)
  have 2: "Monitor_Wait posix_cond one_second 7 20 ?impl ?held = Returns (Some TimedOut_default, ?impl, ?held)"
    by (simp add: Monitor_Wait_def WaitForTimeRelative_def WaitForTime_def cond_call_def deref_def one_second_now
        arith64_defs int64_bounds posix_cond_def Mutex_GetUnderlyingImpl_def wait_outcome_def)
  have 3: "Synchronized_delete (Mutex_vtable posix_mutex one_second) 7 ?impl True ?held = Inr ?free"
    by (simp add: Synchronized_delete_def GetMutex_def deref_def Guard_delete_def Mutex_vtable_def Mutex_Unlock_def
        posix_mutex_def)
  show ?thesis
    using 2 Monitor_Wait_keeps_lock [OF posix_monitor.pthread_cond_laws_axioms 1 2 3] by simp
qed

text \<open>C28. Which wait a timeout means: 0 waits without a deadline, any other value waits until now
  plus the timeout, written as a well-formed \<^verbatim>\<open>timespec\<close> when that time is not before the epoch; \<^verbatim>\<open>Wait\<close>
  returns normally exactly if the system call returned 0, and throws \<^verbatim>\<open>TimedOutException\<close>
  exactly if it returned \<^verbatim>\<open>ETIMEDOUT\<close>.\<close>

theorem Monitor_Wait_deadline:
  assumes "mon_mutex impl = Some a" and "store a = Some m" and "pthread_cond impl = Some c"
    and "CurrentTime rt = Inr now" and "in_int64 (now + timeout_ms)" and "0 \<le> now + timeout_ms"
  shows "(\<forall>ret c' pm. (if timeout_ms = 0 then pthread_cond_wait capi t c (pthread_mutex m)
             else pthread_cond_timedwait capi t (ToTimespec (now + timeout_ms)) c (pthread_mutex m))
           = Returns (ret, c', pm) \<longrightarrow>
       (\<exists>e. Monitor_Wait capi rt t timeout_ms impl store =
            Returns (e, impl\<lparr>pthread_cond := Some c'\<rparr>, store(a \<mapsto> m\<lparr>pthread_mutex := pm\<rparr>)) \<and>
          (e = None \<longleftrightarrow> ret = 0) \<and> (e = Some TimedOut_default \<longleftrightarrow> ret = ETIMEDOUT))) \<and>
     (let d = ToTimespec (now + timeout_ms) in
        0 \<le> tv_nsec d \<and> tv_nsec d < NS_PER_S \<and> tv_sec d * NS_PER_S + tv_nsec d = (now + timeout_ms) * NS_PER_MS)"
proof -
  have "0 \<le> tv_nsec (ToTimespec v) \<and> tv_nsec (ToTimespec v) < NS_PER_S \<and>
      tv_sec (ToTimespec v) * NS_PER_S + tv_nsec (ToTimespec v) = v * NS_PER_MS" if "0 \<le> v" for v
    using ToTimespec_exact [OF that] by simp
  then show ?thesis
    using assms
    by (auto simp: Monitor_Wait_def WaitForTimeRelative_def WaitForever_def WaitForTime_def cond_call_def deref_def
        add64_def checked64_def Mutex_GetUnderlyingImpl_def wait_outcome_def TimedOut_default_def ETIMEDOUT_def Let_def)
qed

theorem Monitor_Wait_deadline_witness:
  "let impl = \<lparr>owned_mutex = None, mon_mutex = Some 5, pthread_cond = Some (), cond_initialized = True\<rparr>;
       held = [5 \<mapsto> \<lparr>pthread_mutex = Some 7, initialized = True\<rparr>]
   in (\<exists>i s. Monitor_Wait posix_cond one_second 7 0 impl held = Returns (None, i, s)) \<and>
      tv_sec (ToTimespec (1000 + 0)) * NS_PER_S + tv_nsec (ToTimespec (1000 + 0)) = (1000 + 0) * NS_PER_MS"
  using Monitor_Wait_deadline [of "\<lparr>owned_mutex = None, mon_mutex = Some 5, pthread_cond = Some (), cond_initialized = True\<rparr>"
      5 "[5 \<mapsto> \<lparr>pthread_mutex = Some 7, initialized = True\<rparr>]" "\<lparr>pthread_mutex = Some 7, initialized = True\<rparr>"
      "()" one_second 1000 0 posix_cond 7]
  by (simp add: one_second_now int64_bounds posix_cond_def Let_def)

text \<open>Construction. The constructors either return a monitor with an initialised condition
  variable on the given mutex or throw \<^verbatim>\<open>SystemResourceException\<close>, exactly if \<^verbatim>\<open>pthread_cond_init\<close>
  fails; a monitor made from a monitor shares its mutex and does not own it, so deleting it
  leaves the mutex alone.\<close>

theorem Monitor_construction:
  assumes "mon_mutex monitor = Some a"
  shows "(fst (pthread_cond_init capi) \<noteq> 0 \<longrightarrow>
      Monitor_new_monitor capi monitor = Inl (Thrown SystemResource_default)) \<and>
    (fst (pthread_cond_init capi) = 0 \<longrightarrow>
      (\<exists>impl. Monitor_new_monitor capi monitor = Inr impl \<and> GetMutex impl = GetMutex monitor \<and>
         cond_initialized impl \<and> pthread_cond impl = Some (snd (pthread_cond_init capi)) \<and>
         Monitor_new_mutex capi (Some a) = Inr impl \<and>
         (pthread_cond_destroy capi (snd (pthread_cond_init capi)) = 0 \<longrightarrow>
            Monitor_delete api capi impl store = Inr store)))"
  using assms
  by (cases "pthread_cond_init capi")
    (auto simp: Monitor_new_monitor_def Monitor_new_mutex_def GetMutex_def Init_def Monitor_blank_def Cleanup_def
      Monitor_delete_def DCHECK_def)

theorem Monitor_construction_witness:
  "\<exists>impl. Monitor_new_monitor posix_cond
      \<lparr>owned_mutex = Some 5, mon_mutex = Some 5, pthread_cond = Some (), cond_initialized = True\<rparr> = Inr impl \<and>
     GetMutex impl = Inr 5"
  using Monitor_construction [of "\<lparr>owned_mutex = Some 5, mon_mutex = Some 5, pthread_cond = Some (), cond_initialized = True\<rparr>"
      5 posix_cond posix_mutex Map.empty]
  by (auto simp: posix_cond_def GetMutex_def)

end
