(* ===== verification/No_Starve.thy ===== *)
theory No_Starve
  imports Mutex
begin

text \<open>
  \<^verbatim>\<open>NoStarveReadWriteMutex\<close> (\<^verbatim>\<open>src/threads/mutex.h\<close>, \<^verbatim>\<open>src/threads/mutex.cc\<close>): a read-write lock with a
  gate, the mutex \<^verbatim>\<open>mutex_\<close>, and a flag \<^verbatim>\<open>writer_waiting_\<close>. Any number of threads call
  \<^verbatim>\<open>AcquireRead\<close>, \<^verbatim>\<open>AcquireWrite\<close> and \<^verbatim>\<open>Release\<close>; a step is one access to the flag or one lock operation
  of one thread, and the control point of a thread says which comes next.

  The underlying \<^verbatim>\<open>pthread_rwlock_t\<close> is a parameter: when it grants a read and a write lock, as
  predicates on its state (how many hold it for reading, whether one holds it for writing).
  Its documented behaviour is that a write lock is granted only on a free lock and a read lock
  only when nobody writes; which of the admissible requests it serves first is left open.
\<close>

record rw_state =
  rw_readers :: nat
  rw_writer :: bool

record rw_policy =
  grants_read :: "rw_state \<Rightarrow> bool"
  grants_write :: "rw_state \<Rightarrow> bool"

locale rwlock_laws =
  fixes pol :: rw_policy
  assumes read_excludes_writer: "grants_read pol l \<Longrightarrow> \<not> rw_writer l"
    and write_excludes_all: "grants_write pol l \<Longrightarrow> \<not> rw_writer l \<and> rw_readers l = 0"

datatype npc =
    N_Idle              \<comment> \<open>holds nothing, calls nothing\<close>
  | NR_Test             \<comment> \<open>\<^verbatim>\<open>AcquireRead\<close>: before \<^verbatim>\<open>if (writer_waiting_)\<close>\<close>
  | NR_Gate             \<comment> \<open>before \<^verbatim>\<open>mutex_.Lock()\<close>\<close>
  | NR_Pass             \<comment> \<open>before \<^verbatim>\<open>mutex_.Unlock()\<close>\<close>
  | NR_Lock             \<comment> \<open>before \<^verbatim>\<open>ReadWriteMutex::AcquireRead()\<close> returns\<close>
  | N_Reading
  | NW_Try              \<comment> \<open>\<^verbatim>\<open>AcquireWrite\<close>: before \<^verbatim>\<open>AttemptWrite()\<close>\<close>
  | NW_Gate             \<comment> \<open>before \<^verbatim>\<open>mutex_.Lock()\<close>\<close>
  | NW_Flag             \<comment> \<open>before \<^verbatim>\<open>writer_waiting_ = true\<close>\<close>
  | NW_Lock             \<comment> \<open>before \<^verbatim>\<open>ReadWriteMutex::AcquireWrite()\<close> returns\<close>
  | NW_Clear            \<comment> \<open>before \<^verbatim>\<open>writer_waiting_ = false\<close>\<close>
  | NW_Open             \<comment> \<open>before \<^verbatim>\<open>mutex_.Unlock()\<close>\<close>
  | N_Writing

record ns_state =
  rw :: rw_state
  gate :: "nat option"
  writer_waiting :: bool
  npcs :: "npc list"
  reads :: nat          \<comment> \<open>history: read locks granted so far\<close>

definition NoStarve_new :: "nat \<Rightarrow> ns_state" where
  "NoStarve_new n = \<lparr>rw = \<lparr>rw_readers = 0, rw_writer = False\<rparr>, gate = None, writer_waiting = False,
     npcs = replicate n N_Idle, reads = 0\<rparr>"

inductive ns_step :: "rw_policy \<Rightarrow> ns_state \<Rightarrow> ns_state \<Rightarrow> bool" for pol where
  \<comment> \<open>\<^verbatim>\<open>AcquireRead\<close>\<close>
  read_call:
    "\<lbrakk>i < length (npcs s); npcs s ! i = N_Idle\<rbrakk> \<Longrightarrow> ns_step pol s (s\<lparr>npcs := (npcs s)[i := NR_Test]\<rparr>)"
| read_test:
    "\<lbrakk>i < length (npcs s); npcs s ! i = NR_Test\<rbrakk> \<Longrightarrow>
     ns_step pol s (s\<lparr>npcs := (npcs s)[i := if writer_waiting s then NR_Gate else NR_Lock]\<rparr>)"
| read_gate:
    "\<lbrakk>i < length (npcs s); npcs s ! i = NR_Gate; gate s = None\<rbrakk> \<Longrightarrow>
     ns_step pol s (s\<lparr>gate := Some i, npcs := (npcs s)[i := NR_Pass]\<rparr>)"
| read_pass:
    "\<lbrakk>i < length (npcs s); npcs s ! i = NR_Pass\<rbrakk> \<Longrightarrow>
     ns_step pol s (s\<lparr>gate := None, npcs := (npcs s)[i := NR_Lock]\<rparr>)"
| read_lock:
    "\<lbrakk>i < length (npcs s); npcs s ! i = NR_Lock; grants_read pol (rw s)\<rbrakk> \<Longrightarrow>
     ns_step pol s (s\<lparr>rw := (rw s)\<lparr>rw_readers := rw_readers (rw s) + 1\<rparr>,
       npcs := (npcs s)[i := N_Reading], reads := reads s + 1\<rparr>)"
  \<comment> \<open>\<^verbatim>\<open>AcquireWrite\<close>\<close>
| write_call:
    "\<lbrakk>i < length (npcs s); npcs s ! i = N_Idle\<rbrakk> \<Longrightarrow> ns_step pol s (s\<lparr>npcs := (npcs s)[i := NW_Try]\<rparr>)"
| write_try_ok:
    "\<lbrakk>i < length (npcs s); npcs s ! i = NW_Try; grants_write pol (rw s)\<rbrakk> \<Longrightarrow>
     ns_step pol s (s\<lparr>rw := (rw s)\<lparr>rw_writer := True\<rparr>, npcs := (npcs s)[i := N_Writing]\<rparr>)"
| write_try_fails:
    "\<lbrakk>i < length (npcs s); npcs s ! i = NW_Try; \<not> grants_write pol (rw s)\<rbrakk> \<Longrightarrow>
     ns_step pol s (s\<lparr>npcs := (npcs s)[i := NW_Gate]\<rparr>)"
| write_gate:
    "\<lbrakk>i < length (npcs s); npcs s ! i = NW_Gate; gate s = None\<rbrakk> \<Longrightarrow>
     ns_step pol s (s\<lparr>gate := Some i, npcs := (npcs s)[i := NW_Flag]\<rparr>)"
| write_flag:
    "\<lbrakk>i < length (npcs s); npcs s ! i = NW_Flag\<rbrakk> \<Longrightarrow>
     ns_step pol s (s\<lparr>writer_waiting := True, npcs := (npcs s)[i := NW_Lock]\<rparr>)"
| write_lock:
    "\<lbrakk>i < length (npcs s); npcs s ! i = NW_Lock; grants_write pol (rw s)\<rbrakk> \<Longrightarrow>
     ns_step pol s (s\<lparr>rw := (rw s)\<lparr>rw_writer := True\<rparr>, npcs := (npcs s)[i := NW_Clear]\<rparr>)"
| write_clear:
    "\<lbrakk>i < length (npcs s); npcs s ! i = NW_Clear\<rbrakk> \<Longrightarrow>
     ns_step pol s (s\<lparr>writer_waiting := False, npcs := (npcs s)[i := NW_Open]\<rparr>)"
| write_open:
    "\<lbrakk>i < length (npcs s); npcs s ! i = NW_Open\<rbrakk> \<Longrightarrow>
     ns_step pol s (s\<lparr>gate := None, npcs := (npcs s)[i := N_Writing]\<rparr>)"
  \<comment> \<open>\<^verbatim>\<open>Release\<close>\<close>
| release_read:
    "\<lbrakk>i < length (npcs s); npcs s ! i = N_Reading\<rbrakk> \<Longrightarrow>
     ns_step pol s (s\<lparr>rw := (rw s)\<lparr>rw_readers := rw_readers (rw s) - 1\<rparr>, npcs := (npcs s)[i := N_Idle]\<rparr>)"
| release_write:
    "\<lbrakk>i < length (npcs s); npcs s ! i = N_Writing\<rbrakk> \<Longrightarrow>
     ns_step pol s (s\<lparr>rw := (rw s)\<lparr>rw_writer := False\<rparr>, npcs := (npcs s)[i := N_Idle]\<rparr>)"

definition ns_start :: "ns_state \<Rightarrow> bool" where
  "ns_start s \<longleftrightarrow> (\<exists>n. s = NoStarve_new n)"

subsection \<open>Invariant\<close>

fun holds_write :: "npc \<Rightarrow> bool" where
  "holds_write NW_Clear = True" | "holds_write NW_Open = True" | "holds_write N_Writing = True"
| "holds_write p = False"

fun holds_gate :: "npc \<Rightarrow> bool" where
  "holds_gate NR_Pass = True" | "holds_gate NW_Flag = True" | "holds_gate NW_Lock = True"
| "holds_gate NW_Clear = True" | "holds_gate NW_Open = True"
| "holds_gate p = False"

fun waits_flagged :: "npc \<Rightarrow> bool" where
  "waits_flagged NW_Lock = True" | "waits_flagged NW_Clear = True" | "waits_flagged p = False"

definition gate_ok :: "npc list \<Rightarrow> nat option \<Rightarrow> bool" where
  "gate_ok ps g \<longleftrightarrow> (\<forall>i < length ps. holds_gate (ps ! i) \<longrightarrow> g = Some i)"

definition flag_ok :: "npc list \<Rightarrow> bool \<Rightarrow> bool" where
  "flag_ok ps f \<longleftrightarrow> (\<forall>i < length ps. waits_flagged (ps ! i) \<longrightarrow> f)"

definition lock_ok :: "npc list \<Rightarrow> rw_state \<Rightarrow> bool" where
  "lock_ok ps l \<longleftrightarrow> rw_readers l = cnt (\<lambda>p. p = N_Reading) ps \<and>
     cnt holds_write ps = (if rw_writer l then 1 else 0) \<and> (rw_writer l \<longrightarrow> rw_readers l = 0)"

definition ns_inv :: "ns_state \<Rightarrow> bool" where
  "ns_inv s \<longleftrightarrow> gate_ok (npcs s) (gate s) \<and> flag_ok (npcs s) (writer_waiting s) \<and> lock_ok (npcs s) (rw s)"

lemma cnt_move:
  "i < length ps \<Longrightarrow> cnt P (ps[i := p]) = cnt P ps + (if P p then 1 else 0) - (if P (ps ! i) then 1 else 0)"
  using cnt_update [of i ps P p] by auto

lemma cnt_pos_at: "i < length ps \<Longrightarrow> P (ps ! i) \<Longrightarrow> 0 < cnt P ps"
  by (auto simp: cnt_pos_nth)

lemma nth_update: "j < length ps \<Longrightarrow> ps[i := p] ! j = (if i = j then p else ps ! j)"
  by (cases "i = j") auto

lemma gate_ok_keep: "gate_ok ps g \<Longrightarrow> (holds_gate p \<Longrightarrow> g = Some i) \<Longrightarrow> gate_ok (ps[i := p]) g"
  by (auto simp: gate_ok_def nth_update split: if_splits)

lemma gate_ok_take: "gate_ok ps None \<Longrightarrow> gate_ok (ps[i := p]) (Some i)"
  by (auto simp: gate_ok_def nth_update split: if_splits)

lemma gate_ok_owner: "gate_ok ps g \<Longrightarrow> i < length ps \<Longrightarrow> holds_gate (ps ! i) \<Longrightarrow> g = Some i"
  by (simp add: gate_ok_def)

lemma gate_ok_free:
  "gate_ok ps g \<Longrightarrow> i < length ps \<Longrightarrow> holds_gate (ps ! i) \<Longrightarrow> \<not> holds_gate p \<Longrightarrow> gate_ok (ps[i := p]) None"
  unfolding gate_ok_def by (metis length_list_update nth_list_update option.inject)

lemma flag_ok_keep: "flag_ok ps f \<Longrightarrow> (waits_flagged p \<Longrightarrow> f) \<Longrightarrow> flag_ok (ps[i := p]) f"
  by (auto simp: flag_ok_def nth_update split: if_splits)

lemma flag_ok_set: "flag_ok ps True"
  by (simp add: flag_ok_def)

text \<open>The only thread that can clear the flag is the one that set it: it holds the gate.\<close>

lemma flag_ok_clear:
  assumes "gate_ok ps g" "i < length ps" "ps ! i = NW_Clear"
  shows "flag_ok (ps[i := NW_Open]) False"
proof -
  have "\<not> waits_flagged (ps ! j)" if "j < length ps" "j \<noteq> i" for j
  proof
    assume "waits_flagged (ps ! j)"
    then have "holds_gate (ps ! j)" by (cases "ps ! j") auto
    then have "g = Some j" using assms(1) that(1) by (rule gate_ok_owner [rotated 2])
    moreover have "g = Some i" using assms by (auto intro: gate_ok_owner)
    ultimately show False using that(2) by simp
  qed
  then show ?thesis by (auto simp: flag_ok_def nth_update split: if_splits)
qed

lemma lock_ok_keep:
  "lock_ok ps l \<Longrightarrow> i < length ps \<Longrightarrow> (p = N_Reading) = (ps ! i = N_Reading) \<Longrightarrow> holds_write p = holds_write (ps ! i) \<Longrightarrow>
   lock_ok (ps[i := p]) l"
  by (auto simp: lock_ok_def cnt_move dest: cnt_pos_at [where P = holds_write] cnt_pos_at [where P = "\<lambda>p. p = N_Reading"])

lemma ns_inv_init: "ns_start s \<Longrightarrow> ns_inv s"
  by (auto simp: ns_start_def NoStarve_new_def ns_inv_def gate_ok_def flag_ok_def lock_ok_def)

context rwlock_laws
begin

lemma lock_ok_grants:
  assumes "lock_ok ps l" "i < length ps" "ps ! i \<noteq> N_Reading" "\<not> holds_write (ps ! i)"
  shows "grants_read pol l \<Longrightarrow> lock_ok (ps[i := N_Reading]) (l\<lparr>rw_readers := rw_readers l + 1\<rparr>)"
    and "grants_write pol l \<Longrightarrow> holds_write p \<Longrightarrow> lock_ok (ps[i := p]) (l\<lparr>rw_writer := True\<rparr>)"
proof -
  assume "grants_read pol l"
  then show "lock_ok (ps[i := N_Reading]) (l\<lparr>rw_readers := rw_readers l + 1\<rparr>)"
    using assms read_excludes_writer by (simp add: lock_ok_def cnt_move)
next
  assume g: "grants_write pol l" and p: "holds_write p"
  then have "p \<noteq> N_Reading" by auto
  with g p show "lock_ok (ps[i := p]) (l\<lparr>rw_writer := True\<rparr>)"
    using assms write_excludes_all [OF g] by (simp add: lock_ok_def cnt_move)
qed

lemma lock_ok_release:
  assumes "lock_ok ps l" "i < length ps"
  shows "ps ! i = N_Reading \<Longrightarrow> lock_ok (ps[i := N_Idle]) (l\<lparr>rw_readers := rw_readers l - 1\<rparr>)"
    and "ps ! i = N_Writing \<Longrightarrow> lock_ok (ps[i := N_Idle]) (l\<lparr>rw_writer := False\<rparr>)"
proof -
  assume r: "ps ! i = N_Reading"
  then show "lock_ok (ps[i := N_Idle]) (l\<lparr>rw_readers := rw_readers l - 1\<rparr>)"
    using assms by (auto simp: lock_ok_def cnt_move)
next
  assume w: "ps ! i = N_Writing"
  then have "0 < cnt holds_write ps" using assms(2) by (auto intro: cnt_pos_at)
  with w show "lock_ok (ps[i := N_Idle]) (l\<lparr>rw_writer := False\<rparr>)"
    using assms by (simp add: lock_ok_def cnt_move split: if_splits)
qed

lemma ns_inv_step: "ns_step pol s t \<Longrightarrow> ns_inv s \<Longrightarrow> ns_inv t"
proof (induction rule: ns_step.induct)
  case (read_lock i s)
  then show ?case using lock_ok_grants(1) [of "npcs s" "rw s" i]
    by (auto simp: ns_inv_def intro!: gate_ok_keep flag_ok_keep)
next
  case (write_try_ok i s)
  then show ?case by (auto simp: ns_inv_def intro!: gate_ok_keep flag_ok_keep lock_ok_grants(2))
next
  case (write_lock i s)
  then have "gate s = Some i" by (auto simp: ns_inv_def intro: gate_ok_owner)
  moreover have "writer_waiting s" using write_lock by (auto simp: ns_inv_def flag_ok_def)
  ultimately show ?case using write_lock
    by (auto simp: ns_inv_def intro!: gate_ok_keep flag_ok_keep lock_ok_grants(2))
next
  case (write_flag i s)
  then have "gate s = Some i" by (auto simp: ns_inv_def intro: gate_ok_owner)
  then show ?case using write_flag by (auto simp: ns_inv_def intro!: gate_ok_keep flag_ok_set lock_ok_keep)
next
  case (write_clear i s)
  then have "gate s = Some i" by (auto simp: ns_inv_def intro: gate_ok_owner)
  then show ?case using write_clear flag_ok_clear [of "npcs s" "gate s" i]
    by (auto simp: ns_inv_def intro!: gate_ok_keep lock_ok_keep)
next
  case (write_open i s)
  then show ?case using gate_ok_free [of "npcs s" "gate s" i N_Writing]
    by (auto simp: ns_inv_def intro!: flag_ok_keep lock_ok_keep)
next
  case (read_pass i s)
  then show ?case using gate_ok_free [of "npcs s" "gate s" i NR_Lock]
    by (auto simp: ns_inv_def intro!: flag_ok_keep lock_ok_keep)
next
  case (read_gate i s)
  then show ?case by (auto simp: ns_inv_def intro!: gate_ok_take flag_ok_keep lock_ok_keep)
next
  case (write_gate i s)
  then show ?case by (auto simp: ns_inv_def intro!: gate_ok_take flag_ok_keep lock_ok_keep)
next
  case (release_read i s)
  then show ?case using lock_ok_release(1) [of "npcs s" "rw s" i]
    by (auto simp: ns_inv_def intro!: gate_ok_keep flag_ok_keep)
next
  case (release_write i s)
  then show ?case by (auto simp: ns_inv_def intro!: gate_ok_keep flag_ok_keep lock_ok_release(2))
qed (auto simp: ns_inv_def intro!: gate_ok_keep flag_ok_keep lock_ok_keep split: if_splits)

end

sublocale rwlock_laws \<subseteq> excl: inductive_invariant ns_start "ns_step pol" ns_inv
  by unfold_locales (blast intro: ns_inv_init ns_inv_step)+

context rwlock_laws
begin

lemma ns_always: "reachable ns_start (ns_step pol) s \<Longrightarrow> ns_inv s"
  by (rule excl.always)

end

subsection \<open>Readers do not overtake a waiting writer\<close>

text \<open>A step during which thread \<open>w\<close> keeps waiting for the write lock behind the gate.\<close>

definition kept_waiting :: "rw_policy \<Rightarrow> nat \<Rightarrow> ns_state \<Rightarrow> ns_state \<Rightarrow> bool" where
  "kept_waiting pol w s t \<longleftrightarrow> ns_step pol s t \<and> npcs s ! w = NW_Lock \<and> npcs t ! w = NW_Lock"

definition past_gate :: "ns_state \<Rightarrow> nat" where
  "past_gate s = cnt (\<lambda>p. p = NR_Lock) (npcs s)"

lemma past_gate_move:
  "i < length (npcs s) \<Longrightarrow> npcs s ! i \<noteq> NR_Lock \<Longrightarrow> p \<noteq> NR_Lock \<Longrightarrow>
   cnt (\<lambda>p. p = NR_Lock) ((npcs s)[i := p]) = cnt (\<lambda>p. p = NR_Lock) (npcs s)"
  by (simp add: cnt_move)

lemma no_new_readers:
  "ns_step pol s t \<Longrightarrow> ns_inv s \<Longrightarrow> w < length (npcs s) \<Longrightarrow> npcs s ! w = NW_Lock \<Longrightarrow>
   reads t + past_gate t \<le> reads s + past_gate s"
proof (induction rule: ns_step.induct)
  case (read_test i s)
  then have "writer_waiting s" by (auto simp: ns_inv_def flag_ok_def)
  with read_test show ?case by (simp add: past_gate_def past_gate_move)
next
  case (read_gate i s)
  then show ?case using gate_ok_owner [of "npcs s" "gate s" w] by (simp add: ns_inv_def)
next
  case (read_pass i s)
  then show ?case
    using gate_ok_owner [of "npcs s" "gate s" w] gate_ok_owner [of "npcs s" "gate s" i] by (simp add: ns_inv_def)
next
  case (read_lock i s)
  moreover have "0 < cnt (\<lambda>p. p = NR_Lock) (npcs s)" using read_lock by (auto intro: cnt_pos_at)
  ultimately show ?case by (simp add: past_gate_def cnt_move)
qed (simp_all add: past_gate_def past_gate_move)

lemma ns_length: "ns_step pol s t \<Longrightarrow> length (npcs t) = length (npcs s)"
  by (induction rule: ns_step.induct) auto

lemma cnt_two: "i < length ps \<Longrightarrow> j < length ps \<Longrightarrow> i \<noteq> j \<Longrightarrow> P (ps ! i) \<Longrightarrow> P (ps ! j) \<Longrightarrow> \<not> P x \<Longrightarrow> 2 \<le> cnt P ps"
  using cnt_update [of i ps P x] cnt_pos_at [of j "ps[i := x]" P] by auto

lemma cnt_disjoint: "(\<And>p. \<not> (P p \<and> Q p)) \<Longrightarrow> cnt P ps + cnt Q ps \<le> length ps"
proof (induction ps)
  case (Cons p ps)
  then show ?case using Cons.prems [of p] by auto
qed simp

text \<open>The discipline of the default lock of the library: a read lock whenever nobody writes, a write
  lock whenever the lock is free.\<close>

definition default_policy :: rw_policy where
  "default_policy = \<lparr>grants_read = (\<lambda>l. \<not> rw_writer l), grants_write = (\<lambda>l. \<not> rw_writer l \<and> rw_readers l = 0)\<rparr>"

interpretation default_rw: rwlock_laws default_policy
  by unfold_locales (auto simp: default_policy_def)

subsection \<open>A run\<close>

definition ns_ex :: "nat \<Rightarrow> nat option \<Rightarrow> bool \<Rightarrow> npc list \<Rightarrow> ns_state" where
  "ns_ex readers g f ps =
     \<lparr>rw = \<lparr>rw_readers = readers, rw_writer = False\<rparr>, gate = g, writer_waiting = f, npcs = ps, reads = readers\<rparr>"

lemma ns_ex_waiting:
  "reachable ns_start (ns_step default_policy) (ns_ex 1 (Some 1) True [N_Reading, NW_Lock])"
proof -
  let ?reach = "reachable ns_start (ns_step default_policy)"
  have "?reach (ns_ex 0 None False [N_Idle, N_Idle])"
    by (rule reachable_init) (auto simp: ns_start_def NoStarve_new_def ns_ex_def numeral_2_eq_2 intro: exI [of _ 2])
  then have "?reach (ns_ex 0 None False [NR_Test, N_Idle])"
    by (rule reachable_step) (use read_call [of 0 "ns_ex 0 None False [N_Idle, N_Idle]"] in \<open>simp add: ns_ex_def\<close>)
  then have "?reach (ns_ex 0 None False [NR_Lock, N_Idle])"
    by (rule reachable_step) (use read_test [of 0 "ns_ex 0 None False [NR_Test, N_Idle]"] in \<open>simp add: ns_ex_def\<close>)
  then have "?reach (ns_ex 1 None False [N_Reading, N_Idle])"
    by (rule reachable_step)
      (use read_lock [of 0 "ns_ex 0 None False [NR_Lock, N_Idle]" default_policy] in \<open>simp add: ns_ex_def default_policy_def\<close>)
  then have "?reach (ns_ex 1 None False [N_Reading, NW_Try])"
    by (rule reachable_step) (use write_call [of 1 "ns_ex 1 None False [N_Reading, N_Idle]"] in \<open>simp add: ns_ex_def\<close>)
  then have "?reach (ns_ex 1 None False [N_Reading, NW_Gate])"
    by (rule reachable_step)
      (use write_try_fails [of 1 "ns_ex 1 None False [N_Reading, NW_Try]" default_policy] in \<open>simp add: ns_ex_def default_policy_def\<close>)
  then have "?reach (ns_ex 1 (Some 1) False [N_Reading, NW_Flag])"
    by (rule reachable_step) (use write_gate [of 1 "ns_ex 1 None False [N_Reading, NW_Gate]"] in \<open>simp add: ns_ex_def\<close>)
  then show ?thesis
    by (rule reachable_step) (use write_flag [of 1 "ns_ex 1 (Some 1) False [N_Reading, NW_Flag]"] in \<open>simp add: ns_ex_def\<close>)
qed

subsection \<open>Properties\<close>

text \<open>C19. Exclusion. For every underlying lock with the documented behaviour and every interleaving:
  while a thread holds the lock for writing, from the grant to its release, no other thread
  holds it for reading or for writing.\<close>

theorem NoStarve_exclusion:
  assumes "rwlock_laws pol" and "reachable ns_start (ns_step pol) s"
    and "i < length (npcs s)" and "j < length (npcs s)" and "i \<noteq> j" and "holds_write (npcs s ! i)"
  shows "npcs s ! j \<noteq> N_Reading \<and> \<not> holds_write (npcs s ! j)"
proof -
  have inv: "lock_ok (npcs s) (rw s)"
    using rwlock_laws.ns_always [OF assms(1,2)] by (simp add: ns_inv_def)
  have "0 < cnt holds_write (npcs s)" using assms(3,6) by (rule cnt_pos_at)
  then have one: "cnt holds_write (npcs s) = 1" "rw_readers (rw s) = 0"
    using inv by (auto simp: lock_ok_def split: if_splits)
  have "npcs s ! j \<noteq> N_Reading"
    using inv one(2) cnt_pos_at [of j "npcs s" "\<lambda>p. p = N_Reading"] assms(4) by (auto simp: lock_ok_def)
  moreover have "\<not> holds_write (npcs s ! j)"
    using cnt_two [of i "npcs s" j holds_write N_Idle] assms(3-6) one(1) by auto
  ultimately show ?thesis by simp
qed

lemma ns_ex_writing:
  "reachable ns_start (ns_step default_policy)
     ((ns_ex 0 (Some 1) True [N_Idle, NW_Clear])\<lparr>rw := \<lparr>rw_readers = 0, rw_writer = True\<rparr>, reads := 1\<rparr>)"
proof -
  have "reachable ns_start (ns_step default_policy) ((ns_ex 0 (Some 1) True [N_Idle, NW_Lock])\<lparr>reads := 1\<rparr>)"
    by (rule reachable_step [OF ns_ex_waiting])
      (use release_read [of 0 "ns_ex 1 (Some 1) True [N_Reading, NW_Lock]" default_policy] in \<open>simp add: ns_ex_def\<close>)
  then show ?thesis
    by (rule reachable_step)
      (use write_lock [of 1 "(ns_ex 0 (Some 1) True [N_Idle, NW_Lock])\<lparr>reads := 1\<rparr>" default_policy] in
        \<open>simp add: ns_ex_def default_policy_def\<close>)
qed

theorem NoStarve_exclusion_witness:
  "let s = (ns_ex 0 (Some 1) True [N_Idle, NW_Clear])\<lparr>rw := \<lparr>rw_readers = 0, rw_writer = True\<rparr>, reads := 1\<rparr>
   in holds_write (npcs s ! 1) \<and> npcs s ! 0 \<noteq> N_Reading"
  using NoStarve_exclusion [OF default_rw.rwlock_laws_axioms ns_ex_writing, of 1 0] by (simp add: ns_ex_def)

text \<open>C20. No starvation by readers. Once a writer waits for the lock behind the gate, and as long as it
  waits, at most those readers still get the lock that had passed the gate before: the number of
  read locks granted meanwhile is bounded by the number of threads that stood behind the test of
  \<^verbatim>\<open>writer_waiting_\<close> when the wait began, no matter how many calls of \<^verbatim>\<open>AcquireRead\<close> follow.\<close>

theorem NoStarve_bounded_bypass:
  assumes "rwlock_laws pol" and "reachable ns_start (ns_step pol) s"
    and "w < length (npcs s)" and "npcs s ! w = NW_Lock" and "(kept_waiting pol w)\<^sup>*\<^sup>* s t"
  shows "reads t - reads s \<le> past_gate s \<and> past_gate s < length (npcs s)"
proof -
  from assms(5) have "reachable ns_start (ns_step pol) t \<and> length (npcs t) = length (npcs s) \<and>
      reads t + past_gate t \<le> reads s + past_gate s"
  proof (induction rule: rtranclp_induct)
    case base
    then show ?case using assms(2) by simp
  next
    case (step t u)
    then have "ns_step pol t u" "npcs t ! w = NW_Lock" by (auto simp: kept_waiting_def)
    with step assms(1,3) show ?case
      using no_new_readers [of pol t u w] rwlock_laws.ns_always [OF assms(1), of t] ns_length [of pol t u]
        reachable_step [of ns_start "ns_step pol" t u]
      by auto
  qed
  moreover have "past_gate s < length (npcs s)"
  proof -
    have "cnt (\<lambda>p. p = NR_Lock) (npcs s) + cnt (\<lambda>p. p = NW_Lock) (npcs s) \<le> length (npcs s)"
      by (rule cnt_disjoint) simp
    moreover have "0 < cnt (\<lambda>p. p = NW_Lock) (npcs s)" using assms(3,4) by (auto intro: cnt_pos_at)
    ultimately show ?thesis by (simp add: past_gate_def)
  qed
  ultimately show ?thesis by auto
qed

theorem NoStarve_bounded_bypass_witness:
  "past_gate (ns_ex 1 (Some 1) True [N_Reading, NW_Lock]) < 2 \<and>
   {t. (kept_waiting default_policy 1)\<^sup>*\<^sup>* (ns_ex 1 (Some 1) True [N_Reading, NW_Lock]) t} \<subseteq> {t. reads t \<le> 1}"
proof -
  let ?s = "ns_ex 1 (Some 1) True [N_Reading, NW_Lock]"
  have "reads t - reads ?s \<le> past_gate ?s \<and> past_gate ?s < length (npcs ?s)"
    if "(kept_waiting default_policy 1)\<^sup>*\<^sup>* ?s t" for t
    using NoStarve_bounded_bypass [OF default_rw.rwlock_laws_axioms ns_ex_waiting _ _ that] by (simp add: ns_ex_def)
  then show ?thesis by (auto simp: ns_ex_def past_gate_def)
qed

end
