(* ===== verification/Socket.thy ===== *)
theory Socket
  imports Time_Util "HOL-Library.Word" "HOL-Library.Multiset"
begin

text \<open>
  \<^verbatim>\<open>src/net/socket.h\<close> and \<^verbatim>\<open>src/net/socket.cc\<close>. The operating system is a parameter: a record of the
  calls the code makes, each on an abstract state \<open>'w\<close> of the world. The option setters of
  \<^verbatim>\<open>Socket\<close> (\<^verbatim>\<open>SetSendTimeout\<close>, \<^verbatim>\<open>SetLinger\<close>, ...) and \<^verbatim>\<open>SetCachedAddress\<close> are declared in the header
  and defined nowhere in the repository; they are parameters too. Two identifiers in
  \<^verbatim>\<open>OpenConnection\<close> are misspelt (\<^verbatim>\<open>sterror\<close>, \<^verbatim>\<open>re2\<close>); they are read as \<^verbatim>\<open>strerror\<close> and \<^verbatim>\<open>ret2\<close>.
  Everything that is only logged is left out, as are the peer fields, which no function here reads.
  \<open>None\<close> is a null pointer. The retry counters are unbounded: in \<open>Read\<close> they stay within two of
  \<open>max_recv_retries\<close> (5 unless set otherwise), in \<open>Peek\<close> their value decides nothing.
\<close>

type_synonym fd = int

definition EINTR :: int where "EINTR = 4"
definition ECONNRESET :: int where "ECONNRESET = 104"
definition PF_UNIX :: int where "PF_UNIX = 1"
definition SOCK_STREAM :: int where "SOCK_STREAM = 1"
definition IPPROTO_IP :: int where "IPPROTO_IP = 0"
definition sun_path_size :: nat where "sun_path_size = 108"

datatype sockaddr = Sockaddr_un string | Sockaddr_of nat

record addrinfo =
  ai_family :: int
  ai_socktype :: int
  ai_protocol :: int
  ai_addr :: sockaddr

record Socket =
  host :: string
  port :: "16 word"
  path :: string
  socket_fd :: fd
  interrupt_listener :: "fd option"
  conn_timeout :: int64
  send_timeout :: int64
  recv_timeout :: int64
  keep_alive :: bool
  linger_on :: bool
  linger_value :: int
  no_delay :: bool
  max_recv_retries :: int64

datatype sock_option =
  SendTimeout int64 | RecvTimeout int64 | KeepAlive bool | Linger bool int | NoDelay bool | LowMinRTO

text \<open>\<open>sys_poll\<close> takes for each descriptor whether \<^verbatim>\<open>POLLIN\<close> and whether \<^verbatim>\<open>POLLOUT\<close> is requested, and
  returns its result, \<^verbatim>\<open>errno\<close> and for each descriptor whether \<^verbatim>\<open>POLLIN\<close> is set in \<^verbatim>\<open>revents\<close>.\<close>

record 'w net_api =
  sys_socket :: "int \<Rightarrow> int \<Rightarrow> int \<Rightarrow> 'w \<Rightarrow> fd \<times> 'w"
  sys_connect :: "fd \<Rightarrow> sockaddr \<Rightarrow> 'w \<Rightarrow> int \<times> 'w"
  sys_poll :: "(fd \<times> bool \<times> bool) list \<Rightarrow> int \<Rightarrow> 'w \<Rightarrow> (int \<times> int \<times> bool list) \<times> 'w"
  sys_recv :: "fd \<Rightarrow> nat \<Rightarrow> bool \<Rightarrow> 'w \<Rightarrow> (int \<times> int \<times> nat list) \<times> 'w"
  sys_getfl :: "fd \<Rightarrow> 'w \<Rightarrow> int \<times> 'w"
  sys_setfl :: "fd \<Rightarrow> int \<Rightarrow> 'w \<Rightarrow> 'w"
  with_nonblock :: "bool \<Rightarrow> int \<Rightarrow> int"
  sys_getsockopt_error :: "fd \<Rightarrow> 'w \<Rightarrow> (int \<times> int) \<times> 'w"
  sys_shutdown :: "fd \<Rightarrow> 'w \<Rightarrow> 'w"
  sys_close :: "fd \<Rightarrow> 'w \<Rightarrow> 'w"
  getaddrinfo :: "string \<Rightarrow> 16 word \<Rightarrow> 'w \<Rightarrow> (int \<times> addrinfo list) \<times> 'w"
  freeaddrinfo :: "addrinfo list \<Rightarrow> 'w \<Rightarrow> 'w"
  gettimeofday :: "'w \<Rightarrow> timeval"
  usleep :: "nat \<Rightarrow> 'w \<Rightarrow> 'w"
  set_option :: "sock_option \<Rightarrow> Socket \<Rightarrow> 'w \<Rightarrow> Socket \<times> 'w"
  GetUseLowMinRetranTiemout :: bool
  SetCachedAddress :: "sockaddr \<Rightarrow> Socket \<Rightarrow> Socket"

subsection \<open>Construction, Close\<close>

definition Socket_blank :: "string \<Rightarrow> 16 word \<Rightarrow> string \<Rightarrow> fd \<Rightarrow> fd option \<Rightarrow> Socket" where
  "Socket_blank h p pa s il =
     \<lparr>host = h, port = p, path = pa, socket_fd = s, interrupt_listener = il, conn_timeout = 0,
      send_timeout = 0, recv_timeout = 0, keep_alive = False, linger_on = True, linger_value = 0,
      no_delay = True, max_recv_retries = 5\<rparr>"

definition Socket_new_host :: "string \<Rightarrow> 16 word \<Rightarrow> Socket" where
  "Socket_new_host h p = Socket_blank h p '''' (-1) None"
definition Socket_new_path :: "string \<Rightarrow> Socket" where
  "Socket_new_path pa = Socket_blank '''' 0 pa (-1) None"
definition Socket_new :: Socket where
  "Socket_new = Socket_blank '''' 0 '''' (-1) None"
definition Socket_new_fd :: "fd \<Rightarrow> Socket" where
  "Socket_new_fd s = Socket_blank '''' 0 '''' s None"
definition Socket_new_fd_listener :: "fd \<Rightarrow> fd option \<Rightarrow> Socket" where
  "Socket_new_fd_listener s il = Socket_blank '''' 0 '''' s il"

definition IsOpen :: "Socket \<Rightarrow> bool" where
  "IsOpen s \<longleftrightarrow> socket_fd s \<noteq> -1"

definition Close :: "'w net_api \<Rightarrow> Socket \<Rightarrow> 'w \<Rightarrow> Socket \<times> 'w" where
  "Close api s w =
     (let w' = (if socket_fd s \<noteq> -1 then sys_close api (socket_fd s) (sys_shutdown api (socket_fd s) w) else w)
      in (s\<lparr>socket_fd := -1\<rparr>, w'))"

definition Socket_delete :: "'w net_api \<Rightarrow> Socket \<Rightarrow> 'w \<Rightarrow> 'w" where
  "Socket_delete api s w = snd (Close api s w)"

definition SetSocketFD :: "'w net_api \<Rightarrow> fd \<Rightarrow> Socket \<Rightarrow> 'w \<Rightarrow> Socket \<times> 'w" where
  "SetSocketFD api sock s w =
     (let (s1, w1) = (if socket_fd s \<noteq> -1 then Close api s w else (s, w))
      in (s1\<lparr>socket_fd := sock\<rparr>, w1))"

subsection \<open>Peek\<close>

text \<open>
  The polling loop: it is left with a result (\<open>Some b\<close>: \<^verbatim>\<open>return b\<close>) or by \<^verbatim>\<open>break\<close> (\<open>None\<close>). A failing
  \<^verbatim>\<open>poll\<close> goes round again, whether by \<^verbatim>\<open>continue\<close> or, when it is not \<^verbatim>\<open>EINTR\<close> or the retries are used
  up, after logging; so the loop needs fuel.
\<close>

definition poll_timeout :: "Socket \<Rightarrow> int" where
  "poll_timeout s = (if recv_timeout s = 0 then -1 else narrow32 (recv_timeout s))"

fun Peek_loop :: "'w net_api \<Rightarrow> Socket \<Rightarrow> fd \<Rightarrow> nat \<Rightarrow> int \<Rightarrow> 'w \<Rightarrow> (bool option \<times> 'w) option" where
  "Peek_loop api s listener 0 retries w = None"
| "Peek_loop api s listener (Suc fuel) retries w =
     (let ((ret, errno, revents), w') =
            sys_poll api [(socket_fd s, True, False), (listener, True, False)] (poll_timeout s) w
      in if ret < 0 then
           (if errno = EINTR \<and> retries < max_recv_retries s then Peek_loop api s listener fuel (retries + 1) w'
            else Peek_loop api s listener fuel (if errno = EINTR then retries + 1 else retries) w')
         else if ret > 0 then
           (if revents ! 1 then Some (Some False, w') else Some (None, w'))
         else Some (Some False, w'))"

definition Peek_recv :: "'w net_api \<Rightarrow> Socket \<Rightarrow> 'w \<Rightarrow> bool \<times> 'w" where
  "Peek_recv api s w = (case sys_recv api (socket_fd s) 1 True w of ((r, errno, buf), w') \<Rightarrow> (r > 0, w'))"

definition Peek :: "'w net_api \<Rightarrow> nat \<Rightarrow> Socket \<Rightarrow> 'w \<Rightarrow> (bool \<times> 'w) option" where
  "Peek api fuel s w =
     (if \<not> IsOpen s then Some (False, w)
      else case interrupt_listener s of
        None \<Rightarrow> Some (Peek_recv api s w)
      | Some listener \<Rightarrow>
          (case Peek_loop api s listener fuel 0 w of
             None \<Rightarrow> None
           | Some (Some b, w') \<Rightarrow> Some (b, w')
           | Some (None, w') \<Rightarrow> Some (Peek_recv api s w')))"

subsection \<open>Open\<close>

text \<open>The option calls of \<open>OpenConnection\<close>, in order.\<close>

definition options_of :: "'w net_api \<Rightarrow> Socket \<Rightarrow> sock_option list" where
  "options_of api s =
     (if send_timeout s > 0 then [SendTimeout (send_timeout s)] else []) @
     (if recv_timeout s > 0 then [RecvTimeout (recv_timeout s)] else []) @
     (if keep_alive s then [KeepAlive True] else []) @
     [Linger (linger_on s) (linger_value s), NoDelay (no_delay s)] @
     (if GetUseLowMinRetranTiemout api then [LowMinRTO] else [])"

definition set_options :: "'w net_api \<Rightarrow> Socket \<Rightarrow> 'w \<Rightarrow> Socket \<times> 'w" where
  "set_options api s w = fold (\<lambda>opt (s, w). set_option api opt s w) (options_of api s) (s, w)"

text \<open>After a \<^verbatim>\<open>connect\<close> on a looked-up address: the \<^verbatim>\<open>poll\<close> and the query of the pending error. All
  branches end at the label \<^verbatim>\<open>done\<close>.\<close>

definition await_connect :: "'w net_api \<Rightarrow> Socket \<Rightarrow> 'w \<Rightarrow> 'w" where
  "await_connect api s w =
     (case sys_poll api [(socket_fd s, False, True)] (narrow32 (conn_timeout s)) w of
        ((ret, errno, revents), w') \<Rightarrow>
          if ret > 0 then snd (sys_getsockopt_error api (socket_fd s) w') else w')"

text \<open>The part from the socket on. A path that does not fit is copied over the end of \<^verbatim>\<open>sun_path\<close>.\<close>

definition connect_to ::
  "'w net_api \<Rightarrow> addrinfo option \<Rightarrow> Socket \<Rightarrow> 'w \<Rightarrow> 'w res" where
  "connect_to api res s w =
     (if path s \<noteq> [] then
        if length (path s) + 1 > sun_path_size then Inl Undefined
        else Inr (snd (sys_connect api (socket_fd s) (Sockaddr_un (path s)) w))
      else case res of
        None \<Rightarrow> Inl Undefined
      | Some ai \<Rightarrow> Inr (snd (sys_connect api (socket_fd s) (ai_addr ai) w)))"

definition create_socket :: "'w net_api \<Rightarrow> addrinfo option \<Rightarrow> Socket \<Rightarrow> 'w \<Rightarrow> (fd \<times> 'w) res" where
  "create_socket api res s w =
     (if path s \<noteq> [] then Inr (sys_socket api PF_UNIX SOCK_STREAM IPPROTO_IP w)
      else case res of
        None \<Rightarrow> Inl Undefined
      | Some ai \<Rightarrow> Inr (sys_socket api (ai_family ai) (ai_socktype ai) (ai_protocol ai) w))"

definition use_socket :: "'w net_api \<Rightarrow> addrinfo option \<Rightarrow> Socket \<Rightarrow> 'w \<Rightarrow> (Socket \<times> 'w) res" where
  "use_socket api res s w =
     (let (s2, w2) = set_options api s w;
          (flags, w3) = sys_getfl api (socket_fd s2) w2;
          w4 = sys_setfl api (socket_fd s2) (with_nonblock api (conn_timeout s2 > 0) flags) w3
      in bind_res (connect_to api res s2 w4) (\<lambda>w5.
         let w6 = (if res = None then w5 else await_connect api s2 w5);
             w7 = sys_setfl api (socket_fd s2) flags w6
         in if path s2 = [] then
              (case res of None \<Rightarrow> Inl Undefined | Some ai \<Rightarrow> Inr (SetCachedAddress api (ai_addr ai) s2, w7))
            else Inr (s2, w7)))"

definition OpenConnection :: "'w net_api \<Rightarrow> addrinfo option \<Rightarrow> Socket \<Rightarrow> 'w \<Rightarrow> (Socket \<times> 'w) res" where
  "OpenConnection api res s w =
     (if IsOpen s then Inr (s, w)
      else bind_res (create_socket api res s w) (\<lambda>(sock, w1). use_socket api res (s\<lparr>socket_fd := sock\<rparr>) w1))"

text \<open>\<open>OpenConnection\<close> throws nothing, so the loop over the addresses stops after the first.\<close>

definition LocalOpen :: "'w net_api \<Rightarrow> Socket \<Rightarrow> 'w \<Rightarrow> (Socket \<times> 'w) res" where
  "LocalOpen api s w =
     (if IsOpen s then Inr (s, w)
      else case getaddrinfo api (host s) (port s) w of ((error, res0), w1) \<Rightarrow>
        let (s2, w2) = (if error \<noteq> 0 then Close api s w1 else (s, w1))
        in bind_res (case res0 of [] \<Rightarrow> Inr (s2, w2) | res # _ \<Rightarrow> OpenConnection api (Some res) s2 w2)
             (\<lambda>(s3, w3). Inr (s3, freeaddrinfo api res0 w3)))"

definition UnixOpen :: "'w net_api \<Rightarrow> Socket \<Rightarrow> 'w \<Rightarrow> (Socket \<times> 'w) res" where
  "UnixOpen api s w = (if path s \<noteq> [] then OpenConnection api None s w else Inr (s, w))"

definition Open :: "'w net_api \<Rightarrow> Socket \<Rightarrow> 'w \<Rightarrow> (Socket \<times> 'w) res" where
  "Open api s w =
     (if IsOpen s then Inr (s, w)
      else if path s \<noteq> [] then UnixOpen api s w else LocalOpen api s w)"

subsection \<open>Read\<close>

definition to_uint32 :: "int \<Rightarrow> int" where
  "to_uint32 x = x mod 2 ^ 32"

definition eagain_threshold_micros :: "Socket \<Rightarrow> int res" where
  "eagain_threshold_micros s =
     (if recv_timeout s \<noteq> 0 then
        bind_res (mul64 (recv_timeout s) 1000) (\<lambda>us.
        bind_res (div64 us (if max_recv_retries s > 0 then max_recv_retries s else 2)) (\<lambda>q. Inr (to_uint32 q)))
      else Inr 0)"

definition elapsed_micros :: "timeval \<Rightarrow> timeval \<Rightarrow> int" where
  "elapsed_micros tv_begin tv_end =
     to_uint32 ((tvl_sec tv_end - tvl_sec tv_begin) * 1000 * 1000 + (tvl_usec tv_end - tvl_usec tv_begin))"

text \<open>The poll before a read: in \<open>fds[0]\<close> no event is requested. It returns whether to try again, and
  the number of retries.\<close>

definition Read_poll :: "'w net_api \<Rightarrow> Socket \<Rightarrow> int \<Rightarrow> 'w \<Rightarrow> bool \<times> int \<times> 'w" where
  "Read_poll api s retries w =
     (case interrupt_listener s of
        None \<Rightarrow> (False, retries, w)
      | Some listener \<Rightarrow>
          (case sys_poll api [(socket_fd s, False, False), (listener, True, False)] (poll_timeout s) w of
             ((ret, errno, revents), w') \<Rightarrow>
               if ret < 0 \<and> errno = EINTR then (retries < max_recv_retries s, retries + 1, w')
               else (False, retries, w')))"

text \<open>What follows one \<^verbatim>\<open>recv\<close>: whether to try again, and the number of retries. The guard is
  \<^verbatim>\<open>if (got)\<close>: it holds when data has arrived.\<close>

definition Read_retry ::
  "'w net_api \<Rightarrow> Socket \<Rightarrow> int \<Rightarrow> int \<Rightarrow> int \<Rightarrow> int \<Rightarrow> int \<Rightarrow> 'w \<Rightarrow> bool \<times> int \<times> 'w" where
  "Read_retry api s threshold elapsed got errno retries w =
     (let again = got \<noteq> 0 \<and> (threshold = 0 \<or> elapsed < threshold);
          retries1 = (if again then retries + 1 else retries)
      in if again \<and> retries < max_recv_retries s then (True, retries1, usleep api 50 w)
         else if errno = EINTR then (retries1 < max_recv_retries s, retries1 + 1, w)
         else (False, retries1, w))"

text \<open>From the label \<^verbatim>\<open>try_again\<close> on; the result is the value returned, converted to \<^verbatim>\<open>uint32_t\<close>, and the
  contents of the buffer.\<close>

function Read_try ::
  "'w net_api \<Rightarrow> Socket \<Rightarrow> nat \<Rightarrow> int \<Rightarrow> int \<Rightarrow> 'w \<Rightarrow> int \<times> nat list \<times> 'w" where
  "Read_try api s len threshold retries w =
     (let tv_begin = (if recv_timeout s > 0 then gettimeofday api w else \<lparr>tvl_sec = 0, tvl_usec = 0\<rparr>);
          (again, retries1, w1) = Read_poll api s retries w
      in if again then Read_try api s len threshold retries1 w1
         else
           let ((got, errno, buf), w2) = sys_recv api (socket_fd s) len False w1;
               (again2, retries2, w3) =
                 Read_retry api s threshold (elapsed_micros tv_begin (gettimeofday api w2)) got errno retries1 w2
           in if again2 then Read_try api s len threshold retries2 w3
              else if errno = ECONNRESET then (0, buf, w3)
              else (to_uint32 got, buf, w3))"
  by pat_completeness auto
termination
proof (relation "measure (\<lambda>(api, s, len, threshold, retries, w). nat (max_recv_retries s - retries))", goal_cases)
  case 1
  then show ?case by simp
next
  case (2 api s len threshold retries w tv x again y retries1 w1)
  then show ?case by (auto simp: Read_poll_def split: option.splits prod.splits if_splits)
next
  case (3 api s len threshold retries w tv x again y retries1 w1)
  then show ?case
    by (auto simp: Read_poll_def Read_retry_def Let_def split: option.splits prod.splits if_splits)
qed

declare Read_try.simps [simp del]

definition Read :: "'w net_api \<Rightarrow> Socket \<Rightarrow> nat \<Rightarrow> 'w \<Rightarrow> (int \<times> nat list \<times> 'w) res" where
  "Read api s len w =
     bind_res (eagain_threshold_micros s) (\<lambda>threshold. Inr (Read_try api s len threshold 0 w))"

subsection \<open>Properties of Read\<close>

lemma Read_poll_none [simp]: "interrupt_listener s = None \<Longrightarrow> Read_poll api s retries w = (False, retries, w)"
  by (simp add: Read_poll_def)

lemma Read_poll_again:
  "Read_poll api s retries w = (again, retries1, w1) \<Longrightarrow>
   retries \<le> retries1 \<and> (again \<longrightarrow> retries < max_recv_retries s \<and> retries < retries1)"
  by (auto simp: Read_poll_def split: option.splits prod.splits if_splits)

lemma Read_retry_again:
  "Read_retry api s threshold el got errno retries w = (again, retries1, w1) \<Longrightarrow>
   retries \<le> retries1 \<and> (again \<longrightarrow> retries < max_recv_retries s \<and> retries < retries1)"
  by (auto simp: Read_retry_def Let_def split: if_splits)

text \<open>The number of \<^verbatim>\<open>recv\<close> calls made so far, as a ghost function of the world.\<close>

definition counts_recv :: "'w net_api \<Rightarrow> ('w \<Rightarrow> nat) \<Rightarrow> bool" where
  "counts_recv api calls \<longleftrightarrow>
     (\<forall>f n p w. calls (snd (sys_recv api f n p w)) = Suc (calls w)) \<and>
     (\<forall>fs t w. calls (snd (sys_poll api fs t w)) = calls w) \<and>
     (\<forall>n w. calls (usleep api n w) = calls w)"

lemma Read_poll_calls:
  "counts_recv api calls \<Longrightarrow> Read_poll api s retries w = (again, retries1, w1) \<Longrightarrow> calls w1 = calls w"
  unfolding counts_recv_def Read_poll_def
  by (auto split: option.splits prod.splits if_splits) (metis snd_conv)+

lemma Read_retry_calls:
  "counts_recv api calls \<Longrightarrow> Read_retry api s threshold el got errno retries w = (again, retries1, w1) \<Longrightarrow>
   calls w1 = calls w"
  by (auto simp: counts_recv_def Read_retry_def Let_def split: if_splits)

text \<open>An induction over the attempts of one \<open>Read\<close>: \<open>P\<close> relates where an attempt starts with the result.\<close>

lemma Read_try_attempts [consumes 1, case_names poll_again recv_again return]:
  fixes P :: "int \<Rightarrow> 'w \<Rightarrow> int \<times> nat list \<times> 'w \<Rightarrow> bool"
  assumes "Read_try api s len threshold retries w = x"
    and poll: "\<And>retries w retries1 w1 x.
      Read_poll api s retries w = (True, retries1, w1) \<Longrightarrow> P retries1 w1 x \<Longrightarrow> P retries w x"
    and recv: "\<And>retries w retries1 w1 got errno buf w2 el retries2 w3 x.
      Read_poll api s retries w = (False, retries1, w1) \<Longrightarrow>
      sys_recv api (socket_fd s) len False w1 = ((got, errno, buf), w2) \<Longrightarrow>
      Read_retry api s threshold el got errno retries1 w2 = (True, retries2, w3) \<Longrightarrow>
      P retries2 w3 x \<Longrightarrow> P retries w x"
    and ret: "\<And>retries w retries1 w1 got errno buf w2 el retries2 w3.
      Read_poll api s retries w = (False, retries1, w1) \<Longrightarrow>
      sys_recv api (socket_fd s) len False w1 = ((got, errno, buf), w2) \<Longrightarrow>
      Read_retry api s threshold el got errno retries1 w2 = (False, retries2, w3) \<Longrightarrow>
      P retries w (if errno = ECONNRESET then 0 else to_uint32 got, buf, w3)"
  shows "P retries w x"
  unfolding assms(1) [symmetric] using poll recv ret
proof (induction api s len threshold retries w rule: Read_try.induct)
  case (1 api s len threshold retries w)
  note P = "1.prems"
  obtain again retries1 w1 where p: "Read_poll api s retries w = (again, retries1, w1)"
    by (cases "Read_poll api s retries w") auto
  obtain got errno buf w2 where r: "sys_recv api (socket_fd s) len False w1 = ((got, errno, buf), w2)"
    by (cases "sys_recv api (socket_fd s) len False w1") auto
  define tv where "tv = (if recv_timeout s > 0 then gettimeofday api w else \<lparr>tvl_sec = 0, tvl_usec = 0\<rparr>)"
  obtain again2 retries2 w3
    where q: "Read_retry api s threshold (elapsed_micros tv (gettimeofday api w2)) got errno retries1 w2
                = (again2, retries2, w3)"
    by (cases "Read_retry api s threshold (elapsed_micros tv (gettimeofday api w2)) got errno retries1 w2") auto
  have eq: "Read_try api s len threshold retries w =
    (if again then Read_try api s len threshold retries1 w1
     else if again2 then Read_try api s len threshold retries2 w3
     else (if errno = ECONNRESET then 0 else to_uint32 got, buf, w3))"
    by (subst Read_try.simps) (simp add: p r q tv_def [symmetric])
  consider (poll) again | (recv) "\<not> again" again2 | (ret) "\<not> again" "\<not> again2" by blast
  then show ?case
  proof cases
    case poll
    then have "P retries1 w1 (Read_try api s len threshold retries1 w1)"
      using "1.IH"(1) [OF tv_def p [symmetric] refl refl poll] P by blast
    with poll p P(1) eq show ?thesis by simp
  next
    case recv
    then have "P retries2 w3 (Read_try api s len threshold retries2 w3)"
      using "1.IH"(2) [OF tv_def p [symmetric] refl refl recv(1) r [symmetric] refl refl refl
          q [symmetric] refl refl recv(2)] P by blast
    with recv p q P(2) [OF _ r] eq show ?thesis by simp
  next
    case ret
    with p q P(3) [OF _ r] eq show ?thesis by simp
  qed
qed

lemma nat_diff_step: "(a::int) < m \<Longrightarrow> a < b \<Longrightarrow> Suc (nat (m - b)) \<le> nat (m - a)"
  by auto

lemma Read_try_calls:
  assumes c: "counts_recv api calls"
    and x: "Read_try api s len threshold retries w = x"
  shows "calls (snd (snd x)) \<le> calls w + 1 + nat (max_recv_retries s - retries)"
  using x
proof (induction rule: Read_try_attempts)
  case (poll_again retries w retries1 w1 x)
  then show ?case
    using Read_poll_calls [OF c poll_again(1)] Read_poll_again [OF poll_again(1)]
      nat_diff_step [of retries "max_recv_retries s" retries1] by simp
next
  case (recv_again retries w retries1 w1 got errno buf w2 el retries2 w3 x)
  have "calls w2 = Suc (calls w1)" using c recv_again(2) unfolding counts_recv_def by (metis snd_conv)
  then show ?case
    using recv_again Read_poll_calls [OF c recv_again(1)] Read_poll_again [OF recv_again(1)]
      Read_retry_calls [OF c recv_again(3)] Read_retry_again [OF recv_again(3)]
      nat_diff_step [of retries "max_recv_retries s" retries2] by simp
next
  case (return retries w retries1 w1 got errno buf w2 el retries2 w3)
  have "calls w2 = Suc (calls w1)" using c return(2) unfolding counts_recv_def by (metis snd_conv)
  then show ?case
    using Read_poll_calls [OF c return(1)] Read_retry_calls [OF c return(3)] by simp
qed

lemma eagain_threshold_none [simp]: "recv_timeout s = 0 \<Longrightarrow> eagain_threshold_micros s = Inr 0"
  by (simp add: eagain_threshold_micros_def)

lemma Read_try_step:
  assumes "interrupt_listener s = None" "recv_timeout s = 0"
    and "sys_recv api (socket_fd s) len False w = ((got, errno, buf), w2)"
    and "got \<noteq> 0" "errno \<noteq> EINTR"
  shows "Read_try api s len 0 retries w =
    (if retries < max_recv_retries s then Read_try api s len 0 (retries + 1) (usleep api 50 w2)
     else (if errno = ECONNRESET then 0 else to_uint32 got, buf, w2))"
  using assms by (subst Read_try.simps) (simp add: Read_retry_def)

lemma to_uint32_bounds: "0 \<le> to_uint32 x \<and> to_uint32 x < 2 ^ 32"
  by (simp add: to_uint32_def)

lemma Read_try_bounds:
  "Read_try api s len threshold retries w = x \<Longrightarrow> 0 \<le> fst x \<and> fst x < 2 ^ 32"
  by (induction rule: Read_try_attempts) (use to_uint32_bounds in auto)

text \<open>A run of \<open>Read_try\<close> in which every \<^verbatim>\<open>recv\<close> brings data.\<close>

lemma Read_try_data:
  assumes "interrupt_listener s = None" "recv_timeout s = 0"
    and recv: "\<And>k. k \<le> n \<Longrightarrow>
      sys_recv api (socket_fd s) len False (ws k) = ((got k, errno k, buf k), wr k)"
    and data: "\<And>k. k \<le> n \<Longrightarrow> got k > 0 \<and> errno k \<notin> {EINTR, ECONNRESET}"
    and sleep: "\<And>k. k < n \<Longrightarrow> ws (Suc k) = usleep api 50 (wr k)"
    and n: "max_recv_retries s = int n" and "k \<le> n"
  shows "Read_try api s len 0 (int k) (ws k) = (to_uint32 (got n), buf n, wr n)"
  using \<open>k \<le> n\<close>
proof (induction k rule: inc_induct)
  case base
  with recv [of n] data [of n] assms(1,2) n show ?case by (simp add: Read_try_step)
next
  case (step k)
  have "Read_try api s len 0 (int k) (ws k) = Read_try api s len 0 (int k + 1) (usleep api 50 (wr k))"
    using step.hyps recv [of k] data [of k] assms(1,2) n by (simp add: Read_try_step)
  with step sleep [of k] show ?case by (simp add: add.commute)
qed

subsection \<open>Properties of Peek\<close>

lemma Peek_loop_polls:
  assumes poll: "\<And>k. k \<le> n \<Longrightarrow>
      sys_poll api [(socket_fd s, True, False), (listener, True, False)] (poll_timeout s) (ws k)
        = ((ret k, errno k, revs k), ws (Suc k))"
    and fail: "\<And>k. k < n \<Longrightarrow> ret k < 0" and "ret n \<ge> 0" and "j \<le> n"
  shows "Peek_loop api s listener fuel retries (ws j) =
    (if fuel + j \<le> n then None
     else Some (if ret n > 0 \<and> \<not> revs n ! 1 then None else Some False, ws (Suc n)))"
  using \<open>j \<le> n\<close>
proof (induction fuel arbitrary: retries j)
  case 0
  then show ?case by simp
next
  case (Suc fuel)
  show ?case
  proof (cases "j = n")
    case True
    with poll [of n] \<open>ret n \<ge> 0\<close> show ?thesis by simp
  next
    case False
    with Suc.prems have "j < n" by simp
    with fail [of j] poll [of j] Suc.IH [of "Suc j"] show ?thesis by simp
  qed
qed

subsection \<open>Properties of Open and Close\<close>

text \<open>The setters that the repository only declares change neither the descriptor nor the path.\<close>

definition setters_keep :: "'w net_api \<Rightarrow> bool" where
  "setters_keep api \<longleftrightarrow>
     (\<forall>opt s w. socket_fd (fst (set_option api opt s w)) = socket_fd s \<and>
                path (fst (set_option api opt s w)) = path s) \<and>
     (\<forall>a s. socket_fd (SetCachedAddress api a s) = socket_fd s \<and> path (SetCachedAddress api a s) = path s)"

lemma fold_options_keep:
  assumes "setters_keep api"
  shows "socket_fd (fst (fold (\<lambda>opt (s, w). set_option api opt s w) opts sw)) = socket_fd (fst sw) \<and>
         path (fst (fold (\<lambda>opt (s, w). set_option api opt s w) opts sw)) = path (fst sw)"
proof (induction opts arbitrary: sw)
  case (Cons opt opts)
  then show ?case using assms by (cases sw) (simp add: setters_keep_def)
qed simp

lemma set_options_keep:
  "setters_keep api \<Longrightarrow> set_options api s w = (s', w') \<Longrightarrow> socket_fd s' = socket_fd s \<and> path s' = path s"
  using fold_options_keep [of api "options_of api s" "(s, w)"] by (simp add: set_options_def)

lemma use_socket_unix:
  assumes "setters_keep api" "path s \<noteq> []" "length (path s) < sun_path_size"
  shows "\<exists>s' w'. use_socket api None s w = Inr (s', w') \<and> socket_fd s' = socket_fd s"
proof -
  obtain s2 w2 where opts: "set_options api s w = (s2, w2)" by fastforce
  with set_options_keep [OF assms(1) opts] assms show ?thesis
    by (auto simp: use_socket_def connect_to_def Let_def split: prod.splits)
qed

lemma use_socket_overflow:
  assumes "setters_keep api" "path s \<noteq> []" "length (path s) \<ge> sun_path_size"
  shows "use_socket api res s w = Inl Undefined"
proof -
  obtain s2 w2 where opts: "set_options api s w = (s2, w2)" by fastforce
  with set_options_keep [OF assms(1) opts] assms show ?thesis
    by (auto simp: use_socket_def connect_to_def Let_def split: prod.splits)
qed

lemma use_socket_inet:
  assumes "setters_keep api" "path s = []"
  shows "\<exists>s' w'. use_socket api (Some ai) s w = Inr (s', w') \<and> socket_fd s' = socket_fd s"
proof -
  obtain s2 w2 where opts: "set_options api s w = (s2, w2)" by fastforce
  from assms(1) have "socket_fd (SetCachedAddress api (ai_addr ai) s2) = socket_fd s2"
    by (simp add: setters_keep_def)
  with opts set_options_keep [OF assms(1) opts] assms show ?thesis
    by (simp add: use_socket_def connect_to_def Let_def split: prod.splits)
qed

text \<open>Ownership of descriptors: the descriptors obtained and closed so far, as ghost functions of the
  world. Only \<^verbatim>\<open>socket\<close> obtains one, only \<^verbatim>\<open>close\<close> gives one up.\<close>

definition held :: "fd \<Rightarrow> fd multiset" where
  "held f = (if f = -1 then {#} else {#f#})"

definition same_fds :: "('w \<Rightarrow> fd multiset) \<Rightarrow> ('w \<Rightarrow> fd multiset) \<Rightarrow> 'w \<Rightarrow> 'w \<Rightarrow> bool" where
  "same_fds obtained closed w w' \<longleftrightarrow> obtained w' = obtained w \<and> closed w' = closed w"

definition tracks_fds :: "'w net_api \<Rightarrow> ('w \<Rightarrow> fd multiset) \<Rightarrow> ('w \<Rightarrow> fd multiset) \<Rightarrow> bool" where
  "tracks_fds api obtained closed \<longleftrightarrow>
     (\<forall>d ty p w. obtained (snd (sys_socket api d ty p w)) = obtained w + held (fst (sys_socket api d ty p w)) \<and>
                 closed (snd (sys_socket api d ty p w)) = closed w) \<and>
     (\<forall>f w. obtained (sys_close api f w) = obtained w \<and> closed (sys_close api f w) = closed w + {#f#}) \<and>
     (\<forall>f a w. same_fds obtained closed w (snd (sys_connect api f a w))) \<and>
     (\<forall>fs tm w. same_fds obtained closed w (snd (sys_poll api fs tm w))) \<and>
     (\<forall>f w. same_fds obtained closed w (snd (sys_getfl api f w))) \<and>
     (\<forall>f fl w. same_fds obtained closed w (sys_setfl api f fl w)) \<and>
     (\<forall>f w. same_fds obtained closed w (snd (sys_getsockopt_error api f w))) \<and>
     (\<forall>f w. same_fds obtained closed w (sys_shutdown api f w)) \<and>
     (\<forall>h p w. same_fds obtained closed w (snd (getaddrinfo api h p w))) \<and>
     (\<forall>r w. same_fds obtained closed w (freeaddrinfo api r w)) \<and>
     (\<forall>opt s w. same_fds obtained closed w (snd (set_option api opt s w)))"

lemma same_fds_trans:
  "same_fds ob cl w1 w2 \<Longrightarrow> same_fds ob cl w2 w3 \<Longrightarrow> same_fds ob cl w1 w3"
  by (simp add: same_fds_def)

lemma set_options_fds:
  assumes "tracks_fds api ob cl"
  shows "same_fds ob cl w (snd (set_options api s w))"
proof -
  have "same_fds ob cl (snd sw) (snd (fold (\<lambda>opt (s, w). set_option api opt s w) opts sw))" for opts sw
  proof (induction opts arbitrary: sw)
    case Nil
    then show ?case by (simp add: same_fds_def)
  next
    case (Cons opt opts)
    from assms have "same_fds ob cl (snd sw) (snd (set_option api opt (fst sw) (snd sw)))"
      by (simp add: tracks_fds_def)
    from same_fds_trans [OF this Cons] show ?case by (simp add: case_prod_beta)
  qed
  from this [of "(s, w)"] show ?thesis by (simp add: set_options_def)
qed

lemma connect_to_fds:
  "tracks_fds api ob cl \<Longrightarrow> connect_to api res s w = Inr w' \<Longrightarrow> same_fds ob cl w w'"
  by (auto simp: tracks_fds_def connect_to_def split: if_splits option.splits)

lemma await_connect_fds:
  assumes "tracks_fds api ob cl"
  shows "same_fds ob cl w (await_connect api s w)"
proof -
  obtain ret errno revents w' where
    p: "sys_poll api [(socket_fd s, False, True)] (narrow32 (conn_timeout s)) w = ((ret, errno, revents), w')"
    by (metis prod_cases3 surj_pair)
  with assms have "same_fds ob cl w w'" unfolding tracks_fds_def by (metis snd_conv)
  moreover from assms have "same_fds ob cl w' (snd (sys_getsockopt_error api (socket_fd s) w'))"
    by (simp add: tracks_fds_def)
  ultimately show ?thesis by (auto simp: await_connect_def p intro: same_fds_trans)
qed

lemma tracks_fdsD:
  assumes "tracks_fds api ob cl"
  shows "same_fds ob cl w (snd (sys_getfl api f w))" "same_fds ob cl w (sys_setfl api f fl w)"
    "same_fds ob cl w (snd (getaddrinfo api h p w))" "same_fds ob cl w (freeaddrinfo api r w)"
    "sys_socket api d ty pr w = (sock, w') \<Longrightarrow> ob w' = ob w + held sock \<and> cl w' = cl w"
  using assms by (auto simp: tracks_fds_def dest: spec [of _ d]) (metis fst_conv snd_conv)+

lemma create_socket_fds:
  assumes "tracks_fds api ob cl" "create_socket api res s w = Inr (sock, w')"
  shows "ob w' = ob w + held sock \<and> cl w' = cl w"
  using assms(2) tracks_fdsD(5) [OF assms(1)]
  by (auto simp: create_socket_def split: if_splits option.splits)

lemma use_socket_fds:
  assumes "tracks_fds api ob cl" "setters_keep api" and used: "use_socket api res s w = Inr (s', w')"
  shows "same_fds ob cl w w' \<and> socket_fd s' = socket_fd s"
proof -
  obtain s2 w2 where opts: "set_options api s w = (s2, w2)" by fastforce
  obtain flags w3 where fl: "sys_getfl api (socket_fd s2) w2 = (flags, w3)" by fastforce
  define w4 where "w4 = sys_setfl api (socket_fd s2) (with_nonblock api (conn_timeout s2 > 0) flags) w3"
  from used obtain w5 where conn: "connect_to api res s2 w4 = Inr w5"
    and fd: "socket_fd s' = socket_fd s2"
    and w': "w' = sys_setfl api (socket_fd s2) flags (if res = None then w5 else await_connect api s2 w5)"
    using assms(2) opts fl
    by (cases "connect_to api res s2 w4")
      (auto simp: use_socket_def w4_def Let_def setters_keep_def split: if_splits option.splits)
  note D = tracks_fdsD [OF assms(1)]
  have "same_fds ob cl w w2" using set_options_fds [OF assms(1), of w s] opts by simp
  moreover have "same_fds ob cl w2 w3" using D(1) [where f = "socket_fd s2" and w = w2] fl by simp
  moreover have "same_fds ob cl w3 w4" unfolding w4_def by (rule D(2))
  moreover have "same_fds ob cl w4 w5" by (rule connect_to_fds [OF assms(1) conn])
  moreover have "same_fds ob cl w5 (await_connect api s2 w5)" by (rule await_connect_fds [OF assms(1)])
  moreover have "same_fds ob cl (if res = None then w5 else await_connect api s2 w5) w'"
    unfolding w' by (rule D(2))
  ultimately have "same_fds ob cl w w'" by (auto simp: same_fds_def split: if_splits)
  with fd set_options_keep [OF assms(2) opts] show ?thesis by simp
qed

text \<open>An operation is balanced when what it closes and what the socket holds afterwards is what the
  socket held before and what was obtained.\<close>

definition balanced ::
  "('w \<Rightarrow> fd multiset) \<Rightarrow> ('w \<Rightarrow> fd multiset) \<Rightarrow> Socket \<times> 'w \<Rightarrow> Socket \<times> 'w \<Rightarrow> bool" where
  "balanced ob cl = (\<lambda>(s, w) (s', w').
     ob w' + held (socket_fd s) + cl w = ob w + held (socket_fd s') + cl w')"

lemma balanced_refl [simp]: "balanced ob cl x x"
  by (simp add: balanced_def split: prod.split)

lemma balance_add:
  assumes "o1 + h0 + c0 + a = o0 + h1 + c1" "o2 + h1 + c1 + b = o1 + h2 + c2"
  shows "o2 + h0 + c0 + (a + b) = o0 + h2 + (c2 :: 'a multiset)"
proof (rule multiset_eqI)
  fix x
  from assms have "count (o1 + h0 + c0 + a) x = count (o0 + h1 + c1) x"
    "count (o2 + h1 + c1 + b) x = count (o1 + h2 + c2) x" by simp_all
  then show "count (o2 + h0 + c0 + (a + b)) x = count (o0 + h2 + c2) x" by simp
qed

lemma balanced_trans: "balanced ob cl x y \<Longrightarrow> balanced ob cl y z \<Longrightarrow> balanced ob cl x z"
  using balance_add [where a = "{#}" and b = "{#}"] by (force simp: balanced_def split: prod.splits)

lemma Close_balanced:
  "tracks_fds api ob cl \<Longrightarrow> balanced ob cl (s, w) (Close api s w)"
  by (simp add: tracks_fds_def same_fds_def balanced_def Close_def held_def Let_def)

lemma Close_fd [simp]:
  "socket_fd (fst (Close api s w)) = -1" "path (fst (Close api s w)) = path s"
  by (simp_all add: Close_def Let_def)

lemma OpenConnection_balanced:
  assumes "tracks_fds api ob cl" "setters_keep api" "OpenConnection api res s w = Inr x"
  shows "balanced ob cl (s, w) x"
proof (cases "IsOpen s")
  case True
  with assms show ?thesis by (simp add: OpenConnection_def)
next
  case False
  with assms obtain sock w1 s' w' where "create_socket api res s w = Inr (sock, w1)"
    "use_socket api res (s\<lparr>socket_fd := sock\<rparr>) w1 = Inr (s', w')" "x = (s', w')"
    by (cases "create_socket api res s w"; cases x) (auto simp: OpenConnection_def)
  with create_socket_fds [OF assms(1)] use_socket_fds [OF assms(1,2)] False show ?thesis
    by (fastforce simp: balanced_def same_fds_def held_def IsOpen_def)
qed

lemma LocalOpen_balanced:
  assumes "tracks_fds api ob cl" "setters_keep api" "LocalOpen api s w = Inr x"
  shows "balanced ob cl (s, w) x"
proof (cases "IsOpen s")
  case True
  with assms show ?thesis by (simp add: LocalOpen_def)
next
  case False
  obtain error res0 w1 where ai: "getaddrinfo api (host s) (port s) w = ((error, res0), w1)"
    by (metis surj_pair)
  obtain s2 w2 where cl: "(if error \<noteq> 0 then Close api s w1 else (s, w1)) = (s2, w2)" by fastforce
  from assms(3) False ai cl obtain s3 w3 where
    conn: "(case res0 of [] \<Rightarrow> Inr (s2, w2) | res # _ \<Rightarrow> OpenConnection api (Some res) s2 w2) = Inr (s3, w3)"
    and x: "x = (s3, freeaddrinfo api res0 w3)"
    unfolding LocalOpen_def
    by (cases "case res0 of [] \<Rightarrow> Inr (s2, w2) | res # _ \<Rightarrow> OpenConnection api (Some res) s2 w2") auto
  have "balanced ob cl (s, w) (s, w1)"
    using tracks_fdsD(3) [OF assms(1), of w "host s" "port s"] ai by (simp add: balanced_def same_fds_def)
  moreover have "balanced ob cl (s, w1) (s2, w2)"
    using Close_balanced [OF assms(1), of s w1] cl by (auto split: if_splits)
  moreover have "balanced ob cl (s2, w2) (s3, w3)"
    using conn OpenConnection_balanced [OF assms(1,2)] by (cases res0) auto
  moreover have "balanced ob cl (s3, w3) x"
    using tracks_fdsD(4) [OF assms(1), of w3 res0] x by (simp add: balanced_def same_fds_def)
  ultimately show ?thesis by (blast intro: balanced_trans)
qed

lemma Open_balanced:
  "tracks_fds api ob cl \<Longrightarrow> setters_keep api \<Longrightarrow> Open api s w = Inr x \<Longrightarrow> balanced ob cl (s, w) x"
  by (auto simp: Open_def UnixOpen_def split: if_splits
      intro: OpenConnection_balanced LocalOpen_balanced)

text \<open>The calls a client makes on a socket that matter for its descriptor.\<close>

datatype socket_op = OpOpen | OpClose | OpSetSocketFD fd

fun run_socket :: "'w net_api \<Rightarrow> socket_op list \<Rightarrow> Socket \<times> 'w \<Rightarrow> (Socket \<times> 'w) res" where
  "run_socket api [] (s, w) = Inr (s, w)"
| "run_socket api (OpOpen # ops) (s, w) = bind_res (Open api s w) (run_socket api ops)"
| "run_socket api (OpClose # ops) (s, w) = run_socket api ops (Close api s w)"
| "run_socket api (OpSetSocketFD f # ops) (s, w) = run_socket api ops (SetSocketFD api f s w)"

fun adopted :: "socket_op list \<Rightarrow> fd multiset" where
  "adopted [] = {#}"
| "adopted (OpSetSocketFD f # ops) = held f + adopted ops"
| "adopted (op # ops) = adopted ops"

lemma SetSocketFD_balanced:
  assumes "tracks_fds api ob cl" "SetSocketFD api f s w = (s', w')"
  shows "ob w' + held (socket_fd s) + cl w + held f = ob w + held (socket_fd s') + cl w'"
  using assms Close_balanced [OF assms(1), of s w]
  by (cases "Close api s w") (auto simp: SetSocketFD_def balanced_def held_def Close_def Let_def split: if_splits)

lemma run_socket_balanced:
  assumes "tracks_fds api ob cl" "setters_keep api" "run_socket api ops (s, w) = Inr (s', w')"
  shows "ob w' + held (socket_fd s) + cl w + adopted ops = ob w + held (socket_fd s') + cl w'"
  using assms(3)
proof (induction ops arbitrary: s w)
  case Nil
  then show ?case by (simp add: ac_simps)
next
  case (Cons op ops)
  obtain s1 w1 where run: "run_socket api ops (s1, w1) = Inr (s', w')"
    and step: "ob w1 + held (socket_fd s) + cl w + adopted [op] = ob w + held (socket_fd s1) + cl w1"
  proof (cases op)
    case OpOpen
    with Cons.prems Open_balanced [OF assms(1,2)] show ?thesis
      by (cases "Open api s w") (fastforce simp: balanced_def intro: that)+
  next
    case OpClose
    with Cons.prems Close_balanced [OF assms(1), of s w] show ?thesis
      by (cases "Close api s w") (fastforce simp: balanced_def intro: that)
  next
    case (OpSetSocketFD f)
    with Cons.prems SetSocketFD_balanced [OF assms(1), of f s w] show ?thesis
      by (cases "SetSocketFD api f s w") (fastforce intro: that)
  qed
  have "adopted (op # ops) = adopted [op] + adopted ops" by (cases op) auto
  with balance_add [OF step Cons.IH [OF run]] show ?case by simp
qed

subsection \<open>The properties\<close>

text \<open>A scripted operating system, on which the properties are run: received chunks, poll results and
  the descriptors \<^verbatim>\<open>socket\<close> will return are lists; what was obtained and closed is recorded.\<close>

record script =
  chunks :: "nat list list"
  polls :: "(int \<times> int \<times> bool list) list"
  fresh_fds :: "fd list"
  fds_obtained :: "fd multiset"
  fds_closed :: "fd multiset"
  recv_calls :: nat

fun script_recv :: "fd \<Rightarrow> nat \<Rightarrow> bool \<Rightarrow> script \<Rightarrow> (int \<times> int \<times> nat list) \<times> script" where
  "script_recv f n p w =
     (case chunks w of
        [] \<Rightarrow> ((0, 0, []), w\<lparr>recv_calls := Suc (recv_calls w)\<rparr>)
      | c # cs \<Rightarrow> ((int (length c), 0, c), w\<lparr>chunks := cs, recv_calls := Suc (recv_calls w)\<rparr>))"

fun script_poll :: "(fd \<times> bool \<times> bool) list \<Rightarrow> int \<Rightarrow> script \<Rightarrow> (int \<times> int \<times> bool list) \<times> script" where
  "script_poll fs t w =
     (case polls w of [] \<Rightarrow> ((0, 0, [False, False]), w) | p # ps \<Rightarrow> (p, w\<lparr>polls := ps\<rparr>))"

fun script_socket :: "int \<Rightarrow> int \<Rightarrow> int \<Rightarrow> script \<Rightarrow> fd \<times> script" where
  "script_socket d ty p w =
     (case fresh_fds w of
        [] \<Rightarrow> (-1, w)
      | f # fs \<Rightarrow> (f, w\<lparr>fresh_fds := fs, fds_obtained := fds_obtained w + held f\<rparr>))"

definition script_api :: "script net_api" where
  "script_api =
     \<lparr>sys_socket = script_socket, sys_connect = (\<lambda>f a w. (-1, w)), sys_poll = script_poll,
      sys_recv = script_recv, sys_getfl = (\<lambda>f w. (0, w)), sys_setfl = (\<lambda>f fl w. w),
      with_nonblock = (\<lambda>b fl. fl), sys_getsockopt_error = (\<lambda>f w. ((0, 0), w)),
      sys_shutdown = (\<lambda>f w. w), sys_close = (\<lambda>f w. w\<lparr>fds_closed := fds_closed w + {#f#}\<rparr>),
      getaddrinfo = (\<lambda>h p w. ((0, []), w)), freeaddrinfo = (\<lambda>r w. w),
      gettimeofday = (\<lambda>w. \<lparr>tvl_sec = 0, tvl_usec = 0\<rparr>), usleep = (\<lambda>n w. w),
      set_option = (\<lambda>opt s w. (s, w)), GetUseLowMinRetranTiemout = False,
      SetCachedAddress = (\<lambda>a s. s)\<rparr>"

definition script_world :: script where
  "script_world = \<lparr>chunks = [[1], [2], [3], [4], [5], [6, 7], [8]], polls = [(-1, 4, []), (-1, 9, []), (1, 0, [True, False])],
     fresh_fds = [7, 8], fds_obtained = {#}, fds_closed = {#}, recv_calls = 0\<rparr>"

lemmas script_simps = script_api_def script_world_def Socket_new_fd_def Socket_new_fd_listener_def
  Socket_new_path_def Socket_blank_def

lemma script_counts: "counts_recv script_api recv_calls"
  by (auto simp: counts_recv_def script_api_def split: list.split)

lemma script_tracks: "tracks_fds script_api fds_obtained fds_closed"
  by (auto simp: tracks_fds_def same_fds_def script_api_def held_def split: list.split)

lemma script_setters: "setters_keep script_api"
  by (simp add: setters_keep_def script_api_def)

text \<open>C30. A \<open>Read\<close> that returns has called \<^verbatim>\<open>recv\<close> at most once more than the configured number of
  retries, and its result is an unsigned 32-bit number.\<close>

theorem Read_attempts_bounded:
  assumes "counts_recv api calls"
    and "Read api s len w = Inr (result, buf, w')"
  shows "calls w' \<le> calls w + 1 + nat (max_recv_retries s) \<and> 0 \<le> result \<and> result < 2 ^ 32"
proof -
  from assms(2) obtain threshold where r: "Read_try api s len threshold 0 w = (result, buf, w')"
    by (cases "eagain_threshold_micros s") (auto simp: Read_def)
  from Read_try_calls [OF assms(1) r] Read_try_bounds [OF r]
  show ?thesis by simp
qed

theorem Read_attempts_bounded_witness:
  "recv_calls (snd (snd (projr (Read script_api (Socket_new_fd 3) 10 script_world)))) \<le> 6"
proof -
  obtain result buf w' where r: "Read script_api (Socket_new_fd 3) 10 script_world = Inr (result, buf, w')"
    by (cases "Read script_api (Socket_new_fd 3) 10 script_world")
      (auto simp: Read_def Socket_new_fd_def Socket_blank_def)
  from Read_attempts_bounded [OF script_counts r] show ?thesis
    by (simp add: r) (simp add: script_simps)
qed

text \<open>When data is available at every attempt, on a socket without listener and receive timeout,
  \<open>Read\<close> overwrites the buffer on each attempt: after \<open>n\<close> retries it returns the last of \<open>n + 1\<close> chunks and
  the earlier ones are lost.\<close>

theorem Read_discards_data:
  assumes "interrupt_listener s = None" "recv_timeout s = 0" "max_recv_retries s = int n"
    and "\<And>k. k \<le> n \<Longrightarrow>
      sys_recv api (socket_fd s) len False (ws k) = ((got k, errno k, buf k), wr k)"
    and "\<And>k. k \<le> n \<Longrightarrow> got k > 0 \<and> errno k \<notin> {EINTR, ECONNRESET}"
    and "\<And>k. k < n \<Longrightarrow> ws (Suc k) = usleep api 50 (wr k)"
  shows "Read api s len (ws 0) = Inr (to_uint32 (got n), buf n, wr n)"
  using Read_try_data [where ws = ws and k = 0 and got = got and errno = errno and buf = buf and wr = wr,
      OF assms(1,2,4,5,6,3)] assms(2) by (simp add: Read_def)

definition script_after :: "nat \<Rightarrow> script" where
  "script_after k = script_world\<lparr>chunks := drop k (chunks script_world), recv_calls := k\<rparr>"

theorem Read_discards_data_witness:
  "Read script_api (Socket_new_fd 3) 10 script_world = Inr (2, [6, 7], script_after 6)"
proof -
  have k: "k \<in> {0, 1, 2, 3, 4, 5}" if "k \<le> 5" for k :: nat using that by auto
  have "Read script_api (Socket_new_fd 3) 10 (script_after 0)
      = Inr (to_uint32 (int (length (chunks script_world ! 5))), chunks script_world ! 5, script_after (Suc 5))"
  proof (rule Read_discards_data [where n = 5 and ws = script_after and errno = "\<lambda>k. 0"
        and got = "\<lambda>k. int (length (chunks script_world ! k))" and buf = "\<lambda>k. chunks script_world ! k"
        and wr = "\<lambda>k. script_after (Suc k)"])
    show "sys_recv script_api (socket_fd (Socket_new_fd 3)) 10 False (script_after k) =
        ((int (length (chunks script_world ! k)), 0, chunks script_world ! k), script_after (Suc k))"
      if "k \<le> 5" for k
      using k [OF that] by (auto simp: script_simps script_after_def)
    show "0 < int (length (chunks script_world ! k)) \<and> (0::int) \<notin> {EINTR, ECONNRESET}" if "k \<le> 5" for k
      using k [OF that] by (auto simp: script_simps EINTR_def ECONNRESET_def)
    show "script_after (Suc k) = usleep script_api 50 (script_after (Suc k))" for k
      by (simp add: script_simps)
  qed (simp_all add: script_simps)
  then show ?thesis by (simp add: script_after_def script_world_def to_uint32_def)
qed

text \<open>C31. On a socket with an interrupt listener \<open>Peek\<close> returns exactly when \<^verbatim>\<open>poll\<close> has succeeded, after
  however many failures: the retry limit does not end the loop. It then asks \<^verbatim>\<open>recv\<close> unless the poll
  timed out or the listener was signalled.\<close>

theorem Peek_polls_until_success:
  assumes "IsOpen s" "interrupt_listener s = Some listener"
    and "\<And>k. k \<le> n \<Longrightarrow>
      sys_poll api [(socket_fd s, True, False), (listener, True, False)] (poll_timeout s) (ws k)
        = ((ret k, errno k, revs k), ws (Suc k))"
    and "\<And>k. k < n \<Longrightarrow> ret k < 0" and "ret n \<ge> 0"
  shows "Peek api fuel s (ws 0) =
    (if fuel \<le> n then None
     else if ret n > 0 \<and> \<not> revs n ! 1 then Some (Peek_recv api s (ws (Suc n)))
     else Some (False, ws (Suc n)))"
  using Peek_loop_polls [where j = 0 and retries = 0, OF assms(3,4,5)] assms(1,2)
  by (simp add: Peek_def)

text \<open>An interrupted poll, a failed one and one with data: \<open>Peek\<close> returns with three rounds of fuel, not with two.\<close>

theorem Peek_polls_until_success_witness:
  "Peek script_api 3 (Socket_new_fd_listener 3 (Some 4)) script_world =
     Some (True, script_world\<lparr>polls := [], chunks := tl (chunks script_world), recv_calls := 1\<rparr>) \<and>
   Peek script_api 2 (Socket_new_fd_listener 3 (Some 4)) script_world = None"
proof -
  have k: "k = 0 \<or> k = 1 \<or> k = 2" if "k \<le> 2" for k :: nat using that by auto
  have "Peek script_api fuel (Socket_new_fd_listener 3 (Some 4)) (script_world\<lparr>polls := drop 0 (polls script_world)\<rparr>) =
    (if fuel \<le> 2 then None
     else if fst (polls script_world ! 2) > 0 \<and> \<not> snd (snd (polls script_world ! 2)) ! 1
       then Some (Peek_recv script_api (Socket_new_fd_listener 3 (Some 4)) (script_world\<lparr>polls := drop (Suc 2) (polls script_world)\<rparr>))
     else Some (False, script_world\<lparr>polls := drop (Suc 2) (polls script_world)\<rparr>))" for fuel
  proof (rule Peek_polls_until_success [where listener = 4 and ws = "\<lambda>k. script_world\<lparr>polls := drop k (polls script_world)\<rparr>"
        and n = 2 and ret = "\<lambda>k. fst (polls script_world ! k)" and revs = "\<lambda>k. snd (snd (polls script_world ! k))"
        and errno = "\<lambda>k. fst (snd (polls script_world ! k))"])
    show "sys_poll script_api [(socket_fd (Socket_new_fd_listener 3 (Some 4)), True, False), (4, True, False)]
         (poll_timeout (Socket_new_fd_listener 3 (Some 4))) (script_world\<lparr>polls := drop k (polls script_world)\<rparr>) =
        ((fst (polls script_world ! k), fst (snd (polls script_world ! k)), snd (snd (polls script_world ! k))),
         script_world\<lparr>polls := drop (Suc k) (polls script_world)\<rparr>)" if "k \<le> 2" for k
      using k [OF that] by (auto simp: script_simps)
    show "fst (polls script_world ! k) < 0" if "k < 2" for k
      using k [of k] that by (auto simp: script_simps)
  qed (simp_all add: script_simps IsOpen_def)
  from this [of 3] this [of 2] show ?thesis
    by (simp add: script_simps Peek_recv_def)
qed

text \<open>C32. What \<open>Open\<close> does on a closed socket. A socket with a path returns normally whenever the path
  fits, and is then open just when \<^verbatim>\<open>socket\<close> returned a descriptor, whatever \<^verbatim>\<open>connect\<close> said; a
  path of 108 bytes or more is written past the end of \<^verbatim>\<open>sun_path\<close>. A socket with a host uses the first
  address only.\<close>

theorem Open_outcome:
  assumes "setters_keep api" "\<not> IsOpen s"
    and "getaddrinfo api (host s) (port s) w = ((error, addresses), w1)"
  shows "if path s \<noteq> []
    then (if length (path s) \<ge> sun_path_size then Open api s w = Inl Undefined
          else \<exists>s' w'. Open api s w = Inr (s', w') \<and>
            (IsOpen s' \<longleftrightarrow> fst (sys_socket api PF_UNIX SOCK_STREAM IPPROTO_IP w) \<noteq> -1))
    else \<exists>s' w'. Open api s w = Inr (s', w') \<and>
      (IsOpen s' \<longleftrightarrow> (case addresses of [] \<Rightarrow> False
         | ai # _ \<Rightarrow> fst (sys_socket api (ai_family ai) (ai_socktype ai) (ai_protocol ai) w1) \<noteq> -1))"
proof (cases "path s = []")
  case False
  obtain sock w2 where sock: "sys_socket api PF_UNIX SOCK_STREAM IPPROTO_IP w = (sock, w2)" by fastforce
  with False assms(2)
  have "Open api s w = use_socket api None (s\<lparr>socket_fd := sock\<rparr>) w2"
    by (simp add: Open_def UnixOpen_def OpenConnection_def create_socket_def)
  with False sock use_socket_overflow [OF assms(1), of "s\<lparr>socket_fd := sock\<rparr>"]
    use_socket_unix [OF assms(1), of "s\<lparr>socket_fd := sock\<rparr>" w2]
  show ?thesis by (auto simp: IsOpen_def not_le)
next
  case True
  define s2 where "s2 = (if error \<noteq> 0 then fst (Close api s w1) else s)"
  have s2: "(if error \<noteq> 0 then Close api s w1 else (s, w1)) = (s2, w1)"
    and closed: "\<not> IsOpen s2" "path s2 = []"
    using assms(2) True by (simp_all add: s2_def Close_def IsOpen_def)
  then have eq: "Open api s w = bind_res
      (case addresses of [] \<Rightarrow> Inr (s2, w1) | res # _ \<Rightarrow> OpenConnection api (Some res) s2 w1)
      (\<lambda>(s3, w3). Inr (s3, freeaddrinfo api addresses w3))"
    using True assms(2,3) by (simp add: Open_def LocalOpen_def)
  show ?thesis
  proof (cases addresses)
    case Nil
    with eq closed True show ?thesis by simp
  next
    case (Cons ai rest)
    obtain sock w2 where
      "sys_socket api (ai_family ai) (ai_socktype ai) (ai_protocol ai) w1 = (sock, w2)" by fastforce
    with Cons eq closed True use_socket_inet [OF assms(1), of "s2\<lparr>socket_fd := sock\<rparr>" ai w2]
    show ?thesis by (auto simp: OpenConnection_def create_socket_def IsOpen_def)
  qed
qed

text \<open>A path of 108 bytes; and a short path on an operating system whose \<^verbatim>\<open>connect\<close> always fails.\<close>

theorem Open_outcome_witness:
  "Open script_api (Socket_new_path (replicate 108 CHR ''a'')) script_world = Inl Undefined \<and>
   (\<exists>s' w'. Open script_api (Socket_new_path ''a'') script_world = Inr (s', w') \<and> IsOpen s')"
proof -
  have closed: "\<not> IsOpen (Socket_new_path p)" for p by (simp add: script_simps IsOpen_def)
  have gai: "getaddrinfo script_api h q script_world = ((0, []), script_world)" for h q
    by (simp add: script_api_def)
  from Open_outcome [OF script_setters closed gai, of "replicate 108 CHR ''a''"]
    Open_outcome [OF script_setters closed gai, of "''a''"]
  show ?thesis by (simp add: script_simps sun_path_size_def)
qed

text \<open>C24. No descriptor is leaked or closed twice: after any calls of \<open>Open\<close>, \<open>Close\<close> and \<open>SetSocketFD\<close>
  followed by the destructor, the descriptors closed are exactly the one held at the start, those obtained
  from \<^verbatim>\<open>socket\<close> and those handed in, as multisets.\<close>

theorem Socket_closes_each_descriptor_once:
  assumes "tracks_fds api obtained closed" "setters_keep api"
    and "obtained w = {#}" "closed w = {#}"
    and "run_socket api ops (s, w) = Inr (s', w')"
  shows "closed (Socket_delete api s' w') =
    held (socket_fd s) + adopted ops + obtained (Socket_delete api s' w')"
proof -
  have "obtained (Socket_delete api s' w') + held (socket_fd s') + closed w'
      = obtained w' + closed (Socket_delete api s' w')"
    using Close_balanced [OF assms(1), of s' w'] Close_fd(1) [of api s' w']
    by (cases "Close api s' w'") (simp add: balanced_def Socket_delete_def held_def)
  with balance_add [where b = "{#}" and ?h2.0 = "{#}", OF run_socket_balanced [OF assms(1,2,5)],
      of "obtained (Socket_delete api s' w')" "closed (Socket_delete api s' w')"]
  show ?thesis using assms(3,4) by (simp add: ac_simps)
qed

theorem Socket_closes_each_descriptor_once_witness:
  "\<exists>s' w'. run_socket script_api [OpOpen, OpClose, OpOpen, OpSetSocketFD 9] (Socket_new_path ''a'', script_world) = Inr (s', w') \<and>
     fds_closed (Socket_delete script_api s' w') = {#7, 8, 9#}"
proof -
  obtain s' w' where run: "run_socket script_api [OpOpen, OpClose, OpOpen, OpSetSocketFD 9] (Socket_new_path ''a'', script_world) = Inr (s', w')"
    and "fds_obtained (Socket_delete script_api s' w') = {#7, 8#}"
    by (simp add: script_simps Open_def UnixOpen_def OpenConnection_def create_socket_def use_socket_def
        set_options_def options_of_def connect_to_def sun_path_size_def Close_def SetSocketFD_def IsOpen_def
        Socket_delete_def held_def)
  moreover from this Socket_closes_each_descriptor_once [OF script_tracks script_setters _ _ run]
  have "fds_closed (Socket_delete script_api s' w') = {#7, 8, 9#}"
    by (simp add: script_simps held_def)
  ultimately show ?thesis by blast
qed

end
