(* ===== verification/Test_Clients.thy ===== *)
theory Test_Clients
  imports Thread_Pool
begin

text \<open>
  Two protocols between threads that the unit tests run on a monitor: the handshake of
  \<^verbatim>\<open>SyncStartTaskTest\<close> (\<^verbatim>\<open>src/threads/simple_thread_factory_unittest.cc\<close>), and the count-down with which
  \<^verbatim>\<open>ReapNTaskTest\<close> of the same file waits for its tasks. A step is a section under the monitor's
  mutex, from taking it to releasing it or waiting, or one wake-up.
\<close>

subsection \<open>SyncStartTaskTest\<close>

datatype sync_state = S_UNINITIALIZED | S_STARTING | S_STARTED | S_STOPPING | S_STOPPED

text \<open>The thread of the task: the two sections of \<^verbatim>\<open>SyncStartTask::Run\<close>.\<close>

datatype sync_task = T_Absent | T_First | T_Second | T_Waiting | T_Returned

text \<open>The main thread: before \<^verbatim>\<open>thread->Start()\<close>, at its first loop, at the timed wait, at its second loop.\<close>

datatype sync_main = M_Begin | M_Loop1 | M_Waiting1 | M_Section2 | M_Timed | M_After | M_Waiting2 | M_Loop2 | M_Returned

record sync =
  sync_st :: sync_state
  sync_task :: sync_task
  sync_main :: sync_main

definition sync_init :: "sync \<Rightarrow> bool" where
  "sync_init s \<longleftrightarrow> s = \<lparr>sync_st = S_UNINITIALIZED, sync_task = T_Absent, sync_main = M_Begin\<rparr>"

text \<open>Notifying the monitor wakes the other thread, if it waits: each side notifies only while it runs.\<close>

fun wake_sync_main :: "sync_main \<Rightarrow> sync_main" where
  "wake_sync_main M_Waiting1 = M_Loop1"
| "wake_sync_main M_Timed = M_After"
| "wake_sync_main M_Waiting2 = M_Loop2"
| "wake_sync_main p = p"

fun wake_sync_task :: "sync_task \<Rightarrow> sync_task" where
  "wake_sync_task T_Waiting = T_Second"
| "wake_sync_task p = p"

text \<open>The sections of the task: the first one, and the second one from its loop on.\<close>

definition SyncStartTask_first :: "sync \<Rightarrow> sync" where
  "SyncStartTask_first s =
     (let s' = s\<lparr>sync_task := T_Second\<rparr>
      in if sync_st s = S_STARTING then s'\<lparr>sync_st := S_STARTED, sync_main := wake_sync_main (sync_main s)\<rparr> else s')"

definition SyncStartTask_second :: "sync \<Rightarrow> sync" where
  "SyncStartTask_second s =
     (if sync_st s = S_STARTED then s\<lparr>sync_task := T_Waiting\<rparr>
      else let s' = s\<lparr>sync_task := T_Returned\<rparr>
           in if sync_st s = S_STOPPING
              then s'\<lparr>sync_st := S_STOPPED, sync_main := wake_sync_main (sync_main s)\<rparr> else s')"

text \<open>The sections of the main thread: start, first loop, after the timed wait, second loop.\<close>

definition SyncStart_start :: "sync \<Rightarrow> sync" where
  "SyncStart_start s =
     (let s' = s\<lparr>sync_main := M_Loop1\<rparr>
      in if sync_st s = S_UNINITIALIZED then s'\<lparr>sync_st := S_STARTING, sync_task := T_First\<rparr> else s')"

definition SyncStart_loop1 :: "sync \<Rightarrow> sync" where
  "SyncStart_loop1 s = s\<lparr>sync_main := if sync_st s = S_STARTING then M_Waiting1 else M_Section2\<rparr>"

definition SyncStart_loop2 :: "sync \<Rightarrow> sync" where
  "SyncStart_loop2 s = s\<lparr>sync_main := if sync_st s = S_STOPPING then M_Waiting2 else M_Returned\<rparr>"

definition SyncStart_after :: "sync \<Rightarrow> sync" where
  "SyncStart_after s = SyncStart_loop2
     (if sync_st s = S_STARTED then s\<lparr>sync_st := S_STOPPING, sync_task := wake_sync_task (sync_task s)\<rparr> else s)"

inductive sync_step :: "sync \<Rightarrow> sync \<Rightarrow> bool" where
  sync_start: "sync_main s = M_Begin \<Longrightarrow> sync_step s (SyncStart_start s)"
| sync_loop1: "sync_main s = M_Loop1 \<Longrightarrow> sync_step s (SyncStart_loop1 s)"
| sync_timed_wait: "sync_main s = M_Section2 \<Longrightarrow> sync_step s (s\<lparr>sync_main := M_Timed\<rparr>)"
| sync_timeout: "sync_main s = M_Timed \<Longrightarrow> sync_step s (s\<lparr>sync_main := M_After\<rparr>)"
| sync_after: "sync_main s = M_After \<Longrightarrow> sync_step s (SyncStart_after s)"
| sync_loop2: "sync_main s = M_Loop2 \<Longrightarrow> sync_step s (SyncStart_loop2 s)"
| sync_first: "sync_task s = T_First \<Longrightarrow> sync_step s (SyncStartTask_first s)"
| sync_second: "sync_task s = T_Second \<Longrightarrow> sync_step s (SyncStartTask_second s)"

text \<open>Spurious wake-ups, of either thread.\<close>

inductive sync_spurious :: "sync \<Rightarrow> sync \<Rightarrow> bool" where
  spurious_main: "sync_main s \<in> {M_Waiting1, M_Waiting2} \<Longrightarrow> sync_spurious s (s\<lparr>sync_main := wake_sync_main (sync_main s)\<rparr>)"
| spurious_task: "sync_task s = T_Waiting \<Longrightarrow> sync_spurious s (s\<lparr>sync_task := T_Second\<rparr>)"

lemmas sync_defs = SyncStartTask_first_def SyncStartTask_second_def SyncStart_start_def
  SyncStart_loop1_def SyncStart_loop2_def SyncStart_after_def Let_def

definition sync_inv :: "sync \<Rightarrow> bool" where
  "sync_inv s \<longleftrightarrow> (case sync_st s of
       S_UNINITIALIZED \<Rightarrow> sync_main s = M_Begin \<and> sync_task s = T_Absent
     | S_STARTING \<Rightarrow> sync_main s \<in> {M_Loop1, M_Waiting1} \<and> sync_task s = T_First
     | S_STARTED \<Rightarrow> sync_main s \<in> {M_Loop1, M_Section2, M_Timed, M_After} \<and> sync_task s \<in> {T_Second, T_Waiting}
     | S_STOPPING \<Rightarrow> sync_main s \<in> {M_Waiting2, M_Loop2} \<and> sync_task s = T_Second
     | S_STOPPED \<Rightarrow> sync_main s \<in> {M_Loop2, M_Returned} \<and> sync_task s = T_Returned)"

lemma sync_inv_step: "sync_step s t \<or> sync_spurious s t \<Longrightarrow> sync_inv s \<Longrightarrow> sync_inv t"
proof (elim disjE)
  show "sync_step s t \<Longrightarrow> sync_inv s \<Longrightarrow> sync_inv t"
    by (induction rule: sync_step.induct) (auto simp: sync_inv_def sync_defs split: sync_state.splits)
  show "sync_spurious s t \<Longrightarrow> sync_inv s \<Longrightarrow> sync_inv t"
    by (induction rule: sync_spurious.induct) (auto simp: sync_inv_def split: sync_state.splits)
qed

interpretation sync: inductive_invariant sync_init "\<lambda>s t. sync_step s t \<or> sync_spurious s t" sync_inv
proof unfold_locales
  show "sync_init s \<Longrightarrow> sync_inv s" for s by (simp add: sync_init_def sync_inv_def)
qed (rule sync_inv_step)

text \<open>What is left to do, with every step but a spurious wake-up.\<close>

definition sync_rank :: "sync \<Rightarrow> nat" where
  "sync_rank s =
     6 * (case sync_st s of S_UNINITIALIZED \<Rightarrow> 4 | S_STARTING \<Rightarrow> 3 | S_STARTED \<Rightarrow> 2 | S_STOPPING \<Rightarrow> 1 | S_STOPPED \<Rightarrow> 0) +
     (case sync_main s of M_Loop1 \<Rightarrow> if sync_st s = S_STARTING then 1 else 4 | M_Section2 \<Rightarrow> 3 | M_Timed \<Rightarrow> 2
        | M_After \<Rightarrow> 1 | M_Loop2 \<Rightarrow> 1 | _ \<Rightarrow> 0) +
     (if sync_st s = S_STARTED \<and> sync_task s = T_Second then 1 else 0)"

lemma sync_rank_decreases: "sync_step s t \<Longrightarrow> sync_inv s \<Longrightarrow> sync_rank t < sync_rank s"
  by (induction rule: sync_step.induct)
    (auto simp: sync_inv_def sync_rank_def sync_defs split: sync_state.splits)

lemma sync_stuck: "sync_inv s \<Longrightarrow> \<nexists>t. sync_step s t \<Longrightarrow> sync_main s = M_Returned \<and> sync_task s = T_Returned"
  by (cases "sync_main s"; cases "sync_task s")
    (auto simp: sync_inv_def split: sync_state.splits dest: sync_step.intros)

subsection \<open>Counting down\<close>

text \<open>\<open>n\<close> tasks decrement a counter under the monitor, and the last one notifies; the main thread waits while
  the counter is positive, a second at a time, and then deletes the counter: \<open>c_freed\<close>. \<open>c_done\<close> says which tasks
  have done so.\<close>

datatype reap_main = R_Loop | R_Waiting | R_Returned

record count_down =
  c_count :: int
  c_done :: "bool list"
  c_main :: reap_main
  c_freed :: bool

definition count_down_new :: "nat \<Rightarrow> count_down" where
  "count_down_new n = \<lparr>c_count = int n, c_done = replicate n False, c_main = R_Loop, c_freed = False\<rparr>"

fun wake_reap :: "reap_main \<Rightarrow> reap_main" where
  "wake_reap R_Waiting = R_Loop"
| "wake_reap p = p"

definition ReapNTask_Run :: "nat \<Rightarrow> count_down \<Rightarrow> count_down" where
  "ReapNTask_Run i s =
     (let s' = s\<lparr>c_count := c_count s - 1, c_done := (c_done s)[i := True]\<rparr>
      in if c_count s' = 0 then s'\<lparr>c_main := wake_reap (c_main s)\<rparr> else s')"

definition ReapN_loop :: "count_down \<Rightarrow> count_down" where
  "ReapN_loop s = (if c_count s > 0 then s\<lparr>c_main := R_Waiting\<rparr> else s\<lparr>c_main := R_Returned, c_freed := True\<rparr>)"

inductive reap_step :: "count_down \<Rightarrow> count_down \<Rightarrow> bool" where
  reap_task: "\<lbrakk>i < length (c_done s); \<not> c_done s ! i\<rbrakk> \<Longrightarrow> reap_step s (ReapNTask_Run i s)"
| reap_loop: "c_main s = R_Loop \<Longrightarrow> reap_step s (ReapN_loop s)"

text \<open>A wake-up that was not notified: the timeout of a second, or a spurious one.\<close>

inductive reap_wakes :: "count_down \<Rightarrow> count_down \<Rightarrow> bool" where
  reap_unnotified: "c_main s = R_Waiting \<Longrightarrow> reap_wakes s (s\<lparr>c_main := R_Loop\<rparr>)"

definition reap_inv :: "count_down \<Rightarrow> bool" where
  "reap_inv s \<longleftrightarrow> c_count s = int (cnt (\<lambda>d. \<not> d) (c_done s)) \<and>
     (c_main s = R_Waiting \<longrightarrow> c_count s > 0) \<and> (c_freed s \<longleftrightarrow> c_main s = R_Returned) \<and>
     (c_main s = R_Returned \<longrightarrow> c_count s = 0)"

lemma reap_inv_step: "reap_step s t \<or> reap_wakes s t \<Longrightarrow> reap_inv s \<Longrightarrow> reap_inv t"
proof (elim disjE)
  assume "reap_step s t" "reap_inv s"
  then show "reap_inv t"
  proof (induction rule: reap_step.induct)
    case (reap_task i s)
    with cnt_update [of i "c_done s" "\<lambda>d. \<not> d" True] cnt_pos_nth [of "\<lambda>d. \<not> d" "c_done s"]
    show ?case by (cases "c_main s") (auto simp: reap_inv_def ReapNTask_Run_def Let_def)
  next
    case (reap_loop s)
    then show ?case by (auto simp: reap_inv_def ReapN_loop_def)
  qed
next
  assume "reap_wakes s t" "reap_inv s"
  then show "reap_inv t" by (induction rule: reap_wakes.induct) (auto simp: reap_inv_def)
qed

interpretation reap: inductive_invariant "\<lambda>s. \<exists>n. s = count_down_new n" "\<lambda>s t. reap_step s t \<or> reap_wakes s t" reap_inv
proof unfold_locales
  show "\<exists>n. s = count_down_new n \<Longrightarrow> reap_inv s" for s by (auto simp: count_down_new_def reap_inv_def)
qed (rule reap_inv_step)

definition reap_rank :: "count_down \<Rightarrow> nat" where
  "reap_rank s = 2 * cnt (\<lambda>d. \<not> d) (c_done s) + (if c_main s = R_Loop then 1 else 0)"

lemma reap_rank_decreases: "reap_step s t \<Longrightarrow> reap_rank t < reap_rank s"
proof (induction rule: reap_step.induct)
  case (reap_task i s)
  with cnt_update [of i "c_done s" "\<lambda>d. \<not> d" True] show ?case
    by (cases "c_main s") (auto simp: reap_rank_def ReapNTask_Run_def Let_def)
qed (auto simp: reap_rank_def ReapN_loop_def)

lemma sync_steps_inv: "sync_step\<^sup>*\<^sup>* s t \<Longrightarrow> sync_inv s \<Longrightarrow> sync_inv t"
  by (induction rule: rtranclp_induct) (blast intro: sync_inv_step)+

lemma reap_steps_inv: "reap_step\<^sup>*\<^sup>* s t \<Longrightarrow> reap_inv s \<Longrightarrow> reap_inv t"
  by (induction rule: rtranclp_induct) (blast intro: reap_inv_step)+

lemma reap_stuck:
  assumes "reap_inv s" and "\<nexists>t. reap_step s t"
  shows "c_main s = R_Returned \<and> c_count s = 0"
proof -
  have "\<not> (\<exists>i < length (c_done s). \<not> c_done s ! i)" using assms(2) reap_task by blast
  then have "cnt (\<lambda>d. \<not> d) (c_done s) = 0" using cnt_pos_nth [of "\<lambda>d. \<not> d" "c_done s"] by blast
  moreover have "c_main s \<noteq> R_Loop" using assms(2) reap_loop by blast
  ultimately show ?thesis using assms(1) by (cases "c_main s") (auto simp: reap_inv_def)
qed

subsection \<open>Properties\<close>

abbreviation sync_reach :: "sync \<Rightarrow> bool" where
  "sync_reach \<equiv> reachable sync_init (\<lambda>s t. sync_step s t \<or> sync_spurious s t)"

abbreviation reap_reach :: "count_down \<Rightarrow> bool" where
  "reap_reach \<equiv> reachable (\<lambda>s. \<exists>n. s = count_down_new n) (\<lambda>s t. reap_step s t \<or> reap_wakes s t)"

text \<open>C33. The handshake of \<^verbatim>\<open>SyncStartTaskTest\<close> completes. In every reachable state, with any spurious wake-ups
  before, the rest of the run is finite and ends only with both threads returned and the state
  \<^verbatim>\<open>STOPPED\<close>: no notification is lost. Both assertions of the test hold when they are evaluated.\<close>

theorem SyncStart_completes:
  assumes "sync_reach s"
  shows "(\<nexists>f. f 0 = s \<and> (\<forall>n. sync_step (f n) (f (Suc n)))) \<and>
    (\<forall>t. sync_step\<^sup>*\<^sup>* s t \<and> (\<nexists>u. sync_step t u) \<longrightarrow>
       sync_main t = M_Returned \<and> sync_task t = T_Returned \<and> sync_st t = S_STOPPED) \<and>
    (sync_main s = M_Section2 \<longrightarrow> sync_st s \<noteq> S_STARTING) \<and>
    (sync_main s = M_Returned \<longrightarrow> sync_st s = S_STOPPED)"
proof (intro conjI allI impI; (elim conjE)?)
  have inv: "sync_inv s" using assms by (rule sync.always)
  show "\<nexists>f. f 0 = s \<and> (\<forall>n. sync_step (f n) (f (Suc n)))"
    using ranked_ends [of sync_inv _ sync_step sync_rank] inv sync_inv_step sync_rank_decreases by metis
  show "sync_main s = M_Section2 \<Longrightarrow> sync_st s \<noteq> S_STARTING" "sync_main s = M_Returned \<Longrightarrow> sync_st s = S_STOPPED"
    using inv by (auto simp: sync_inv_def split: sync_state.splits)
  fix t assume "sync_step\<^sup>*\<^sup>* s t" "\<nexists>u. sync_step t u"
  from sync_steps_inv [OF this(1) inv] sync_stuck [OF _ this(2)]
  show "sync_main t = M_Returned" "sync_task t = T_Returned" "sync_st t = S_STOPPED"
    by (auto simp: sync_inv_def split: sync_state.splits)
qed

theorem SyncStart_completes_witness:
  "{t. sync_step\<^sup>*\<^sup>* \<lparr>sync_st = S_UNINITIALIZED, sync_task = T_Absent, sync_main = M_Begin\<rparr> t \<and> (\<nexists>u. sync_step t u)}
     \<subseteq> {t. sync_st t = S_STOPPED}"
proof -
  have "sync_reach \<lparr>sync_st = S_UNINITIALIZED, sync_task = T_Absent, sync_main = M_Begin\<rparr>"
    by (rule reachable_init) (simp add: sync_init_def)
  from SyncStart_completes [OF this] show ?thesis by auto
qed

text \<open>C34. The count-down of \<^verbatim>\<open>ReapNTaskTest\<close> completes, for any number of tasks, even if no wait ever
  times out: the rest of every run is finite and ends with the main thread returned and the counter at 0.
  When the counter is deleted every task is done with it.\<close>

theorem ReapN_completes:
  assumes "reap_reach s"
  shows "(\<nexists>f. f 0 = s \<and> (\<forall>n. reap_step (f n) (f (Suc n)))) \<and>
    (\<forall>t. reap_step\<^sup>*\<^sup>* s t \<and> (\<nexists>u. reap_step t u) \<longrightarrow> c_main t = R_Returned \<and> c_count t = 0) \<and>
    (c_freed s \<longrightarrow> set (c_done s) \<subseteq> {True})"
proof (intro conjI allI impI; (elim conjE)?)
  have inv: "reap_inv s" using assms by (rule reap.always)
  show "\<nexists>f. f 0 = s \<and> (\<forall>n. reap_step (f n) (f (Suc n)))"
    using ranked_ends [of "\<lambda>_. True" _ reap_step reap_rank] reap_rank_decreases by metis
  show "set (c_done s) \<subseteq> {True}" if "c_freed s"
    using inv that cnt_zero_iff [of "\<lambda>d. \<not> d" "c_done s"] by (auto simp: reap_inv_def)
  fix t assume "reap_step\<^sup>*\<^sup>* s t" "\<nexists>u. reap_step t u"
  then show "c_main t = R_Returned" "c_count t = 0" using reap_stuck reap_steps_inv inv by blast+
qed

theorem ReapN_completes_witness:
  "{t. reap_step\<^sup>*\<^sup>* (count_down_new 10) t \<and> (\<nexists>u. reap_step t u)} \<subseteq> {t. c_main t = R_Returned \<and> c_count t = 0}"
proof -
  have "reap_reach (count_down_new 10)" by (rule reachable_init) blast
  from ReapN_completes [OF this] show ?thesis by auto
qed

end
