(* ===== verification/Pool_Session.thy ===== *)
theory Pool_Session
  imports Pool_Client
begin

text \<open>
  The life of a \<^verbatim>\<open>SimpleThreadManager\<close> in a program with one thread besides the workers, as in
  the unit tests: \<^verbatim>\<open>NewSimpleThreadManager\<close>, \<^verbatim>\<open>SetThreadFactory\<close>, \<^verbatim>\<open>Start\<close>, any calls of \<^verbatim>\<open>Add\<close>, and the
  destructor, which calls \<^verbatim>\<open>Stop\<close>. The thread is client 0 of the pool and calls nothing else.

  The locale \<open>session_client\<close> is the interface to such a program. Whatever else the program does: \<^verbatim>\<open>Start\<close> and
  the destructor do not throw, \<open>ctl_rank\<close> goes down with every step of them, and they are never stuck once
  the workers have nothing to do.
\<close>

subsection \<open>Steps\<close>

datatype session_life = Fresh | Configured | Starting_up | Working | Stopping_down | Ended | Failed exn

record session =
  s_pool :: pool
  s_life :: session_life

text \<open>The manager of \<^verbatim>\<open>n\<close> workers and at most \<^verbatim>\<open>k\<close> pending tasks (0: no bound), where \<^verbatim>\<open>pthread_create\<close> succeeds.\<close>

definition session_cfg :: "size_t \<Rightarrow> size_t \<Rightarrow> (thread_ref \<Rightarrow> pthread_t) \<Rightarrow> pthread_t \<Rightarrow> pool_cfg" where
  "session_cfg n k ids me = \<lparr>pid = ids, creates = (\<lambda>_. True), cid = (\<lambda>_. me), control = (\<lambda>i. i = 0),
     removes = (\<lambda>_. False), purges = (\<lambda>_. False), pops = (\<lambda>_. False), simple = Some (fst (NewSimpleThreadManager n k))\<rparr>"

definition session_start :: "session \<Rightarrow> bool" where
  "session_start x \<longleftrightarrow> x = \<lparr>s_pool = pool_init 1, s_life = Fresh\<rparr>"

fun after_call :: "session_life \<Rightarrow> cpc \<Rightarrow> session_life" where
  "after_call l (C_Ret None) = (if l = Starting_up then Working else Ended)"
| "after_call l (C_Ret (Some x)) = Failed x"
| "after_call l p = l"

text \<open>The thread in \<^verbatim>\<open>SetThreadFactory\<close>, in \<^verbatim>\<open>Start\<close> and in the destructor, unless it waits.\<close>

inductive control_call :: "pool_cfg \<Rightarrow> SimpleThreadFactory \<Rightarrow> session \<Rightarrow> session \<Rightarrow> bool" for cfg f where
  call_factory:
    "\<lbrakk>s_life x = Fresh; s_pool x = p; cs p ! 0 = C_Ret e\<rbrakk> \<Longrightarrow>
     control_call cfg f x \<lparr>s_pool = p\<lparr>mgr := SetThreadFactory (Some f) (mgr p), cs := (cs p)[0 := C_Ret None]\<rparr>,
       s_life = Configured\<rparr>"
| call_start:
    "\<lbrakk>s_life x = Configured; s_pool x = p; cs p ! 0 = C_Ret e; simple cfg = Some sm\<rbrakk> \<Longrightarrow>
     control_call cfg f x \<lparr>s_pool = p\<lparr>mgr := SetPendingTaskCountMax (s_pending_task_count_max sm) (mgr p),
       cs := (cs p)[0 := C_SimpleStart]\<rparr>, s_life = Starting_up\<rparr>"
| call_stop:
    "\<lbrakk>s_life x = Working; s_pool x = p; cs p ! 0 = C_Ret e; c = (if tm_state (mgr p) = STOPPED then C_Ret None else C_Stop_Claim False)\<rbrakk> \<Longrightarrow>
     control_call cfg f x \<lparr>s_pool = p\<lparr>cs := (cs p)[0 := c]\<rparr>, s_life = after_call Stopping_down c\<rparr>"
| call_continue:
    "\<lbrakk>s_life x \<in> {Starting_up, Stopping_down}; control_step cfg (s_pool x) p; \<not> mgr_waiting (cs (s_pool x) ! 0)\<rbrakk> \<Longrightarrow>
     control_call cfg f x \<lparr>s_pool = p, s_life = after_call (s_life x) (cs p ! 0)\<rparr>"

text \<open>What a program can do to its session: nothing, call, wake up, let a worker move, or add a task. The first argument
  collects the runnable that returned, if one did.\<close>

inductive session_move :: "pool_cfg \<Rightarrow> SimpleThreadFactory \<Rightarrow> runnable_ref multiset \<Rightarrow> session \<Rightarrow> session \<Rightarrow> bool"
  for cfg f where
  move_none: "session_move cfg f {#} x x"
| move_call: "control_call cfg f x y \<Longrightarrow> session_move cfg f {#} x y"
| move_wakes:
    "\<lbrakk>mgr_waiting (cs (s_pool x) ! 0); p = (s_pool x)\<lparr>cs := (cs (s_pool x))[0 := wake_mgr (cs (s_pool x) ! 0)]\<rparr>\<rbrakk> \<Longrightarrow>
     session_move cfg f {#} x (x\<lparr>s_pool := p\<rparr>)"
| move_worker:
    "\<lbrakk>worker_step (s_pool x) p; \<not> job_ends (s_pool x) p\<rbrakk> \<Longrightarrow> session_move cfg f {#} x (x\<lparr>s_pool := p\<rparr>)"
| move_add:
    "\<lbrakk>s_life x = Working; add_call cfg 0 v timeout ev (s_pool x) p\<rbrakk> \<Longrightarrow> session_move cfg f {#} x (x\<lparr>s_pool := p\<rparr>)"
| move_returns: "task_ends w t (s_pool x) p \<Longrightarrow> session_move cfg f {#task_runnable t#} x (x\<lparr>s_pool := p\<rparr>)"

abbreviation session_step :: "pool_cfg \<Rightarrow> SimpleThreadFactory \<Rightarrow> session \<Rightarrow> session \<Rightarrow> bool" where
  "session_step cfg f x y \<equiv> \<exists>d. session_move cfg f d x y"

lemma session_cfg_simps [simp]:
  "simple (session_cfg n k ids me) = Some \<lparr>s_worker_count = n, s_pending_task_count_max = k\<rparr>"
  "capacity (session_cfg n k ids me) = k" "managed (session_cfg n k ids me) c = (c = 0)"
  "pops (session_cfg n k ids me) i = False" "purges (session_cfg n k ids me) i = False"
  "cid (session_cfg n k ids me) i = me" "pid (session_cfg n k ids me) = ids"
  "control (session_cfg n k ids me) i = (i = 0)" "creates (session_cfg n k ids me) w"
  "removes (session_cfg n k ids me) i = False"
  by (auto simp: session_cfg_def NewSimpleThreadManager_def capacity_def managed_def)

subsection \<open>The invariant of a session\<close>

fun start_ok :: "size_t \<Rightarrow> cpc \<Rightarrow> Impl \<Rightarrow> nat \<Rightarrow> bool" where
  "start_ok n C_SimpleStart m len \<longleftrightarrow>
     tm_state m = UNINITIALIZED \<and> thread_factory m \<noteq> None \<and> worker_max_count m = 0 \<and> len = 0"
| "start_ok n (C_AW_Begin v) m len \<longleftrightarrow>
     v = n \<and> tm_state m = STARTED \<and> thread_factory m \<noteq> None \<and> worker_max_count m = 0 \<and> len = 0"
| "start_ok n (C_AW_Publish v ths) m len \<longleftrightarrow>
     v = n \<and> length ths = unat n \<and> tm_state m = STARTED \<and> worker_max_count m = 0 \<and> len = unat n"
| "start_ok n (C_AW_Start ths) m len \<longleftrightarrow> tm_state m = STARTED \<and> worker_max_count m = n \<and> len = unat n"
| "start_ok n (C_AW_Insert w ths) m len \<longleftrightarrow> tm_state m = STARTED \<and> worker_max_count m = n \<and> len = unat n"
| "start_ok n C_AW_Check m len \<longleftrightarrow> tm_state m = STARTED \<and> worker_max_count m = n \<and> len = unat n"
| "start_ok n C_AW_Wait m len \<longleftrightarrow> tm_state m = STARTED \<and> worker_max_count m = n \<and> len = unat n"
| "start_ok n p m len \<longleftrightarrow> False"

fun stop_ok :: "cpc \<Rightarrow> Impl \<Rightarrow> bool" where
  "stop_ok (C_Stop_Claim join) m \<longleftrightarrow> \<not> join \<and> tm_state m = STARTED"
| "stop_ok (C_Stop_Remove join) m \<longleftrightarrow> \<not> join \<and> tm_state m = STOPPING"
| "stop_ok (C_RW_Request (Stop_of join v) w) m \<longleftrightarrow> \<not> join \<and> tm_state m = STOPPING"
| "stop_ok (C_RW_Check (Stop_of join v)) m \<longleftrightarrow> \<not> join \<and> tm_state m = STOPPING"
| "stop_ok (C_RW_Wait (Stop_of join v)) m \<longleftrightarrow> \<not> join \<and> tm_state m = STOPPING"
| "stop_ok (C_Stop_Finish (Some (join, v))) m \<longleftrightarrow> \<not> join \<and> tm_state m = STOPPING"
| "stop_ok p m \<longleftrightarrow> False"

fun life_ok :: "size_t \<Rightarrow> session_life \<Rightarrow> cpc \<Rightarrow> Impl \<Rightarrow> nat \<Rightarrow> bool" where
  "life_ok n Fresh p m len \<longleftrightarrow> p = C_Ret None \<and> tm_state m = UNINITIALIZED \<and> worker_max_count m = 0 \<and> len = 0"
| "life_ok n Configured p m len \<longleftrightarrow>
     p = C_Ret None \<and> tm_state m = UNINITIALIZED \<and> thread_factory m \<noteq> None \<and> worker_max_count m = 0 \<and> len = 0"
| "life_ok n Starting_up p m len \<longleftrightarrow> start_ok n p m len"
| "life_ok n Working p m len \<longleftrightarrow> client p \<and> tm_state m = STARTED \<and> worker_max_count m = n \<and> len = unat n"
| "life_ok n Stopping_down p m len \<longleftrightarrow> stop_ok p m \<and> len = unat n"
| "life_ok n Ended p m len \<longleftrightarrow>
     p = C_Ret None \<and> tm_state m = STOPPED \<and> worker_max_count m = 0 \<and> len = unat n"
| "life_ok n (Failed x) p m len \<longleftrightarrow> False"

definition session_inv :: "size_t \<Rightarrow> session \<Rightarrow> bool" where
  "session_inv n x \<longleftrightarrow> length (cs (s_pool x)) = 1 \<and>
     life_ok n (s_life x) (cs (s_pool x) ! 0) (mgr (s_pool x)) (length (ws (s_pool x)))"

text \<open>Every step of a session is one of the pool.\<close>

lemma control_call_pool:
  "control_call cfg f x y \<Longrightarrow> length (cs (s_pool x)) = 1 \<Longrightarrow> control cfg 0 \<Longrightarrow> control_step cfg (s_pool x) (s_pool y)"
proof (induction rule: control_call.induct)
  case (call_factory x p e)
  then show ?case using set_thread_factory [of 0 p e cfg "Some f"] by simp
next
  case (call_start x p e sm)
  then show ?case using simple_start_max [of 0 p e cfg sm] by simp
next
  case (call_stop x p e c)
  then show ?case using stop [of 0 p e cfg False] by simp
qed simp

lemma session_move_pool:
  assumes "session_move cfg f d x y" "length (cs (s_pool x)) = 1" "control cfg 0"
  shows "s_pool y = s_pool x \<or> pool_step cfg (s_pool x) (s_pool y)"
  using assms
proof (induction rule: session_move.induct)
  case (move_wakes x p)
  then show ?case using mgr_spurious [of 0 "s_pool x" cfg] by (simp add: by_control)
next
  case (move_call x y)
  then show ?case by (blast intro: by_control control_call_pool)
qed (auto intro: by_worker by_task add_call_step task_ends_worker)

lemma worker_pcs:
  "worker_step s t \<Longrightarrow> length (cs t) = length (cs s) \<and>
     (\<forall>i < length (cs s). cs t ! i = cs s ! i \<or> mgr_waiting (cs s ! i) \<and> cs t ! i = wake_mgr (cs s ! i) \<or>
        add_waiting (cs s ! i) \<and> cs t ! i = wake_add (cs s ! i))"
proof (induction rule: worker_step.induct)
  case (worker_notify w s cs')
  then show ?case using notified_nth [OF worker_notify(3)] notified_length [OF worker_notify(3)] by auto
next
  case (worker_proceed w s cur t nm calls m' cs')
  then show ?case using notified_nth [of add_waiting wake_add 1 "cs s" cs'] notified_length [of add_waiting wake_add 1 "cs s" cs']
    by (auto split: if_splits)
next
  case (worker_exit w s c nm m' cs')
  then show ?case using notified_nth [of mgr_waiting wake_mgr 1 "cs s" cs'] notified_length [of mgr_waiting wake_mgr 1 "cs s" cs']
    by (auto split: if_splits)
qed auto

lemma worker_keeps_mgr:
  "worker_step s t \<Longrightarrow> tm_state (mgr t) = tm_state (mgr s) \<and> worker_max_count (mgr t) = worker_max_count (mgr s) \<and>
     thread_factory (mgr t) = thread_factory (mgr s)"
proof (induction rule: worker_step.induct)
  case (worker_enter w s active nm m')
  then show ?case by (auto simp: Worker_enter_def Let_def split: if_splits)
next
  case (worker_sleep w s cur m')
  then show ?case using worker_turn_SleepD [OF worker_sleep(2)] by auto
next
  case (worker_proceed w s cur t nm calls m' cs')
  then show ?case using worker_turn_ProceedD [OF worker_proceed(2)] by auto
next
  case (worker_leave w s cur m')
  then show ?case using worker_turn_LeaveD [OF worker_leave(2)] by auto
next
  case (worker_exit w s c nm m' cs')
  then show ?case by (auto simp: Worker_exit_def Let_def)
qed auto

lemma life_ok_wake:
  "mgr_waiting p \<Longrightarrow> life_ok n l p m len \<Longrightarrow> life_ok n l (wake_mgr p) m len"
  "add_waiting p \<Longrightarrow> life_ok n l p m len \<Longrightarrow> life_ok n l (wake_add p) m len"
  by (cases l; cases p; (auto split: caller.splits)?; (rename_tac k; case_tac k; simp)?)+


lemma start_ok_cong:
  "tm_state m' = tm_state m \<Longrightarrow> worker_max_count m' = worker_max_count m \<Longrightarrow> thread_factory m' = thread_factory m \<Longrightarrow>
     start_ok n p m' len = start_ok n p m len"
  by (cases p) auto

lemma stop_ok_cong: "tm_state m' = tm_state m \<Longrightarrow> stop_ok p m' = stop_ok p m"
  by (induction p m rule: stop_ok.induct) auto

lemma life_ok_cong:
  "tm_state m' = tm_state m \<Longrightarrow> worker_max_count m' = worker_max_count m \<Longrightarrow> thread_factory m' = thread_factory m \<Longrightarrow>
     life_ok n l p m' len = life_ok n l p m len"
  using start_ok_cong [of m' m] stop_ok_cong [of m' m] by (cases l) auto

lemma session_inv_worker: "worker_step p p' \<Longrightarrow> session_inv n \<lparr>s_pool = p, s_life = l\<rparr> \<Longrightarrow> session_inv n \<lparr>s_pool = p', s_life = l\<rparr>"
proof -
  assume step: "worker_step p p'" and inv: "session_inv n \<lparr>s_pool = p, s_life = l\<rparr>"
  have same: "life_ok n l q (mgr p') len = life_ok n l q (mgr p) len" for q len
    using worker_keeps_mgr [OF step] by (intro life_ok_cong) auto
  have "life_ok n l (cs p' ! 0) (mgr p) (length (ws p))"
    using worker_pcs [OF step] inv life_ok_wake by (auto simp: session_inv_def)
  then show ?thesis using worker_pcs [OF step] ws_grow_worker [OF step] inv by (simp add: session_inv_def same)
qed

lemma add_call_mgr:
  "add_call cfg i v timeout ev p p' \<Longrightarrow> tm_state (mgr p') = tm_state (mgr p) \<and>
     worker_max_count (mgr p') = worker_max_count (mgr p) \<and> thread_factory (mgr p') = thread_factory (mgr p)"
proof (induction rule: add_call.induct)
  case (call_queued p e locked cur cur2 notify calls m' ws')
  then show ?case using Add_enter_queuedD [OF call_queued(4)] by auto
next
  case (call_waits p e locked cur cur2 calls m')
  then show ?case using Add_enter_waitsD [OF call_waits(4)] by auto
next
  case (call_throws p e locked cur cur2 x calls m')
  then show ?case using Add_enter_throwsD [OF call_throws(4)] by auto
next
  case (call_resume_queued p cur notify calls m' ws')
  then show ?case using Add_resume_queuedD [OF call_resume_queued(3)] by auto
next
  case (call_resume_waits p cur calls m')
  then show ?case using Add_resume_waitsD [OF call_resume_waits(3)] by auto
qed simp_all

lemma session_inv_add:
  assumes "add_call cfg 0 v timeout ev (s_pool x) p" "s_life x = Working" "session_inv n x"
  shows "session_inv n (x\<lparr>s_pool := p\<rparr>)"
  using add_call_pc [OF assms(1)] add_call_mgr [OF assms(1)] ws_grow_task [OF add_call_step [OF assms(1)]] assms(2,3)
  by (auto simp: session_inv_def)

text \<open>One step of \<^verbatim>\<open>Start\<close>, then one of the destructor.\<close>

lemma start_ok_step:
  assumes "control_step cfg p p'" "length (cs p) = 1" "simple cfg = Some \<lparr>s_worker_count = n, s_pending_task_count_max = k\<rparr>"
    and "start_ok n (cs p ! 0) (mgr p) (length (ws p))" "\<not> mgr_waiting (cs p ! 0)"
  shows "length (cs p') = 1 \<and> (cs p' ! 0 = C_Ret None \<and> life_ok n Working (cs p' ! 0) (mgr p') (length (ws p')) \<or>
     start_ok n (cs p' ! 0) (mgr p') (length (ws p')))"
  using assms
proof (induction rule: control_step.induct)
  case (simple_start_ok i s sm notify m' ws')
  then show ?case by (auto simp: Start_def split: if_splits)
next
  case (simple_start_throws i s x)
  then show ?case by (auto simp: Start_def split: if_splits)
qed auto

lemma stop_ok_step:
  assumes "control_step cfg p p'" "length (cs p) = 1" "stop_ok (cs p ! 0) (mgr p)" "\<not> mgr_waiting (cs p ! 0)"
    and "phase (ws p) (worker_max_count (mgr p)) (cs p ! 0)"
  shows "length (cs p') = 1 \<and> length (ws p') = length (ws p) \<and>
     (cs p' ! 0 = C_Ret None \<and> tm_state (mgr p') = STOPPED \<and> worker_max_count (mgr p') = 0 \<or> stop_ok (cs p' ! 0) (mgr p'))"
  using assms
proof (induction rule: control_step.induct)
  case (remove_worker_request i s k v n m' ws')
  then show ?case using RemoveWorker_requestD [OF remove_worker_request(3)]
    by (cases k) (auto dest: notify_workers_length)
next
  case (remove_worker_throws i s k v x)
  then show ?case by (auto simp: RemoveWorker_request_def Let_def split: if_splits)
next
  case (remove_worker_wait i s k)
  then show ?case by (cases k) auto
next
  case (remove_worker_clean i s k)
  then show ?case by (cases k) auto
next
  case (stop_claim i s join do_stop m')
  then show ?case by (auto simp: StopImpl_claim_def split: if_splits)
next
  case (stop_finish i s d)
  then show ?case by (cases d) auto
qed auto

lemma session_inv_call:
  assumes "control_call cfg f x y" "session_inv n x" "phase (ws (s_pool x)) (worker_max_count (mgr (s_pool x))) (cs (s_pool x) ! 0)"
    and "simple cfg = Some \<lparr>s_worker_count = n, s_pending_task_count_max = k\<rparr>"
  shows "session_inv n y"
  using assms
proof (induction rule: control_call.induct)
  case (call_continue x p)
  have len: "length (cs (s_pool x)) = 1" using call_continue(4) by (simp add: session_inv_def)
  from call_continue(1) show ?case
  proof (elim insertE emptyE)
    assume l: "s_life x = Starting_up"
    with call_continue(4) have "start_ok n (cs (s_pool x) ! 0) (mgr (s_pool x)) (length (ws (s_pool x)))"
      by (simp add: session_inv_def)
    from start_ok_step [OF call_continue(2) len call_continue(6) this call_continue(3)] l show ?thesis
      by (cases "(Starting_up, cs p ! 0)" rule: after_call.cases) (auto simp: session_inv_def)
  next
    assume l: "s_life x = Stopping_down"
    with call_continue(4) have "stop_ok (cs (s_pool x) ! 0) (mgr (s_pool x))" "length (ws (s_pool x)) = unat n"
      by (simp_all add: session_inv_def)
    from stop_ok_step [OF call_continue(2) len this(1) call_continue(3,5)] this(2) l show ?thesis
      by (cases "(Starting_up, cs p ! 0)" rule: after_call.cases) (auto simp: session_inv_def)
  qed
qed (auto simp: session_inv_def SetThreadFactory_def SetPendingTaskCountMax_def)

text \<open>The pool of a session is a managed one.\<close>

lemma start_ok_ws: "start_ok n p m len \<Longrightarrow> len \<le> unat n"
  by (cases p) auto

lemma session_ws: "session_inv n x \<Longrightarrow> length (ws (s_pool x)) \<le> unat n \<and> length (ws (s_pool x)) < 2 ^ 64"
proof -
  assume "session_inv n x"
  then have "length (ws (s_pool x)) \<le> unat n" by (cases "s_life x") (auto simp: session_inv_def dest: start_ok_ws)
  moreover have "unat n < 2 ^ 64" using unsigned_less [of n] by simp
  ultimately show ?thesis by simp
qed

lemma session_managed:
  assumes "reach (session_cfg n k ids me) (s_pool x)" "session_inv n x"
  shows "counter_inv (s_pool x)" "orderly 0 (ws (s_pool x)) (worker_max_count (mgr (s_pool x))) (cs (s_pool x))"
    "wake_ok 0 (ws (s_pool x)) (mgr (s_pool x)) (cs (s_pool x))"
    "phase (ws (s_pool x)) (worker_max_count (mgr (s_pool x))) (cs (s_pool x) ! 0)"
proof -
  from managed_state [OF assms(1)] session_ws [OF assms(2)]
  show inv: "counter_inv (s_pool x)" "orderly 0 (ws (s_pool x)) (worker_max_count (mgr (s_pool x))) (cs (s_pool x))"
    "wake_ok 0 (ws (s_pool x)) (mgr (s_pool x)) (cs (s_pool x))" by simp_all
  with assms(2) show "phase (ws (s_pool x)) (worker_max_count (mgr (s_pool x))) (cs (s_pool x) ! 0)"
    by (simp add: orderly_def session_inv_def pc_of_def)
qed

lemma session_move_inv:
  "session_move (session_cfg n k ids me) f d x y \<Longrightarrow> reach (session_cfg n k ids me) (s_pool x) \<Longrightarrow>
     session_inv n x \<Longrightarrow> session_inv n y"
proof (induction rule: session_move.induct)
  case (move_call x y)
  then show ?case using session_inv_call session_managed(4) session_cfg_simps(1) by metis
next
  case (move_wakes x p)
  then show ?case using life_ok_wake by (auto simp: session_inv_def)
next
  case (move_worker x p)
  then show ?case using session_inv_worker [of "s_pool x" p n "s_life x"] by (cases x) simp
next
  case (move_add x v timeout ev p)
  then show ?case by (blast intro: session_inv_add)
next
  case (move_returns w t x p)
  then show ?case using session_inv_worker [of "s_pool x" p n "s_life x"] task_ends_worker by (cases x) simp
qed

definition session_sound :: "size_t \<Rightarrow> size_t \<Rightarrow> (thread_ref \<Rightarrow> pthread_t) \<Rightarrow> pthread_t \<Rightarrow> session \<Rightarrow> bool" where
  "session_sound n k ids me x \<longleftrightarrow> reach (session_cfg n k ids me) (s_pool x) \<and> session_inv n x"

lemma session_sound_start:
  assumes "session_start x"
  shows "session_sound n k ids me x"
proof -
  have "pool_start (s_pool x)" using assms unfolding session_start_def pool_start_def by (metis session.select_convs(1))
  then have "reach (session_cfg n k ids me) (s_pool x)" by (rule reachable_init)
  moreover have "session_inv n x"
    using assms by (simp add: session_start_def session_inv_def pool_init_def NewThreadManager_def Impl_new_def)
  ultimately show ?thesis by (simp add: session_sound_def)
qed

lemma session_sound_step:
  assumes "session_sound n k ids me x" "session_step (session_cfg n k ids me) f x y"
  shows "session_sound n k ids me y"
proof -
  obtain d where d: "session_move (session_cfg n k ids me) f d x y" using assms(2) by blast
  have x: "reach (session_cfg n k ids me) (s_pool x)" "session_inv n x" "length (cs (s_pool x)) = 1"
    using assms(1) by (auto simp: session_sound_def session_inv_def)
  then have "reach (session_cfg n k ids me) (s_pool y)"
    using session_move_pool [OF d] reachable_step by (metis session_cfg_simps(8))
  with session_move_inv [OF d x(1,2)] show ?thesis by (simp add: session_sound_def)
qed

interpretation sessions: inductive_invariant session_start "session_step (session_cfg n k ids me) f" "session_sound n k ids me"
  by unfold_locales (erule session_sound_start, erule (1) session_sound_step)

subsection \<open>Start and the destructor come to an end\<close>

fun ctl_rank :: "nat \<Rightarrow> session_life \<Rightarrow> cpc \<Rightarrow> nat" where
  "ctl_rank n Fresh p = 2 * n + 14"
| "ctl_rank n Configured p = 2 * n + 13"
| "ctl_rank n Starting_up C_SimpleStart = 2 * n + 12"
| "ctl_rank n Starting_up (C_AW_Begin v) = 2 * n + 11"
| "ctl_rank n Starting_up (C_AW_Publish v ths) = 2 * n + 10"
| "ctl_rank n Starting_up (C_AW_Start ths) = 2 * length ths + 9"
| "ctl_rank n Starting_up (C_AW_Insert w ths) = 2 * length ths + 10"
| "ctl_rank n Starting_up p = 8"
| "ctl_rank n Working p = 7"
| "ctl_rank n Stopping_down (C_Stop_Claim join) = 6"
| "ctl_rank n Stopping_down (C_Stop_Remove join) = 5"
| "ctl_rank n Stopping_down (C_RW_Request c v) = 4"
| "ctl_rank n Stopping_down (C_Stop_Finish d) = 2"
| "ctl_rank n Stopping_down p = 3"
| "ctl_rank n l p = 0"

fun at_check :: "cpc \<Rightarrow> bool" where
  "at_check C_AW_Check = True"
| "at_check (C_RW_Check c) = True"
| "at_check p = False"

abbreviation session_rank :: "size_t \<Rightarrow> session \<Rightarrow> nat" where
  "session_rank n x \<equiv> ctl_rank (unat n) (s_life x) (cs (s_pool x) ! 0)"

lemma start_ok_rank:
  assumes "control_step cfg p p'" "length (cs p) = 1"
    and "start_ok n (cs p ! 0) (mgr p) (length (ws p))" "\<not> mgr_waiting (cs p ! 0)"
  shows "ctl_rank (unat n) (after_call Starting_up (cs p' ! 0)) (cs p' ! 0) < ctl_rank (unat n) Starting_up (cs p ! 0) \<or>
     ctl_rank (unat n) (after_call Starting_up (cs p' ! 0)) (cs p' ! 0) = ctl_rank (unat n) Starting_up (cs p ! 0) \<and>
     ws p' = ws p \<and> mgr p' = mgr p \<and> at_check (cs p ! 0) \<and> \<not> at_check (cs p' ! 0)"
  using assms by (induction rule: control_step.induct) auto

lemma stop_ok_rank:
  assumes "control_step cfg p p'" "length (cs p) = 1" "stop_ok (cs p ! 0) (mgr p)" "\<not> mgr_waiting (cs p ! 0)"
  shows "ctl_rank n (after_call Stopping_down (cs p' ! 0)) (cs p' ! 0) < ctl_rank n Stopping_down (cs p ! 0) \<or>
     ctl_rank n (after_call Stopping_down (cs p' ! 0)) (cs p' ! 0) = ctl_rank n Stopping_down (cs p ! 0) \<and>
     ws p' = ws p \<and> mgr p' = mgr p \<and> at_check (cs p ! 0) \<and> \<not> at_check (cs p' ! 0)"
  using assms
proof (induction rule: control_step.induct)
  case (remove_worker_clean i s k)
  then show ?case by (cases k) auto
qed auto

lemma control_call_rank:
  "control_call cfg f x y \<Longrightarrow> session_inv n x \<Longrightarrow>
     session_rank n y < session_rank n x \<or>
     session_rank n y = session_rank n x \<and> ws (s_pool y) = ws (s_pool x) \<and> mgr (s_pool y) = mgr (s_pool x) \<and>
       at_check (cs (s_pool x) ! 0) \<and> \<not> at_check (cs (s_pool y) ! 0)"
proof (induction rule: control_call.induct)
  case (call_continue x p)
  then show ?case using start_ok_rank [of cfg "s_pool x" p n] stop_ok_rank [of cfg "s_pool x" p "unat n"]
    by (auto simp: session_inv_def)
qed (auto simp: session_inv_def)

lemma wake_rank:
  "mgr_waiting p \<Longrightarrow> ctl_rank n l (wake_mgr p) = ctl_rank n l p"
  "add_waiting p \<Longrightarrow> ctl_rank n l (wake_add p) = ctl_rank n l p"
  by (cases l; cases p; simp)+

lemma worker_rank:
  assumes "worker_step (s_pool x) p" "length (cs (s_pool x)) = 1"
  shows "session_rank n (x\<lparr>s_pool := p\<rparr>) = session_rank n x"
  using worker_pcs [OF assms(1)] assms(2) wake_rank by auto

text \<open>While the thread is in \<^verbatim>\<open>Start\<close> or in the destructor, either it can go on or a worker can.\<close>

lemma start_continues:
  assumes "start_ok n (cs p ! 0) (mgr p) len" "0 < length (cs p)" "\<not> mgr_waiting (cs p ! 0)" "simple cfg \<noteq> None"
  shows "\<exists>p'. control_step cfg p p'"
  using assms(1,3)
proof (cases "cs p ! 0")
  case C_SimpleStart
  with assms(1) have "Start (mgr p) = Inr (True, (mgr p)\<lparr>tm_state := STARTED\<rparr>)" by (simp add: Start_def)
  with simple_start_ok [OF assms(2) C_SimpleStart] assms(4) show ?thesis by blast
next
  case (C_AW_Begin v)
  with assms(1) have "thread_factory (mgr p) \<noteq> None \<or> v = 0" by simp
  from add_worker_create [OF assms(2) C_AW_Begin this] show ?thesis by blast
next
  case (C_AW_Publish v ths)
  from add_worker_publish [OF assms(2) this] show ?thesis by blast
next
  case (C_AW_Start ths)
  then show ?thesis
    using add_worker_start [OF assms(2)] add_worker_started [OF assms(2)] by (cases ths) blast+
next
  case (C_AW_Insert w ths)
  from add_worker_insert [OF assms(2) this] show ?thesis by blast
next
  case C_AW_Check
  from add_worker_wait [OF assms(2) this] add_worker_return [OF assms(2) this] show ?thesis by blast
qed simp_all

lemma stop_continues:
  assumes "stop_ok (cs p ! 0) (mgr p)" "0 < length (cs p)" "\<not> mgr_waiting (cs p ! 0)"
    and "phase ps (worker_max_count (mgr p)) (cs p ! 0)"
  shows "\<exists>p'. control_step cfg p p'"
  using assms(1,3)
proof (cases "cs p ! 0")
  case (C_Stop_Claim j)
  obtain d m' where "StopImpl_claim j (mgr p) = (d, m')" by (metis surj_pair)
  from stop_claim [OF assms(2) C_Stop_Claim this] show ?thesis by blast
next
  case (C_Stop_Remove j)
  from stop_remove [OF assms(2) this] show ?thesis by blast
next
  case (C_RW_Request c v)
  with assms(4) have "v = worker_max_count (mgr p)" by simp
  then obtain nt m' where r: "RemoveWorker_request v (mgr p) = Inr (nt, m')"
    by (simp add: RemoveWorker_request_def Let_def)
  obtain ws' where "notify_workers nt (ws p) ws'"
    using notify_possible [of "\<lambda>p. p = W_Wait" wake_worker True] by (cases nt) auto
  from remove_worker_request [OF assms(2) C_RW_Request r this] show ?thesis by blast
next
  case (C_RW_Check c)
  from remove_worker_wait [OF assms(2) this] remove_worker_clean [OF assms(2) this] show ?thesis by blast
next
  case (C_Stop_Finish d)
  from stop_finish [OF assms(2) this] show ?thesis by blast
qed simp_all

lemma continue_exists:
  assumes "session_sound n k ids me x" "s_life x \<in> {Starting_up, Stopping_down}" "\<not> mgr_waiting (cs (s_pool x) ! 0)"
  shows "\<exists>p. control_step (session_cfg n k ids me) (s_pool x) p"
proof -
  have ok: "0 < length (cs (s_pool x))"
    "life_ok n (s_life x) (cs (s_pool x) ! 0) (mgr (s_pool x)) (length (ws (s_pool x)))"
    and ph: "phase (ws (s_pool x)) (worker_max_count (mgr (s_pool x))) (cs (s_pool x) ! 0)"
    using assms(1) session_managed(4) by (auto simp: session_sound_def session_inv_def)
  from assms(2) show ?thesis
    using start_continues [OF _ ok(1) assms(3), of n] stop_continues [OF _ ok(1) assms(3) ph] ok(2) by auto
qed

lemma session_progress:
  assumes "session_sound n k ids me x" "s_life x \<notin> {Working, Ended}" "\<nexists>p. work (s_pool x) p"
  shows "\<exists>y. control_call (session_cfg n k ids me) f x y"
proof -
  let ?cfg = "session_cfg n k ids me"
  have ok: "life_ok n (s_life x) (cs (s_pool x) ! 0) (mgr (s_pool x)) (length (ws (s_pool x)))" "length (cs (s_pool x)) = 1"
    and reach: "reach ?cfg (s_pool x)" and ws: "length (ws (s_pool x)) < 2 ^ 64"
    using assms(1) session_ws by (auto simp: session_sound_def session_inv_def)
  show ?thesis
  proof (cases "s_life x \<in> {Starting_up, Stopping_down}")
    case True
    have "at_rest 0 (s_pool x)" using quiescent [OF reach _ ws _ assms(3), of 0] by simp
    then have "\<not> mgr_waiting (cs (s_pool x) ! 0)" using ok(2) by (simp add: at_rest_def pc_of_def)
    with continue_exists [OF assms(1) True] call_continue [OF True] show ?thesis by blast
  next
    case False
    with assms(2) ok consider "s_life x = Fresh" "cs (s_pool x) ! 0 = C_Ret None" |
        "s_life x = Configured" "cs (s_pool x) ! 0 = C_Ret None"
      by (cases "s_life x") auto
    then show ?thesis
      using call_factory [of x "s_pool x" None ?cfg f] call_start [of x "s_pool x" None ?cfg] by cases auto
  qed
qed

subsection \<open>Before and after\<close>

text \<open>Between \<^verbatim>\<open>Start\<close> and the destructor every worker is in its loop, afterwards every worker has returned.\<close>

lemma working_workers:
  assumes "session_sound n k ids me x" "s_life x = Working"
  shows "number Inside (ws (s_pool x)) = unat n" "length (ws (s_pool x)) = unat n" "tm_state (mgr (s_pool x)) = STARTED"
    "WorkerCount (mgr (s_pool x)) = n"
proof -
  have inv: "reach (session_cfg n k ids me) (s_pool x)" "session_inv n x" using assms(1) by (simp_all add: session_sound_def)
  show ws: "length (ws (s_pool x)) = unat n" "tm_state (mgr (s_pool x)) = STARTED"
    using inv(2) assms(2) by (simp_all add: session_inv_def)
  have max: "worker_max_count (mgr (s_pool x)) = n" "client (cs (s_pool x) ! 0)"
    using inv(2) assms(2) by (simp_all add: session_inv_def)
  then have st: "steady (ws (s_pool x)) n" using session_managed(4) [OF inv] phase_client by metis
  then show "number Inside (ws (s_pool x)) = unat n" by (simp add: steady_def)
  moreover have "number Stray (ws (s_pool x)) = 0" using session_managed(2) [OF inv] by (simp add: orderly_def)
  ultimately have "unat (worker_count (mgr (s_pool x))) = unat n"
    using worker_count_number [OF session_managed(1) [OF inv]] session_ws [OF inv(2)] st by (simp add: steady_def)
  then show "WorkerCount (mgr (s_pool x)) = n" by (simp add: WorkerCount_def word_unat_eq_iff)
qed

lemma cnt_all_iff: "cnt P xs = length xs \<longleftrightarrow> (\<forall>x \<in> set xs. P x)"
  unfolding cnt_def by (metis filter_True length_filter_less less_irrefl)

lemma all_inside: "number Inside ps = length ps \<Longrightarrow> w < length ps \<Longrightarrow> stage_of (ps ! w) = Inside"
  by (simp add: cnt_all_iff)

lemma steady_zero:
  assumes "steady ps 0" "number Stray ps = 0" "p \<in> set ps"
  shows "p = W_Done True"
proof -
  have "stage_of p \<noteq> New" "stage_of p \<noteq> Starting" "stage_of p \<noteq> Inside" "stage_of p \<noteq> Leaving" "stage_of p \<noteq> Stray"
    using assms by (simp_all add: steady_def cnt_zero_iff)
  then show ?thesis by (cases p) (simp_all split: if_splits)
qed

lemma ended_workers:
  assumes "session_sound n k ids me x" "s_life x = Ended"
  shows "\<forall>p \<in> set (ws (s_pool x)). p = W_Done True"
proof -
  have inv: "reach (session_cfg n k ids me) (s_pool x)" "session_inv n x" using assms(1) by (simp_all add: session_sound_def)
  have "steady (ws (s_pool x)) 0" using session_managed(4) [OF inv] inv(2) assms(2) by (auto simp: session_inv_def)
  moreover have "number Stray (ws (s_pool x)) = 0" using session_managed(2) [OF inv] by (simp add: orderly_def)
  ultimately show ?thesis using steady_zero by blast
qed

lemma sound_not_failed: "session_sound n k ids me x \<Longrightarrow> s_life x \<noteq> Failed e"
  by (auto simp: session_sound_def session_inv_def)

lemma sound_one_client: "session_sound n k ids me x \<Longrightarrow> length (cs (s_pool x)) = 1"
  by (simp add: session_sound_def session_inv_def)

text \<open>A call of \<open>Add\<close> without a timeout on a queue with room neither throws nor waits, and can be made.\<close>

definition has_room :: "Impl \<Rightarrow> bool" where
  "has_room m \<longleftrightarrow> tm_state m = STARTED \<and> (\<forall>cur. \<not> queue_full (expire cur m))"

lemma room_add_returns:
  assumes "has_room (mgr p)" "cs p ! 0 = C_Ret e" "add_call cfg 0 v 0 ev p p'"
  shows "ev = Add_done"
  using assms(3,1,2)
proof (induction rule: add_call.induct)
  case (call_waits p e locked cur cur2 calls m')
  then show ?case using Add_enter_waitsD [OF call_waits(4)] by (auto simp: has_room_def)
next
  case (call_throws p e locked cur cur2 y calls m')
  then show ?case using Add_enter_throwsD [OF call_throws(4)] by (auto simp: has_room_def)
next
  case (call_wakes p)
  then show ?case by (auto elim: add_waiting.elims)
qed auto

lemma room_add_possible:
  assumes "has_room (mgr p)" "cs p ! 0 = C_Ret e" "0 < length (cs p)"
  shows "\<exists>p'. add_call cfg 0 v 0 Add_done p p'"
proof -
  have enter: "Add_enter True (cid cfg 0) 0 0 v 0 0 (mgr p) = Add_push 0 v 0 (fst (RemoveExpiredTasks 0 (mgr p))) (expire 0 (mgr p))"
    using assms(1) by (simp add: has_room_def Add_enter_def RemoveExpiredTasks_split)
  obtain notify calls m' where "Add_push 0 v 0 (fst (RemoveExpiredTasks 0 (mgr p))) (expire 0 (mgr p)) = Add_queued notify calls m'"
    by (simp add: Add_push_def Task_new_def)
  moreover obtain ws' where "if notify then signal_workers 1 (ws p) ws' else ws' = ws p"
    using notify_possible [of "\<lambda>p. p = W_Wait" wake_worker notify] by auto
  ultimately show ?thesis
    using call_queued [OF assms(3,2), of True 0 cfg 0 0 v notify calls m' ws'] enter by auto
qed

text \<open>An unbounded queue has room, and so has a bounded one while fewer tasks were added than the bound.\<close>

lemma unbounded_add:
  assumes "session_sound n 0 ids me x" "s_life x = Working"
  shows "has_room (mgr (s_pool x))" "\<exists>e. cs (s_pool x) ! 0 = C_Ret e"
proof -
  let ?cfg = "session_cfg n 0 ids me"
  have reach: "reach ?cfg (s_pool x)" and inv: "session_inv n x" using assms(1) by (simp_all add: session_sound_def)
  then have "\<not> queue_full (expire cur (mgr (s_pool x)))" for cur
    using unbounded_never_full [OF cap.always [OF reach]] session_cfg_simps(2) by blast
  then show "has_room (mgr (s_pool x))" using working_workers [OF assms] by (simp add: has_room_def)
  have "join_inv ?cfg 0 (s_pool x)" using joins.both.always [OF reach] by blast
  then have "no_add (cs (s_pool x))" using session_ws [OF inv] by (simp add: join_inv_def join_ok_def)
  then have "\<not> in_add (cs (s_pool x) ! 0)" using inv by (simp add: no_add_def list_all_length session_inv_def)
  then show "\<exists>e. cs (s_pool x) ! 0 = C_Ret e"
    using inv assms(2) by (cases "cs (s_pool x) ! 0") (auto simp: session_inv_def)
qed

lemma few_added_room:
  assumes "session_sound n k ids me x" "s_life x = Working" "length (h_added (s_pool x)) < unat k"
  shows "has_room (mgr (s_pool x))"
proof -
  let ?m = "mgr (s_pool x)"
  have reach: "reach (session_cfg n k ids me) (s_pool x)" using assms(1) by (simp add: session_sound_def)
  have started: "tm_state ?m = STARTED" using working_workers [OF assms(1,2)] by simp
  then have max: "pending_task_count_max ?m = k" using cap.always [OF reach] by (auto simp: capacity_inv_def quiet_def)
  have "length (tasks ?m) \<le> length (h_added (s_pool x))" using fifo.always [OF reach] by (simp add: fifo_inv_def)
  then have "length (dropWhile (is_expired cur) (tasks ?m)) < unat k" for cur
    using assms(3) length_dropWhile_le [of "is_expired cur" "tasks ?m"] by linarith
  then have "\<not> k \<le> of_nat (length (dropWhile (is_expired cur) (tasks ?m)))" for cur
    using unsigned_less [of k] by (metis le_unat_uoi not_le word_le_nat_alt less_or_eq_imp_le)
  then show ?thesis using started max by (simp add: has_room_def queue_full_def tasks_size_def)
qed

subsection \<open>Programs with a session\<close>

lemma session_move_account:
  assumes "session_move cfg f d x y" "length (cs (s_pool x)) = 1" "control cfg 0"
    and "started_runs (s_pool x) = r + runs (ws (s_pool x))"
  shows "started_runs (s_pool y) = r + d + runs (ws (s_pool y))"
  using assms
proof (induction rule: session_move.induct)
  case (move_call x y)
  from control_account [OF control_call_pool [OF move_call(1-3)]] move_call(4) show ?case by (simp add: started_runs_def)
next
  case (move_worker x p)
  from worker_account [OF move_worker(1,2)] move_worker(5) show ?case by (simp add: ac_simps)
next
  case (move_add x v timeout ev p)
  from task_account [OF add_call_step [OF move_add(2)]] move_add(5) show ?case by (simp add: started_runs_def)
next
  case (move_returns w t x p)
  from task_ends_runs [OF move_returns(1)] move_returns(4) show ?case by (simp add: started_runs_def flip: add_mset_add_single)
qed (simp_all add: started_runs_def)

lemma control_call_keeps:
  assumes "control_call cfg f x y" "length (cs (s_pool x)) = 1" "control cfg 0"
  shows "h_added (s_pool y) = h_added (s_pool x)" "h_started (s_pool y) = h_started (s_pool x)"
    "runs (ws (s_pool y)) = runs (ws (s_pool x))" "keeps_running (ws (s_pool x)) (ws (s_pool y))"
  using control_account [OF control_call_pool [OF assms]] control_keeps_running [OF control_call_pool [OF assms]] by simp_all

text \<open>The life goes one way.\<close>

lemma control_call_life:
  assumes "control_call cfg f x y" "\<nexists>e. s_life y = Failed e"
  shows "(s_life x = Working \<longrightarrow> s_life y \<in> {Stopping_down, Ended}) \<and>
    (s_life x = Stopping_down \<longrightarrow> s_life y \<in> {Stopping_down, Ended}) \<and> s_life x \<noteq> Ended \<and>
    (s_life x \<notin> {Working, Stopping_down} \<longrightarrow> s_life y \<in> {Configured, Starting_up, Working})"
  using assms
proof (induction rule: control_call.induct)
  case (call_continue x p)
  then show ?case by (cases "(s_life x, cs p ! 0)" rule: after_call.cases) auto
qed auto

lemma subseq_mset: "subseq xs ys \<Longrightarrow> mset xs \<subseteq># mset ys"
  by (induction rule: list_emb.induct) (auto intro: subset_mset.order_trans)

lemma subset_mset_full: "A \<subseteq># B \<Longrightarrow> size B \<le> size A \<Longrightarrow> A = B"
  by (meson leD mset_subset_size subset_mset.le_imp_less_or_eq)

lemma started_subset: "reach cfg p \<Longrightarrow> started_runs p \<subseteq># image_mset task_runnable (mset (h_added p))"
proof -
  assume "reach cfg p"
  then have "fifo_inv p" by (rule fifo.always)
  then have added: "h_added p = h_removed p @ tasks (mgr p)"
    and "mset (h_started p) \<subseteq># mset (map mark_executing (h_removed p))"
    by (auto simp: fifo_inv_def dest: subseq_mset)
  then have "started_runs p \<subseteq># image_mset task_runnable (mset (map mark_executing (h_removed p)))"
    unfolding started_runs_def by (intro image_mset_subseteq_mono)
  also have "\<dots> = image_mset task_runnable (mset (h_removed p))"
    by (simp add: image_mset.compositionality comp_def)
  also have "\<dots> \<subseteq># image_mset task_runnable (mset (h_added p))" using added by simp
  finally show ?thesis .
qed

text \<open>If the tasks are numbered in the order in which they were added, none is started twice.\<close>

lemma started_numbers:
  assumes "reach cfg p" "map task_runnable (h_added p) = [0..<length (h_added p)]"
  shows "started_runs p \<subseteq># mset [0..<length (h_added p)]"
  using started_subset [OF assms(1)] assms(2) by (metis mset_map)

lemma started_once:
  assumes "reach cfg p" "map task_runnable (h_added p) = [0..<length (h_added p)]"
  shows "count (started_runs p) r \<le> 1"
proof -
  have "count (started_runs p) r \<le> count (mset [0..<length (h_added p)]) r"
    using started_numbers [OF assms] by (rule mset_subset_eq_count)
  also have "\<dots> \<le> 1" by (metis distinct_count_atmost_1 distinct_upt le_numeral_extra(4) zero_le_one)
  finally show ?thesis .
qed

locale session_client =
  fixes n k :: size_t and ids :: "thread_ref \<Rightarrow> pthread_t" and me :: pthread_t and f :: SimpleThreadFactory
    and start :: "'x \<Rightarrow> bool" and step :: "'x \<Rightarrow> 'x \<Rightarrow> bool"
    and session_of :: "'x \<Rightarrow> session" and returned :: "'x \<Rightarrow> runnable_ref multiset"
  assumes starts: "start x \<Longrightarrow> session_start (session_of x) \<and> returned x = {#}"
    and moves: "step x y \<Longrightarrow>
      \<exists>d. session_move (session_cfg n k ids me) f d (session_of x) (session_of y) \<and> returned y = returned x + d"
begin

lemma sound: "reachable start step x \<Longrightarrow> session_sound n k ids me (session_of x)"
proof (induction rule: reachable.induct)
  case (reachable_init x)
  then show ?case using starts session_sound_start by blast
next
  case (reachable_step x y)
  then show ?case using moves session_sound_step by blast
qed

lemma accounted: "reachable start step x \<Longrightarrow> started_runs (s_pool (session_of x)) = returned x + runs (ws (s_pool (session_of x)))"
proof (induction rule: reachable.induct)
  case (reachable_init x)
  then show ?case using starts [of x] by (auto simp: started_runs_def session_start_def pool_init_def)
next
  case (reachable_step x y)
  from moves [OF reachable_step(2)] obtain d where
    d: "session_move (session_cfg n k ids me) f d (session_of x) (session_of y)" "returned y = returned x + d" by blast
  have "length (cs (s_pool (session_of x))) = 1"
    using sound [OF reachable_step(1)] by (simp add: session_sound_def session_inv_def)
  from session_move_account [OF d(1) this _ reachable_step(3)] d(2) show ?case by simp
qed

text \<open>Tasks that are numbered in the order in which they are added run once.\<close>

lemma numbered:
  assumes "reachable start step x" "map task_runnable (h_added (s_pool (session_of x))) = [0..<length (h_added (s_pool (session_of x)))]"
  shows "returned x + runs (ws (s_pool (session_of x))) \<subseteq># mset [0..<length (h_added (s_pool (session_of x)))]"
    "count (returned x + runs (ws (s_pool (session_of x)))) r \<le> 1"
proof -
  have "reach (session_cfg n k ids me) (s_pool (session_of x))" using sound [OF assms(1)] by (simp add: session_sound_def)
  from started_numbers [OF this assms(2)] started_once [OF this assms(2), of r] show
    "returned x + runs (ws (s_pool (session_of x))) \<subseteq># mset [0..<length (h_added (s_pool (session_of x)))]"
    "count (returned x + runs (ws (s_pool (session_of x)))) r \<le> 1"
    unfolding accounted [OF assms(1)] .
qed

lemma runs_once:
  assumes "reachable start step x" "map task_runnable (h_added (s_pool (session_of x))) = [0..<length (h_added (s_pool (session_of x)))]"
    and "runs_task w r (s_pool (session_of x))"
  shows "r < length (h_added (s_pool (session_of x)))" "r \<notin># returned x" "runs_task v r (s_pool (session_of x)) \<Longrightarrow> v = w"
proof -
  let ?ps = "ws (s_pool (session_of x))"
  obtain t where t: "w < length ?ps" "?ps ! w = W_Run (Some t)" "task_runnable t = r"
    using assms(3) by (auto simp: runs_task_def)
  have mem: "r \<in># runs ?ps" using runs_member [OF t(1,2)] t(3) by simp
  then have "r \<in># mset [0..<length (h_added (s_pool (session_of x)))]"
    using numbered(1) [OF assms(1,2)] by (meson mset_subset_eqD union_iff)
  then show "r < length (h_added (s_pool (session_of x)))" by simp
  have once: "count (returned x) r + count (runs ?ps) r \<le> 1" using numbered(2) [OF assms(1,2), of r] by simp
  moreover have "1 \<le> count (runs ?ps) r" using mem by (simp add: Suc_le_eq)
  ultimately have "count (returned x) r = 0" by linarith
  then show "r \<notin># returned x" by (simp add: count_eq_zero_iff)
  assume "runs_task v r (s_pool (session_of x))"
  then obtain u where u: "v < length ?ps" "?ps ! v = W_Run (Some u)" "task_runnable u = r"
    by (auto simp: runs_task_def)
  show "v = w"
  proof (rule ccontr)
    assume "v \<noteq> w"
    with runs_twice [OF t(1,2) u(1,2)] t(3) u(3) once show False by simp
  qed
qed

end

end
