(* ===== verification/Test_Measures.thy ===== *)
theory Test_Measures
  imports Prelude Floats
begin

text \<open>
  What the timing tests compute from the clock: the statistics and the verdict of \<^verbatim>\<open>LoadTest\<close>
  (\<^verbatim>\<open>src/threads/thread_manager_unittest.cc\<close>), and the verdict of \<^verbatim>\<open>MonitorTimeoutTest\<close>
  (\<^verbatim>\<open>src/threads/simple_thread_factory_unittest.cc\<close>). \<^verbatim>\<open>double\<close> arithmetic is \<open>fl64\<close> of the exact result; an operation
  on a \<^verbatim>\<open>size_t\<close> and an \<^verbatim>\<open>int64_t\<close> is one on 64-bit words.
\<close>

subsection \<open>LoadTest\<close>

record load_stats =
  first_time :: int64
  last_time :: int64
  min_time :: int64
  max_time :: int64
  average_time :: real

definition load_stats_init :: load_stats where
  "load_stats_init = \<lparr>first_time = INT64_MAX, last_time = 0, min_time = INT64_MAX, max_time = 0, average_time = 0\<rparr>"

definition LoadTest_account :: "int64 \<Rightarrow> int64 \<Rightarrow> int64 \<Rightarrow> load_stats \<Rightarrow> load_stats" where
  "LoadTest_account start_time end_time delta st =
     \<lparr>first_time = min (first_time st) start_time, last_time = max (last_time st) end_time,
      min_time = min (min_time st) delta, max_time = max (max_time st) delta,
      average_time = fl64 (average_time st + fl64 (of_int delta))\<rparr>"

text \<open>The loop over the tasks, each a pair of its start and end time, with its assertion.\<close>

fun LoadTest_loop :: "(int64 \<times> int64) list \<Rightarrow> load_stats \<Rightarrow> load_stats res" where
  "LoadTest_loop [] st = Inr st"
| "LoadTest_loop ((start_time, end_time) # tasks) st =
     bind_res (checked64 (end_time - start_time)) (\<lambda>delta.
       if \<not> delta > 0 then Inl Aborted else LoadTest_loop tasks (LoadTest_account start_time end_time delta st))"

text \<open>\<open>num_tasks\<close> is the number of tasks; a quotient by 0 has no meaning in C++.\<close>

definition LoadTest_statistics :: "(int64 \<times> int64) list \<Rightarrow> load_stats res" where
  "LoadTest_statistics tasks =
     bind_res (LoadTest_loop tasks load_stats_init) (\<lambda>st.
       if tasks = [] then Inl Undefined
       else Inr (st\<lparr>average_time := fl64 (average_time st / fl64 (of_nat (length tasks)))\<rparr>))"

text \<open>Whether the \<^verbatim>\<open>EXPECT_GT\<close> of the loop hold. They do not end it.\<close>

definition LoadTest_expects :: "(int64 \<times> int64) list \<Rightarrow> bool" where
  "LoadTest_expects tasks \<longleftrightarrow> list_all (\<lambda>(start_time, end_time). start_time > 0 \<and> end_time > 0) tasks"

definition LoadTest_ideal :: "size_t \<Rightarrow> int64 \<Rightarrow> size_t \<Rightarrow> size_t" where
  "LoadTest_ideal num_tasks timeout num_workers = ((num_tasks + (num_workers - 1)) div num_workers) * word_of_int timeout"

text \<open>The verdict: \<^verbatim>\<open>EXPECT_LT(overhead_pct, 0.10)\<close>.\<close>

definition LoadTest_passes :: "size_t \<Rightarrow> int64 \<Rightarrow> size_t \<Rightarrow> int64 \<Rightarrow> int64 \<Rightarrow> bool res" where
  "LoadTest_passes num_tasks timeout num_workers start_time end_time =
     (if num_workers = 0 \<or> LoadTest_ideal num_tasks timeout num_workers = 0 then Inl Undefined else
      bind_res (checked64 (end_time - start_time)) (\<lambda>elapsed.
        let ideal_time = fl64 (of_nat (unat (LoadTest_ideal num_tasks timeout num_workers)));
            actual_time = fl64 (of_int elapsed);
            overhead_pct = fl64 (fl64 (actual_time - ideal_time) / ideal_time);
            overhead = (if overhead_pct < 0 then fl64 (overhead_pct * (- 1)) else overhead_pct)
        in Inr (overhead < fl64 (1 / 10))))"

subsection \<open>MonitorTimeoutTest\<close>

definition MonitorTimeoutTest_success :: "size_t \<Rightarrow> int64 \<Rightarrow> int64 \<Rightarrow> int64 \<Rightarrow> bool res" where
  "MonitorTimeoutTest_success count timeout start_time end_time =
     bind_res (checked64 (end_time - start_time)) (\<lambda>elapsed.
       let expected = count * word_of_int timeout in
       if expected = 0 then Inl Undefined
       else let error = fl64 (fl64 (of_nat (unat (word_of_int elapsed - expected))) / fl64 (of_nat (unat expected)));
                error' = (if error < 0 then fl64 (error * 1) else error)
            in Inr (error' < fl64 (1 / 5)))"

subsection \<open>Lemmas\<close>

lemma fl64_nat: "n < 2 ^ 53 \<Longrightarrow> fl64 (of_nat n) = of_nat n"
  using fl_bits_int [of "int n" 53] by simp

lemma fl_bits_nonneg: "0 \<le> x \<Longrightarrow> 0 \<le> fl_bits (Suc p) x"
proof -
  assume x: "0 \<le> x"
  have "x / 2 ^ Suc p \<le> x / 1" using x by (intro divide_left_mono) (use one_le_power [of "2 :: real" "Suc p"] in simp_all)
  with fl_bits_error [of p x] x show ?thesis by (simp add: abs_le_iff)
qed

text \<open>The loop as folds over the list. The sum of the average is rounded after each addition.\<close>

definition average_sum :: "(int64 \<times> int64) list \<Rightarrow> real \<Rightarrow> real" where
  "average_sum = fold (\<lambda>(s, e) a. fl64 (a + fl64 (of_int (e - s))))"

lemma average_sum_simps [simp]:
  "average_sum [] a = a" "average_sum ((s, e) # ts) a = average_sum ts (fl64 (a + fl64 (of_int (e - s))))"
  by (simp_all add: average_sum_def)

lemma LoadTest_loop_eq:
  assumes "\<forall>(s, e) \<in> set ts. 0 \<le> s \<and> s < e \<and> e \<le> INT64_MAX"
  shows "LoadTest_loop ts st =
    Inr \<lparr>first_time = fold min (map fst ts) (first_time st), last_time = fold max (map snd ts) (last_time st),
         min_time = fold min (map (\<lambda>(s, e). e - s) ts) (min_time st),
         max_time = fold max (map (\<lambda>(s, e). e - s) ts) (max_time st),
         average_time = average_sum ts (average_time st)\<rparr>"
  using assms
proof (induction ts arbitrary: st)
  case Nil
  then show ?case by (cases st) simp
next
  case (Cons t ts)
  obtain s e where t: "t = (s, e)" by force
  then have "0 < e - s" "checked64 (e - s) = Inr (e - s)"
    using Cons.prems by (auto simp: checked64_def int64_bounds)
  then have "LoadTest_loop (t # ts) st = LoadTest_loop ts (LoadTest_account s e (e - s) st)" using t by simp
  with Cons.IH [of "LoadTest_account s e (e - s) st"] Cons.prems t
  show ?case by (simp add: LoadTest_account_def min.commute max.commute)
qed

text \<open>No rounding happens while the sum stays below \<open>2 ^ 53\<close>.\<close>

lemma average_sum_exact:
  assumes "\<forall>(s, e) \<in> set ts. s < e" and "0 \<le> a" "a + (\<Sum>(s, e) \<leftarrow> ts. e - s) < 2 ^ 53"
  shows "average_sum ts (of_int a) = of_int (a + (\<Sum>(s, e) \<leftarrow> ts. e - s))"
  using assms
proof (induction ts arbitrary: a)
  case (Cons t ts)
  obtain s e where t: "t = (s, e)" by force
  have "0 \<le> (\<Sum>(s, e) \<leftarrow> ts. e - s)" using Cons.prems(1) by (intro sum_list_nonneg) auto
  then have small: "a + (e - s) < 2 ^ 53" "e - s < 2 ^ 53" "0 < e - s" using Cons.prems t by auto
  have "fl64 (of_int a + fl64 (of_int (e - s))) = of_int (a + (e - s))"
    using fl_bits_int [of "e - s" 53] fl_bits_int [of "a + (e - s)" 53] small Cons.prems(2) by simp
  with Cons.IH [of "a + (e - s)"] Cons.prems small t show ?case by (simp add: add.assoc)
qed simp

lemma LoadTest_loop_aborts:
  assumes "\<forall>(s, e) \<in> set ts. 0 \<le> s \<and> in_int64 s \<and> 0 \<le> e \<and> in_int64 e" and "(s, e) \<in> set ts" "e \<le> s"
  shows "LoadTest_loop ts st = Inl Aborted"
  using assms
proof (induction ts arbitrary: st)
  case (Cons t ts)
  obtain s' e' where t: "t = (s', e')" by force
  then have "checked64 (e' - s') = Inr (e' - s')" using Cons.prems(1) by (auto simp: checked64_def int64_bounds)
  with Cons t show ?case by (cases "s' < e'") auto
qed simp

lemma fold_min_Min: "xs \<noteq> [] \<Longrightarrow> \<forall>x \<in> set xs. x \<le> a \<Longrightarrow> fold min xs a = Min (set xs)"
  using Min.set_eq_fold [of a xs] by (simp add: min_absorb2)

lemma fold_max_Max: "xs \<noteq> [] \<Longrightarrow> \<forall>x \<in> set xs. a \<le> x \<Longrightarrow> fold max xs a = Max (set xs)"
  using Max.set_eq_fold [of a xs] by (simp add: max_absorb2)

lemma word_elapsed:
  fixes e :: size_t
  assumes "0 \<le> elapsed" "elapsed < 2 ^ 51"
  shows "unat (word_of_int elapsed - e) =
    (if unat e \<le> nat elapsed then nat elapsed - unat e else 2 ^ 64 - (unat e - nat elapsed))"
proof -
  have "unat (word_of_int elapsed :: size_t) = nat elapsed"
    using assms by (simp add: unsigned_of_int take_bit_int_eq_self)
  then show ?thesis using unsigned_less [of e, where 'a = nat] by (auto simp: unat_sub_if' word_le_nat_alt)
qed

text \<open>The two verdicts, on exact integers.\<close>

lemma load_verdict:
  fixes d m :: int
  assumes "0 < m" "m < 2 ^ 51"
  defines "q \<equiv> fl64 (of_int d / of_int m)"
  shows "(if q < 0 then fl64 (q * (- 1)) else q) < fl64 (1 / 10) \<longleftrightarrow> 10 * \<bar>d\<bar> < m"
proof (cases "0 \<le> d")
  case True
  then have "0 \<le> q" using assms(1) fl_bits_nonneg [of "of_int d / of_int m" 52] by (simp add: q_def)
  then show ?thesis using fl64_quotient_less [of d m 10] assms(1,2) True by (simp add: q_def)
next
  case False
  then have "0 \<le> of_int (- d) / (of_int m :: real)" using assms(1) by (intro divide_nonneg_pos) simp_all
  then have "0 \<le> fl64 (of_int (- d) / of_int m)" using fl_bits_nonneg [of "of_int (- d) / of_int m" 52] by simp
  moreover have "q = - fl64 (of_int (- d) / of_int m)"
    using fl_bits_minus [of 53 "of_int (- d) / of_int m"] by (simp add: q_def)
  ultimately show ?thesis using fl64_quotient_less [of "- d" m 10] assms(1,2) False by (auto simp: fl_bits_minus)
qed

lemma timeout_verdict:
  assumes "0 < m" "m < 2 ^ 51" "a < 2 ^ 51" "v = (if m \<le> a then a - m else 2 ^ 64 - (m - a))"
  shows "0 \<le> fl64 (fl64 (of_nat v) / of_nat m)"
    "fl64 (fl64 (of_nat v) / of_nat m) < fl64 (1 / 5) \<longleftrightarrow> m \<le> a \<and> 5 * (a - m) < m"
proof -
  show "0 \<le> fl64 (fl64 (of_nat v) / of_nat m)"
    using fl_bits_nonneg [of "fl64 (of_nat v) / of_nat m" 52] fl_bits_nonneg [of "of_nat v" 52] by simp
  show "fl64 (fl64 (of_nat v) / of_nat m) < fl64 (1 / 5) \<longleftrightarrow> m \<le> a \<and> 5 * (a - m) < m"
  proof (cases "m \<le> a")
    case True
    then have "fl64 (of_nat v) = of_nat v" using assms by (intro fl64_nat) auto
    moreover have "5 * int v < int m \<longleftrightarrow> m \<le> a \<and> 5 * (a - m) < m" using assms(4) True by auto
    ultimately show ?thesis using fl64_quotient_less [of "int v" "int m" 5] assms(1,2) by simp
  next
    case False
    then have "2 ^ 63 \<le> (of_nat v :: real)" using assms by (simp add: of_nat_diff)
    then have "2 ^ 60 \<le> fl64 (of_nat v)" using fl64_half_double [of "of_nat v"] by simp
    moreover have "0 < (of_nat m :: real)" "(of_nat m :: real) < 2 ^ 51"
      using assms(1,2) by (simp, metis of_nat_less_iff of_nat_numeral of_nat_power)
    ultimately have "2 \<le> fl64 (of_nat v) / of_nat m" by (simp add: le_divide_eq)
    with fl64_half_double [of "fl64 (of_nat v) / of_nat m"] have "1 \<le> fl64 (fl64 (of_nat v) / of_nat m)" by simp
    moreover have "fl64 (1 / 5) \<le> 2 / 5" using fl64_half_double [of "1 / 5"] by simp
    ultimately show ?thesis using False by simp
  qed
qed

lemma statistics_aborts:
  assumes "\<forall>(s, e) \<in> set ts. 0 \<le> s \<and> s \<le> INT64_MAX \<and> 0 \<le> e \<and> e \<le> INT64_MAX" "\<exists>(s, e) \<in> set ts. e \<le> s"
  shows "LoadTest_statistics ts = Inl Aborted"
proof -
  from assms(2) obtain s e where "(s, e) \<in> set ts" "e \<le> s" by blast
  then have "LoadTest_loop ts load_stats_init = Inl Aborted"
    using assms(1) by (intro LoadTest_loop_aborts) (auto simp: int64_bounds)
  then show ?thesis by (simp add: LoadTest_statistics_def)
qed

lemma statistics_returns:
  assumes "ts \<noteq> []" "\<forall>(s, e) \<in> set ts. 0 \<le> s \<and> s \<le> INT64_MAX \<and> 0 \<le> e \<and> e \<le> INT64_MAX" "\<forall>(s, e) \<in> set ts. s < e"
  shows "LoadTest_statistics ts = Inr
    \<lparr>first_time = Min (fst ` set ts), last_time = Max (snd ` set ts),
     min_time = Min ((\<lambda>(s, e). e - s) ` set ts), max_time = Max ((\<lambda>(s, e). e - s) ` set ts),
     average_time = fl64 (average_sum ts 0 / fl64 (of_nat (length ts)))\<rparr>"
proof -
  have "LoadTest_loop ts load_stats_init = Inr
    \<lparr>first_time = fold min (map fst ts) INT64_MAX, last_time = fold max (map snd ts) 0,
     min_time = fold min (map (\<lambda>(s, e). e - s) ts) INT64_MAX, max_time = fold max (map (\<lambda>(s, e). e - s) ts) 0,
     average_time = average_sum ts 0\<rparr>"
    using assms(2,3) LoadTest_loop_eq [of ts load_stats_init] by (auto simp: load_stats_init_def)
  moreover have "fold min (map fst ts) INT64_MAX = Min (set (map fst ts))"
    using assms by (intro fold_min_Min) auto
  moreover have "fold max (map snd ts) 0 = Max (set (map snd ts))"
    using assms by (intro fold_max_Max) auto
  moreover have "fold min (map (\<lambda>(s, e). e - s) ts) INT64_MAX = Min (set (map (\<lambda>(s, e). e - s) ts))"
    using assms by (intro fold_min_Min) fastforce+
  moreover have "fold max (map (\<lambda>(s, e). e - s) ts) 0 = Max (set (map (\<lambda>(s, e). e - s) ts))"
    using assms(1,3) by (intro fold_max_Max) fastforce+
  ultimately show ?thesis using assms(1) by (simp add: LoadTest_statistics_def)
qed

subsection \<open>Properties\<close>

text \<open>C39. The statistics of \<^verbatim>\<open>LoadTest\<close>. With at least one task and clock readings that are not negative, the assertion fails
  exactly if some task ended no later than it started. Otherwise the four times are the earliest start, the
  latest end, and the shortest and longest duration of a task; and if the durations sum up to less than
  \<open>2 ^ 53\<close> ms, the average is their exact sum divided by the number of tasks, rounded once for the number and once
  for the quotient. The expectations on the readings then hold exactly if the earliest start is positive.\<close>

theorem LoadTest_statistics_correct:
  assumes "ts \<noteq> []" and "\<forall>(s, e) \<in> set ts. 0 \<le> s \<and> s \<le> INT64_MAX \<and> 0 \<le> e \<and> e \<le> INT64_MAX"
  shows "(LoadTest_statistics ts = Inl Aborted \<longleftrightarrow> (\<exists>(s, e) \<in> set ts. e \<le> s)) \<and>
    ((\<forall>(s, e) \<in> set ts. s < e) \<longrightarrow>
       (\<exists>average. LoadTest_statistics ts = Inr
         \<lparr>first_time = Min (fst ` set ts), last_time = Max (snd ` set ts),
          min_time = Min ((\<lambda>(s, e). e - s) ` set ts), max_time = Max ((\<lambda>(s, e). e - s) ` set ts),
          average_time = average\<rparr> \<and>
         ((\<Sum>(s, e) \<leftarrow> ts. e - s) < 2 ^ 53 \<longrightarrow>
            average = fl64 (of_int (\<Sum>(s, e) \<leftarrow> ts. e - s) / fl64 (of_nat (length ts))))) \<and>
       (LoadTest_expects ts \<longleftrightarrow> 0 < Min (fst ` set ts)))"
proof -
  have aborts: "LoadTest_statistics ts = Inl Aborted" if "\<exists>(s, e) \<in> set ts. e \<le> s"
    by (rule statistics_aborts [OF assms(2) that])
  have good: "LoadTest_statistics ts = Inr
      \<lparr>first_time = Min (fst ` set ts), last_time = Max (snd ` set ts),
       min_time = Min ((\<lambda>(s, e). e - s) ` set ts), max_time = Max ((\<lambda>(s, e). e - s) ` set ts),
       average_time = fl64 (average_sum ts 0 / fl64 (of_nat (length ts)))\<rparr>" if "\<forall>(s, e) \<in> set ts. s < e"
    by (rule statistics_returns [OF assms that])
  have exact: "average_sum ts 0 = of_int (\<Sum>(s, e) \<leftarrow> ts. e - s)"
    if "\<forall>(s, e) \<in> set ts. s < e" "(\<Sum>(s, e) \<leftarrow> ts. e - s) < 2 ^ 53"
    using average_sum_exact [OF that(1), of 0] that(2) by simp
  have "LoadTest_expects ts \<longleftrightarrow> 0 < Min (fst ` set ts)" if "\<forall>(s, e) \<in> set ts. s < e"
  proof -
    have "LoadTest_expects ts \<longleftrightarrow> (\<forall>(s, e) \<in> set ts. 0 < s)"
      using that by (fastforce simp: LoadTest_expects_def list_all_iff)
    also have "\<dots> \<longleftrightarrow> 0 < Min (fst ` set ts)" using assms(1) by (auto simp: Min_gr_iff)
    finally show ?thesis .
  qed
  moreover have "(\<forall>(s, e) \<in> set ts. s < e) \<or> (\<exists>(s, e) \<in> set ts. e \<le> s)" by force
  ultimately show ?thesis using aborts good exact by fastforce
qed

theorem LoadTest_statistics_correct_witness:
  "LoadTest_expects [(100, 150), (90, 141)] \<and> (\<exists>a. LoadTest_statistics [(100, 150), (90, 141)] =
     Inr \<lparr>first_time = 90, last_time = 150, min_time = 50, max_time = 51, average_time = a\<rparr>)"
  using LoadTest_statistics_correct [of "[(100, 150), (90, 141)]"] by (simp add: INT64_MAX_def)

text \<open>The verdict of \<^verbatim>\<open>LoadTest\<close>: in spite of the floating-point arithmetic it passes exactly if the
  elapsed time differs from the ideal time by less than a tenth of it, in either direction.\<close>

theorem LoadTest_passes_iff:
  assumes "num_workers \<noteq> 0" and "m = int (unat (LoadTest_ideal num_tasks timeout num_workers))"
    and "0 < m" and "m < 2 ^ 51" and "0 \<le> end_time - start_time" and "end_time - start_time < 2 ^ 51"
  shows "LoadTest_passes num_tasks timeout num_workers start_time end_time =
    Inr (10 * \<bar>(end_time - start_time) - m\<bar> < m)"
proof -
  obtain i where i: "unat (LoadTest_ideal num_tasks timeout num_workers) = i" by blast
  obtain e where e: "end_time - start_time = e" by blast
  have "LoadTest_ideal num_tasks timeout num_workers \<noteq> 0" using assms(2,3) by auto
  moreover have "checked64 e = Inr e" using assms(5,6) by (simp add: e checked64_def int64_bounds)
  moreover have "fl64 (of_nat i) = of_int m" "fl64 (of_int e) = of_int e" "fl64 (of_int e - of_int m) = of_int (e - m)"
    using fl_bits_int [of m 53] fl_bits_int [of e 53] fl_bits_int [of "e - m" 53] assms(2-6) by (simp_all add: i e)
  ultimately show ?thesis
    using load_verdict [OF assms(3,4), of "e - m"] assms(1) unfolding LoadTest_passes_def i e
    by (simp add: Let_def split del: if_split del: of_int_diff cong: if_cong)
qed

theorem LoadTest_passes_iff_witness: "LoadTest_passes 10000 50 100 1000 6400 = Inr True \<and> LoadTest_passes 10000 50 100 1000 6500 = Inr False"
proof -
  have "LoadTest_ideal 10000 50 100 = 5000" by (simp add: LoadTest_ideal_def)
  then show ?thesis
    using LoadTest_passes_iff [of 100 5000 10000 50 6400 1000] LoadTest_passes_iff [of 100 5000 10000 50 6500 1000] by simp
qed

text \<open>The verdict of \<^verbatim>\<open>MonitorTimeoutTest\<close>. The difference of elapsed and expected time is computed without
  sign, so it is never negative: the test passes exactly if the waits took at least the expected time and less than a
  fifth more. If they took one millisecond less than expected, the error is about \<open>2 ^ 64\<close> and the test fails.\<close>

theorem MonitorTimeoutTest_success_iff:
  assumes "m = int (unat (count * word_of_int timeout))" and "0 < m" and "m < 2 ^ 51"
    and "0 \<le> end_time - start_time" and "end_time - start_time < 2 ^ 51"
  shows "MonitorTimeoutTest_success count timeout start_time end_time =
    Inr (m \<le> end_time - start_time \<and> 5 * ((end_time - start_time) - m) < m)"
proof -
  obtain e where e: "end_time - start_time = e" by blast
  obtain x where x: "count * word_of_int timeout = x" by blast
  obtain i where i: "unat x = i" by blast
  obtain v where v: "unat (word_of_int e - x) = v" by blast
  have "v = (if i \<le> nat e then nat e - i else 2 ^ 64 - (i - nat e))"
    using word_elapsed [of e x] assms(4,5) by (simp add: e v i)
  moreover have nat: "0 < i" "i < 2 ^ 51" "nat e < 2 ^ 51" using assms by (simp_all add: e x i)
  ultimately have verdict: "0 \<le> fl64 (fl64 (of_nat v) / of_nat i)"
    "fl64 (fl64 (of_nat v) / of_nat i) < fl64 (1 / 5) \<longleftrightarrow> i \<le> nat e \<and> 5 * (nat e - i) < i"
    using timeout_verdict [of i "nat e" v] by blast+
  have "x \<noteq> 0" using nat(1) i by auto
  moreover have "checked64 e = Inr e" using assms(4,5) by (simp add: e checked64_def int64_bounds)
  moreover have "fl64 (of_nat i) = of_nat i" using nat(2) by (intro fl64_nat) simp
  moreover have "i \<le> nat e \<and> 5 * (nat e - i) < i \<longleftrightarrow> m \<le> e \<and> 5 * (e - m) < m"
    using assms(1,4) by (auto simp: e x i)
  ultimately show ?thesis
    using verdict by (simp add: MonitorTimeoutTest_success_def e x v i del: of_nat_unat)
qed

theorem MonitorTimeoutTest_success_iff_witness:
  "MonitorTimeoutTest_success 1000 10 500 10499 = Inr False \<and> MonitorTimeoutTest_success 1000 10 500 11000 = Inr True"
  using MonitorTimeoutTest_success_iff [of 10000 1000 10 10499 500] MonitorTimeoutTest_success_iff [of 10000 1000 10 11000 500]
  by simp

end
