(* ===== verification/Load_Test.thy ===== *)
theory Load_Test
  imports Pool_Session Test_Measures
begin

text \<open>
  \<^verbatim>\<open>LoadTest\<close> (\<^verbatim>\<open>src/threads/thread_manager_unittest.cc\<close>) on the thread pool: the main thread starts a pool without a
  bound, adds the tasks, waits on a monitor until the last one has counted down, evaluates the times, and destroys
  the pool. A worker that runs a \<^verbatim>\<open>LoadTask\<close> reads the clock, sleeps, reads it again, and counts down under
  the monitor. Nothing is assumed of the clock, which can be set back, nor of the length of the sleep: a reading
  is any \<^verbatim>\<open>int64_t\<close> that is not negative. A failing assertion ends the process, so no thread goes on after it.

  A step is one section under the monitor, one step of the pool, or one step of a task outside of locks. The position
  of a task is a control point of the worker that runs it. Task \<open>r\<close> is the \<open>r\<close>-th in the order of the
  \<^verbatim>\<open>std::set\<close>. \<open>lt_returned\<close> is history: the tasks that returned.
\<close>

subsection \<open>The test\<close>

datatype load_main =
    L_Add nat        \<comment> \<open>setting up, or about to add this task\<close>
  | L_Test           \<comment> \<open>at \<^verbatim>\<open>while (tasks_left > 0)\<close>\<close>
  | L_Waiting        \<comment> \<open>in \<^verbatim>\<open>monitor.Wait()\<close>\<close>
  | L_Measure
  | L_Return         \<comment> \<open>in the destructor of the manager\<close>
  | L_Aborted
  | L_Threw exn

datatype load_pc = P_Begin | P_Sleeping | P_Section

record load_test =
  lt_session :: session
  tasks_left :: size_t
  lt_main :: load_main
  lt_pc :: "nat \<Rightarrow> load_pc"
  start_time :: "runnable_ref \<Rightarrow> int64"
  end_time :: "runnable_ref \<Rightarrow> int64"
  lt_returned :: "runnable_ref multiset"

record load_cfg =
  num_tasks :: size_t
  num_workers :: size_t
  thread_ids :: "thread_ref \<Rightarrow> pthread_t"
  main_id :: pthread_t

abbreviation load_pool :: "load_cfg \<Rightarrow> pool_cfg" where
  "load_pool c \<equiv> session_cfg (num_workers c) 0 (thread_ids c) (main_id c)"

definition load_factory :: SimpleThreadFactory where
  "load_factory = SetPriority HIGHEST SimpleThreadFactory_default"

definition next_add :: "load_cfg \<Rightarrow> nat \<Rightarrow> load_main" where
  "next_add c j = (if j < unat (num_tasks c) then L_Add j else L_Test)"

definition load_start :: "load_cfg \<Rightarrow> load_test \<Rightarrow> bool" where
  "load_start c x \<longleftrightarrow> session_start (lt_session x) \<and> tasks_left x = num_tasks c \<and> lt_main x = next_add c 0 \<and>
     lt_pc x = (\<lambda>_. P_Begin) \<and> start_time x = (\<lambda>_. 0) \<and> end_time x = (\<lambda>_. 0) \<and> lt_returned x = {#}"

fun wake_load :: "load_main \<Rightarrow> load_main" where
  "wake_load L_Waiting = L_Test"
| "wake_load p = p"

text \<open>\<^verbatim>\<open>LoadTask::Run\<close>, by worker \<open>w\<close> on task \<open>r\<close>: before the sleep, after it, and the section.\<close>

definition LoadTask_begin :: "nat \<Rightarrow> runnable_ref \<Rightarrow> int64 \<Rightarrow> load_test \<Rightarrow> load_test" where
  "LoadTask_begin w r cur x = x\<lparr>start_time := (start_time x)(r := cur), lt_pc := (lt_pc x)(w := P_Sleeping)\<rparr>"

definition LoadTask_woken :: "nat \<Rightarrow> runnable_ref \<Rightarrow> int64 \<Rightarrow> load_test \<Rightarrow> load_test" where
  "LoadTask_woken w r cur x = x\<lparr>end_time := (end_time x)(r := cur), lt_pc := (lt_pc x)(w := P_Section)\<rparr>"

definition LoadTask_section :: "load_test \<Rightarrow> load_test" where
  "LoadTask_section x =
     (let left = tasks_left x - 1
      in x\<lparr>tasks_left := left, lt_main := if left = 0 then wake_load (lt_main x) else lt_main x\<rparr>)"

text \<open>The main thread: the loop around the wait, and the evaluation with its assertion.\<close>

definition LoadTest_wait :: "load_test \<Rightarrow> load_test" where
  "LoadTest_wait x = x\<lparr>lt_main := if tasks_left x > 0 then L_Waiting else L_Measure\<rparr>"

definition LoadTest_measure :: "load_cfg \<Rightarrow> load_test \<Rightarrow> load_test" where
  "LoadTest_measure c x = x\<lparr>lt_main :=
     (case LoadTest_statistics (map (\<lambda>r. (start_time x r, end_time x r)) [0..<unat (num_tasks c)]) of
        Inl _ \<Rightarrow> L_Aborted | Inr _ \<Rightarrow> L_Return)\<rparr>"

definition LoadTest_added :: "load_cfg \<Rightarrow> nat \<Rightarrow> add_event \<Rightarrow> load_main" where
  "LoadTest_added c j ev = (case ev of Add_pending \<Rightarrow> L_Add j | Add_done \<Rightarrow> next_add c (Suc j) | Add_threw e \<Rightarrow> L_Threw e)"

text \<open>A reading of the clock, in milliseconds.\<close>

definition clock :: "int64 \<Rightarrow> bool" where
  "clock cur \<longleftrightarrow> 0 \<le> cur \<and> cur \<le> INT64_MAX"

abbreviation load_runs :: "nat \<Rightarrow> runnable_ref \<Rightarrow> load_test \<Rightarrow> bool" where
  "load_runs w r x \<equiv> runs_task w r (s_pool (lt_session x))"

text \<open>All steps but unnotified wake-ups, then those.\<close>

inductive load_step :: "load_cfg \<Rightarrow> load_test \<Rightarrow> load_test \<Rightarrow> bool" for c where
  load_call:
    "\<lbrakk>control_call (load_pool c) load_factory (lt_session x) s; s_life (lt_session x) = Working \<longrightarrow> lt_main x = L_Return\<rbrakk> \<Longrightarrow>
     load_step c x (x\<lparr>lt_session := s\<rparr>)"
| load_add:
    "\<lbrakk>lt_main x = L_Add j; s_life (lt_session x) = Working; lt_session x = s;
      add_call (load_pool c) 0 j 0 ev (s_pool s) p; \<not> add_waiting (cs (s_pool s) ! 0)\<rbrakk> \<Longrightarrow>
     load_step c x (x\<lparr>lt_session := s\<lparr>s_pool := p\<rparr>, lt_main := LoadTest_added c j ev\<rparr>)"
| load_test: "lt_main x = L_Test \<Longrightarrow> s_life (lt_session x) = Working \<Longrightarrow> load_step c x (LoadTest_wait x)"
| load_measure: "lt_main x = L_Measure \<Longrightarrow> load_step c x (LoadTest_measure c x)"
| load_worker:
    "\<lbrakk>lt_main x \<noteq> L_Aborted; lt_session x = s; work (s_pool s) p; \<not> job_ends (s_pool s) p\<rbrakk> \<Longrightarrow> load_step c x (x\<lparr>lt_session := s\<lparr>s_pool := p\<rparr>\<rparr>)"
| load_begin:
    "\<lbrakk>lt_main x \<noteq> L_Aborted; load_runs w r x; lt_pc x w = P_Begin; clock cur\<rbrakk> \<Longrightarrow> load_step c x (LoadTask_begin w r cur x)"
| load_woken:
    "\<lbrakk>lt_main x \<noteq> L_Aborted; load_runs w r x; lt_pc x w = P_Sleeping; clock cur\<rbrakk> \<Longrightarrow> load_step c x (LoadTask_woken w r cur x)"
| load_section:
    "\<lbrakk>lt_main x \<noteq> L_Aborted; lt_pc x w = P_Section; lt_session x = s; task_ends w t (s_pool s) p\<rbrakk> \<Longrightarrow>
     load_step c x ((LoadTask_section x)\<lparr>lt_session := s\<lparr>s_pool := p\<rparr>, lt_pc := (lt_pc x)(w := P_Begin),
       lt_returned := add_mset (task_runnable t) (lt_returned x)\<rparr>)"

inductive load_wakes :: "load_cfg \<Rightarrow> load_test \<Rightarrow> load_test \<Rightarrow> bool" for c where
  load_spurious_main: "lt_main x = L_Waiting \<Longrightarrow> load_wakes c x (x\<lparr>lt_main := L_Test\<rparr>)"
| load_spurious_worker:
    "\<lbrakk>lt_main x \<noteq> L_Aborted; lt_session x = s; worker_step (s_pool s) p; wakes_up (s_pool s) p\<rbrakk> \<Longrightarrow> load_wakes c x (x\<lparr>lt_session := s\<lparr>s_pool := p\<rparr>\<rparr>)"
| load_spurious_call:
    "\<lbrakk>lt_main x \<noteq> L_Aborted; lt_session x = s; mgr_waiting (cs (s_pool s) ! 0);
      p = (s_pool s)\<lparr>cs := (cs (s_pool s))[0 := wake_mgr (cs (s_pool s) ! 0)]\<rparr>\<rbrakk> \<Longrightarrow>
     load_wakes c x (x\<lparr>lt_session := s\<lparr>s_pool := p\<rparr>\<rparr>)"
| load_spurious_add:
    "\<lbrakk>lt_main x = L_Add j; s_life (lt_session x) = Working; lt_session x = s;
      add_call (load_pool c) 0 j 0 ev (s_pool s) p; add_waiting (cs (s_pool s) ! 0)\<rbrakk> \<Longrightarrow>
     load_wakes c x (x\<lparr>lt_session := s\<lparr>s_pool := p\<rparr>, lt_main := LoadTest_added c j ev\<rparr>)"

abbreviation load_reach :: "load_cfg \<Rightarrow> load_test \<Rightarrow> bool" where
  "load_reach c \<equiv> reachable (load_start c) (\<lambda>x y. load_step c x y \<or> load_wakes c x y)"

subsection \<open>The pool of the test\<close>

lemma load_session_move:
  assumes "load_step c x y \<or> load_wakes c x y"
  shows "\<exists>d. session_move (load_pool c) load_factory d (lt_session x) (lt_session y) \<and> lt_returned y = lt_returned x + d"
  using assms
proof (elim disjE)
  assume "load_step c x y"
  then show ?thesis
  proof (induction rule: load_step.induct)
    case (load_call x s)
    from move_call [OF load_call(1)] show ?case by auto
  next
    case (load_add x j s ev p)
    from move_add [of s] load_add show ?case by auto
  next
    case (load_worker x s p)
    from move_worker [of s p] load_worker show ?case by (auto simp: work_def)
  next
    case (load_section x w s t p)
    from move_returns [of w t s p] load_section show ?case by (auto simp: LoadTask_section_def Let_def)
  qed (auto simp: LoadTest_wait_def LoadTest_measure_def LoadTask_begin_def LoadTask_woken_def intro: move_none)
next
  assume "load_wakes c x y"
  then show ?thesis
  proof (induction rule: load_wakes.induct)
    case (load_spurious_main x)
    then show ?case by (auto intro: move_none)
  next
    case (load_spurious_worker x s p)
    from move_worker [of s p] load_spurious_worker wakes_up_not_ends show ?case by auto
  next
    case (load_spurious_call x s p)
    from move_wakes [of s p] load_spurious_call show ?case by auto
  next
    case (load_spurious_add x j s ev p)
    from move_add [of s] load_spurious_add show ?case by auto
  qed
qed

interpretation load: session_client "num_workers c" 0 "thread_ids c" "main_id c" load_factory "load_start c"
    "\<lambda>x y. load_step c x y \<or> load_wakes c x y" lt_session lt_returned
  by unfold_locales (simp add: load_start_def, erule load_session_move)

subsection \<open>The invariant\<close>

definition task_timed :: "load_test \<Rightarrow> runnable_ref \<Rightarrow> bool" where
  "task_timed x r \<longleftrightarrow> clock (start_time x r) \<and> clock (end_time x r)"

fun pc_timed :: "load_test \<Rightarrow> load_pc \<Rightarrow> runnable_ref \<Rightarrow> bool" where
  "pc_timed x P_Begin r \<longleftrightarrow> True"
| "pc_timed x P_Sleeping r \<longleftrightarrow> clock (start_time x r)"
| "pc_timed x P_Section r \<longleftrightarrow> task_timed x r"

text \<open>The tasks: which were added, and what was written to the returned and to the running ones.\<close>

definition added_ok :: "load_cfg \<Rightarrow> load_main \<Rightarrow> Task list \<Rightarrow> bool" where
  "added_ok c m ts \<longleftrightarrow> list_all undying ts \<and> map task_runnable ts = [0..<length ts] \<and>
     length ts \<le> unat (num_tasks c) \<and>
     (case m of L_Add j \<Rightarrow> j = length ts \<and> j < unat (num_tasks c) | L_Threw e \<Rightarrow> False | _ \<Rightarrow> length ts = unat (num_tasks c))"

definition times_ok :: "load_test \<Rightarrow> bool" where
  "times_ok x \<longleftrightarrow> (\<forall>r \<in># lt_returned x. task_timed x r) \<and>
     (\<forall>w. lt_pc x w \<noteq> P_Begin \<longrightarrow> (\<exists>r. load_runs w r x \<and> pc_timed x (lt_pc x w) r))"

definition count_ok :: "load_cfg \<Rightarrow> load_test \<Rightarrow> bool" where
  "count_ok c x \<longleftrightarrow> tasks_left x = num_tasks c - of_nat (size (lt_returned x)) \<and>
     (lt_main x = L_Waiting \<longrightarrow> tasks_left x \<noteq> 0) \<and>
     (lt_main x \<in> {L_Measure, L_Return, L_Aborted} \<longrightarrow> tasks_left x = 0)"

definition script_ok :: "load_test \<Rightarrow> bool" where
  "script_ok x \<longleftrightarrow> (s_life (lt_session x) \<in> {Stopping_down, Ended} \<longrightarrow> lt_main x = L_Return) \<and>
     (lt_main x \<in> {L_Waiting, L_Measure, L_Return, L_Aborted} \<longrightarrow> s_life (lt_session x) \<in> {Working, Stopping_down, Ended})"

text \<open>The assertion failed exactly if some task ended no later than it started.\<close>

definition late :: "load_cfg \<Rightarrow> load_test \<Rightarrow> bool" where
  "late c x \<longleftrightarrow> (\<exists>r < unat (num_tasks c). end_time x r \<le> start_time x r)"

definition verdict_ok :: "load_cfg \<Rightarrow> load_test \<Rightarrow> bool" where
  "verdict_ok c x \<longleftrightarrow> (lt_main x = L_Return \<longrightarrow> \<not> late c x) \<and> (lt_main x = L_Aborted \<longrightarrow> late c x)"

definition load_inv :: "load_cfg \<Rightarrow> load_test \<Rightarrow> bool" where
  "load_inv c x \<longleftrightarrow> added_ok c (lt_main x) (h_added (s_pool (lt_session x))) \<and> times_ok x \<and> count_ok c x \<and> script_ok x \<and>
     verdict_ok c x"

lemma verdict_ok_cong:
  "lt_main y = lt_main x \<Longrightarrow> start_time y = start_time x \<Longrightarrow> end_time y = end_time x \<Longrightarrow> verdict_ok c y = verdict_ok c x"
  by (simp only: verdict_ok_def late_def)

lemma verdict_ok_open: "lt_main x \<noteq> L_Return \<Longrightarrow> lt_main x \<noteq> L_Aborted \<Longrightarrow> verdict_ok c x"
  by (simp add: verdict_ok_def)

lemma next_add_ok: "added_ok c (L_Add j) ts \<Longrightarrow> task_runnable t = j \<Longrightarrow> undying t \<Longrightarrow> added_ok c (next_add c (Suc j)) (ts @ [t])"
  by (auto simp: added_ok_def next_add_def)

lemma count_ok_cong:
  "tasks_left y = tasks_left x \<Longrightarrow> lt_returned y = lt_returned x \<Longrightarrow> lt_main y = lt_main x \<Longrightarrow> count_ok c y = count_ok c x"
  by (simp only: count_ok_def)

lemma count_ok_main:
  assumes "count_ok c x" "m = L_Waiting \<longrightarrow> tasks_left x \<noteq> 0" "m \<in> {L_Measure, L_Return, L_Aborted} \<longrightarrow> tasks_left x = 0"
  shows "count_ok c (x\<lparr>lt_main := m\<rparr>)"
proof -
  have "tasks_left x = num_tasks c - of_nat (size (lt_returned x))" using assms(1) by (simp only: count_ok_def)
  with assms(2-) show ?thesis unfolding count_ok_def by (intro conjI) auto
qed

lemma count_okD:
  "count_ok c x \<Longrightarrow> lt_main x \<in> {L_Measure, L_Return, L_Aborted} \<Longrightarrow> tasks_left x = 0"
  "count_ok c x \<Longrightarrow> lt_main x = L_Waiting \<Longrightarrow> tasks_left x \<noteq> 0"
  unfolding count_ok_def by blast+

lemma load_inv_start: "load_start c x \<Longrightarrow> load_inv c x"
  by (auto simp: load_start_def load_inv_def added_ok_def times_ok_def count_ok_def script_ok_def verdict_ok_def next_add_def
      session_start_def pool_init_def)

lemma running_timed:
  assumes "load_runs w r x" "load_inv c x" "lt_pc x w \<noteq> P_Begin"
  shows "pc_timed x (lt_pc x w) r"
proof -
  obtain r' where "load_runs w r' x" "pc_timed x (lt_pc x w) r'" using assms(2,3) unfolding load_inv_def times_ok_def by blast
  moreover have "r' = r" using assms(1) \<open>load_runs w r' x\<close> by (auto simp: runs_task_def)
  ultimately show ?thesis by simp
qed

lemma returned_bound:
  assumes "load_reach c x" "load_inv c x"
  shows "size (lt_returned x) + size (runs (ws (s_pool (lt_session x)))) \<le> unat (num_tasks c)"
proof -
  let ?p = "s_pool (lt_session x)"
  have "started_runs ?p \<subseteq># image_mset task_runnable (mset (h_added ?p))"
    using load.sound [OF assms(1)] by (auto simp: session_sound_def intro: started_subset)
  from size_mset_mono [OF this] show ?thesis
    using load.accounted [OF assms(1)] assms(2) by (simp add: load_inv_def added_ok_def)
qed

lemma some_left:
  assumes "load_inv c x" "size (lt_returned x) < unat (num_tasks c)"
  shows "tasks_left x \<noteq> 0"
proof
  assume "tasks_left x = 0"
  with assms(1) have "num_tasks c = of_nat (size (lt_returned x))" by (simp add: load_inv_def count_ok_def)
  then have "unat (num_tasks c) \<le> size (lt_returned x)" by (simp add: unat_of_nat)
  with assms(2) show False by simp
qed

text \<open>No task is running twice, or running and returned.\<close>

lemma running_alone:
  assumes "load_reach c x" "load_inv c x" "load_runs w r x"
  shows "r \<notin># lt_returned x" "load_runs v r x \<Longrightarrow> v = w"
  using load.runs_once(2,3) [OF assms(1) _ assms(3)] assms(2) by (simp_all add: load_inv_def added_ok_def)

lemma keeps_runs_task:
  "keeps_running (ws (s_pool (lt_session x))) (ws p) \<Longrightarrow> load_runs w r x \<Longrightarrow> load_runs w r (x\<lparr>lt_session := s\<lparr>s_pool := p\<rparr>\<rparr>)"
  by (auto simp: runs_task_def keeps_running_def)

text \<open>One step at a time.\<close>

lemma times_ok_keep:
  assumes "times_ok x" "lt_returned y = lt_returned x" "lt_pc y = lt_pc x" "start_time y = start_time x" "end_time y = end_time x"
    and "\<And>w r. load_runs w r x \<Longrightarrow> load_runs w r y"
  shows "times_ok y"
proof -
  have "task_timed y = task_timed x" using assms(4,5) by (simp add: fun_eq_iff task_timed_def)
  moreover have "pc_timed y q r = pc_timed x q r" for q r using assms(4,5) by (cases q) (simp_all add: task_timed_def)
  ultimately show ?thesis using assms(1-3,6) unfolding times_ok_def by metis
qed

lemma load_inv_call:
  assumes "control_call (load_pool c) load_factory (lt_session x) s" "s_life (lt_session x) = Working \<longrightarrow> lt_main x = L_Return"
    and "load_inv c x" "load_reach c x" "load_reach c (x\<lparr>lt_session := s\<rparr>)"
  shows "load_inv c (x\<lparr>lt_session := s\<rparr>)"
proof -
  have one: "length (cs (s_pool (lt_session x))) = 1" using load.sound [OF assms(4)] by (rule sound_one_client)
  note keeps = control_call_keeps [OF assms(1) one]
  have "load_runs w r x \<Longrightarrow> load_runs w r (x\<lparr>lt_session := s\<rparr>)" for w r
    using keeps(4) keeps_runs_task [of x "s_pool s" w r s] by simp
  moreover have "\<nexists>e. s_life s = Failed e" using sound_not_failed [OF load.sound [OF assms(5)]] by simp
  then have "script_ok (x\<lparr>lt_session := s\<rparr>)"
    using control_call_life [OF assms(1)] assms(2,3) by (auto simp: load_inv_def script_ok_def)
  moreover have "verdict_ok c (x\<lparr>lt_session := s\<rparr>) = verdict_ok c x" by (rule verdict_ok_cong) simp_all
  ultimately show ?thesis
    using assms(3) keeps(1) by (auto simp: load_inv_def count_ok_def elim!: times_ok_keep)
qed

lemma load_inv_add:
  assumes "lt_main x = L_Add j" "s_life (lt_session x) = Working" "lt_session x = s" "add_call (load_pool c) 0 j 0 ev (s_pool s) p"
    and "load_inv c x" "load_reach c x"
  shows "load_inv c (x\<lparr>lt_session := s\<lparr>s_pool := p\<rparr>, lt_main := LoadTest_added c j ev\<rparr>)"
    (is "load_inv c ?y")
proof -
  have sound: "session_sound (num_workers c) 0 (thread_ids c) (main_id c) s" using load.sound [OF assms(6)] assms(3) by simp
  have ev: "ev = Add_done" using unbounded_add [OF sound] room_add_returns [OF _ _ assms(4)] assms(2,3) by auto
  have a: "added_ok c (L_Add j) (h_added (s_pool s))" using assms(1,3,5) by (simp add: load_inv_def)
  have "added_ok c (LoadTest_added c j ev) (h_added p)"
    using a add_call_added [OF assms(4)] ev by (auto simp: LoadTest_added_def intro: next_add_ok)
  moreover have "times_ok ?y"
    using assms(3,5) task_keeps_running [OF add_call_step [OF assms(4)]]
    by (auto simp: load_inv_def runs_task_def keeps_running_def elim!: times_ok_keep)
  moreover have "count_ok c ?y \<and> script_ok ?y"
    using assms(1,2,3,5) ev by (auto simp: load_inv_def count_ok_def script_ok_def LoadTest_added_def next_add_def)
  moreover have "verdict_ok c ?y"
    using ev by (intro verdict_ok_open) (simp_all add: LoadTest_added_def next_add_def)
  ultimately show ?thesis by (simp add: load_inv_def)
qed

lemma load_inv_worker:
  assumes "lt_session x = s" "worker_step (s_pool s) p" "\<not> job_ends (s_pool s) p" "load_inv c x"
  shows "load_inv c (x\<lparr>lt_session := s\<lparr>s_pool := p\<rparr>\<rparr>)" (is "load_inv c ?y")
proof -
  have "keeps_running (ws (s_pool (lt_session x))) (ws p)" using worker_keeps_running [OF assms(2,3)] assms(1) by simp
  then have run: "load_runs w r x \<Longrightarrow> load_runs w r ?y" for w r by (rule keeps_runs_task)
  have "times_ok ?y" by (rule times_ok_keep [of x]) (use assms(4) run in \<open>simp_all add: load_inv_def\<close>)
  moreover have "count_ok c ?y = count_ok c x" "verdict_ok c ?y = verdict_ok c x"
    by (rule count_ok_cong verdict_ok_cong; simp)+
  ultimately show ?thesis using assms(1,4) worker_added [OF assms(2)] by (simp add: load_inv_def script_ok_def)
qed

text \<open>A running task writes its own times only.\<close>

lemma times_ok_write:
  assumes "load_reach c x" "load_inv c x" "load_runs w r x"
    and same: "\<And>r'. r' \<noteq> r \<Longrightarrow> start_time y r' = start_time x r' \<and> end_time y r' = end_time x r'"
      "lt_returned y = lt_returned x" "lt_session y = lt_session x" "lt_pc y = (lt_pc x)(w := q)" "pc_timed y q r"
  shows "times_ok y"
proof -
  note alone = running_alone [OF assms(1-3)]
  have ok: "\<forall>r' \<in># lt_returned x. task_timed x r'"
    "\<And>v. lt_pc x v \<noteq> P_Begin \<Longrightarrow> \<exists>r'. load_runs v r' x \<and> pc_timed x (lt_pc x v) r'"
    using assms(2) by (simp_all add: load_inv_def times_ok_def)
  have run: "load_runs v r' y = load_runs v r' x" for v r' using same(3) by (simp add: runs_task_def)
  have task: "task_timed y r' = task_timed x r'" if "r' \<noteq> r" for r' using same(1) [OF that] by (simp add: task_timed_def)
  have pc: "pc_timed y q' r' = pc_timed x q' r'" if "r' \<noteq> r" for q' r'
    using same(1) [OF that] task [OF that] by (cases q') simp_all
  have "\<exists>r'. load_runs v r' y \<and> pc_timed y (lt_pc y v) r'" if v: "lt_pc y v \<noteq> P_Begin" for v
  proof (cases "v = w")
    case True
    then show ?thesis using assms(3) same(4,5) run by auto
  next
    case False
    then have "lt_pc y v = lt_pc x v" using same(4) by simp
    with v ok(2) obtain r' where r': "load_runs v r' x" "pc_timed x (lt_pc x v) r'" by metis
    with alone(2) False have "r' \<noteq> r" by blast
    with r' pc run \<open>lt_pc y v = lt_pc x v\<close> show ?thesis by auto
  qed
  moreover have "task_timed y r'" if "r' \<in># lt_returned y" for r'
    using that ok(1) alone(1) task same(2) by metis
  ultimately show ?thesis by (simp add: times_ok_def)
qed

text \<open>Once the main thread evaluates the times, no task is running.\<close>

lemma running_open:
  assumes "load_reach c x" "load_inv c x" "load_runs w r x"
  shows "tasks_left x \<noteq> 0" "lt_main x \<noteq> L_Return"
proof -
  have "run_of (ws (s_pool (lt_session x)) ! w) \<noteq> {#}" "w < length (ws (s_pool (lt_session x)))"
    using assms(3) by (auto simp: runs_task_def)
  then have "runs (ws (s_pool (lt_session x))) \<noteq> {#}"
    using runs_update [of w "ws (s_pool (lt_session x))" W_Loop] by auto
  then have "0 < size (runs (ws (s_pool (lt_session x))))" by (simp add: nonempty_has_size)
  with returned_bound [OF assms(1,2)] show "tasks_left x \<noteq> 0" by (intro some_left [OF assms(2)]) simp
  then show "lt_main x \<noteq> L_Return" using count_okD(1) assms(2) by (auto simp: load_inv_def)
qed

lemma load_inv_write:
  assumes "load_reach c x" "load_inv c x" "load_runs w r x" "lt_main x \<noteq> L_Aborted" "clock cur"
  shows "lt_pc x w = P_Begin \<Longrightarrow> load_inv c (LoadTask_begin w r cur x)"
    "lt_pc x w = P_Sleeping \<Longrightarrow> load_inv c (LoadTask_woken w r cur x)"
proof -
  note main = running_open(2) [OF assms(1-3)]
  have "times_ok (LoadTask_begin w r cur x)"
    using assms(5) by (intro times_ok_write [OF assms(1-3), of _ P_Sleeping]) (simp_all add: LoadTask_begin_def)
  moreover have "count_ok c (LoadTask_begin w r cur x) = count_ok c x" by (rule count_ok_cong) (simp_all add: LoadTask_begin_def)
  moreover have "verdict_ok c (LoadTask_begin w r cur x)"
    by (rule verdict_ok_open) (simp_all add: main assms(4) LoadTask_begin_def)
  ultimately show "load_inv c (LoadTask_begin w r cur x)"
    using assms(2) by (simp add: load_inv_def script_ok_def LoadTask_begin_def)
next
  assume pc: "lt_pc x w = P_Sleeping"
  note main = running_open(2) [OF assms(1-3)]
  have "clock (start_time x r)" using running_timed [OF assms(3,2)] pc by simp
  then have "times_ok (LoadTask_woken w r cur x)" using assms(5)
    by (intro times_ok_write [OF assms(1-3), of _ P_Section]) (simp_all add: LoadTask_woken_def task_timed_def)
  moreover have "count_ok c (LoadTask_woken w r cur x) = count_ok c x" by (rule count_ok_cong) (simp_all add: LoadTask_woken_def)
  moreover have "verdict_ok c (LoadTask_woken w r cur x)"
    by (rule verdict_ok_open) (simp_all add: main assms(4) LoadTask_woken_def)
  ultimately show "load_inv c (LoadTask_woken w r cur x)"
    using assms(2) by (simp add: load_inv_def script_ok_def LoadTask_woken_def)
qed

lemma load_inv_section:
  assumes "lt_pc x w = P_Section" "lt_session x = s" "task_ends w t (s_pool s) p" "load_inv c x" "load_reach c x"
    and main: "lt_main x \<noteq> L_Aborted"
  shows "load_inv c ((LoadTask_section x)\<lparr>lt_session := s\<lparr>s_pool := p\<rparr>, lt_pc := (lt_pc x)(w := P_Begin),
       lt_returned := add_mset (task_runnable t) (lt_returned x)\<rparr>)" (is "load_inv c ?y")
proof -
  note ends = task_ends_runs [OF assms(3)]
  have ok: "\<forall>r' \<in># lt_returned x. task_timed x r'"
    "\<And>v. lt_pc x v \<noteq> P_Begin \<Longrightarrow> \<exists>r'. load_runs v r' x \<and> pc_timed x (lt_pc x v) r'"
    using assms(4) by (simp_all add: load_inv_def times_ok_def)
  have same: "start_time ?y = start_time x" "end_time ?y = end_time x" "lt_pc ?y = (lt_pc x)(w := P_Begin)"
    by (simp_all add: LoadTask_section_def Let_def)
  have task: "task_timed ?y = task_timed x" using same by (simp add: fun_eq_iff task_timed_def)
  have pc: "pc_timed ?y q r = pc_timed x q r" for q r using same task by (cases q) simp_all
  have run: "load_runs v r x \<Longrightarrow> v \<noteq> w \<Longrightarrow> load_runs v r ?y" for v r
    using assms(2,3) by (auto simp: runs_task_def task_ends_def)
  have "load_runs w (task_runnable t) x" using assms(2,3) by (auto simp: runs_task_def task_ends_def)
  from running_timed [OF this assms(4)] assms(1) have "task_timed x (task_runnable t)" by simp
  moreover have "\<exists>r. load_runs v r ?y \<and> pc_timed x (lt_pc ?y v) r" if v: "lt_pc ?y v \<noteq> P_Begin" for v
  proof -
    have vw: "v \<noteq> w" using v same(3) by auto
    then have eq: "lt_pc ?y v = lt_pc x v" using same(3) by simp
    with v ok(2) obtain r where "load_runs v r x" "pc_timed x (lt_pc x v) r" by metis
    with run vw eq show ?thesis by auto
  qed
  ultimately have "times_ok ?y" using ok(1) unfolding times_ok_def task pc by simp
  moreover have "count_ok c ?y"
  proof -
    have "Suc (size (runs (ws p))) = size (runs (ws (s_pool s)))" using ends by (metis size_add_mset)
    then have "1 \<le> size (runs (ws (s_pool (lt_session x))))" using assms(2) by simp
    with returned_bound [OF assms(5,4)] have "tasks_left x \<noteq> 0" by (intro some_left [OF assms(4)]) simp
    with assms(4) show ?thesis
      by (cases "lt_main x") (auto simp: load_inv_def count_ok_def LoadTask_section_def Let_def)
  qed
  moreover have "verdict_ok c ?y"
  proof (rule verdict_ok_open)
    have "load_runs w (task_runnable t) x" using assms(2,3) by (auto simp: runs_task_def task_ends_def)
    from running_open(2) [OF assms(5,4) this] main
    show "lt_main ?y \<noteq> L_Return" "lt_main ?y \<noteq> L_Aborted"
      by (cases "lt_main x"; simp add: LoadTask_section_def Let_def)+
  qed
  moreover have "added_ok c (lt_main ?y) (h_added p) \<and> script_ok ?y"
    using assms(2,4) ends by (cases "lt_main x") (auto simp: load_inv_def added_ok_def script_ok_def LoadTask_section_def Let_def)
  ultimately show ?thesis by (simp add: load_inv_def)
qed

text \<open>All tasks have returned when the main thread evaluates the times.\<close>

lemma all_returned:
  assumes "load_reach c x" "load_inv c x" "tasks_left x = 0"
  shows "lt_returned x = mset [0..<unat (num_tasks c)]"
proof -
  let ?p = "s_pool (lt_session x)"
  have "unat (num_tasks c) \<le> size (lt_returned x)" using some_left [OF assms(2)] assms(3) by (metis not_le)
  moreover have "lt_returned x \<subseteq># mset [0..<length (h_added ?p)]"
  proof -
    have "lt_returned x \<subseteq># started_runs ?p" using load.accounted [OF assms(1)] by simp
    also have "\<dots> \<subseteq># image_mset task_runnable (mset (h_added ?p))"
      using load.sound [OF assms(1)] by (auto simp: session_sound_def intro: started_subset)
    also have "\<dots> = mset [0..<length (h_added ?p)]" using assms(2) by (metis load_inv_def added_ok_def mset_map)
    finally show ?thesis .
  qed
  moreover have "length (h_added ?p) \<le> unat (num_tasks c)" using assms(2) by (simp add: load_inv_def added_ok_def)
  ultimately have "lt_returned x \<subseteq># mset [0..<length (h_added ?p)]" "length (h_added ?p) \<le> size (lt_returned x)"
    "length (h_added ?p) = unat (num_tasks c)" using size_mset_mono [of "lt_returned x" "mset [0..<length (h_added ?p)]"] by auto
  then show ?thesis using subset_mset_full [of "lt_returned x" "mset [0..<length (h_added ?p)]"] by simp
qed

text \<open>The evaluation returns or the assertion fails, as the times say.\<close>

lemma measure_verdict:
  assumes "load_reach c x" "load_inv c x" "lt_main x = L_Measure" "num_tasks c \<noteq> 0"
  shows "LoadTest_measure c x = x\<lparr>lt_main := if late c x then L_Aborted else L_Return\<rparr>"
proof -
  let ?ts = "map (\<lambda>r. (start_time x r, end_time x r)) [0..<unat (num_tasks c)]"
  have "tasks_left x = 0" using assms(2,3) count_okD(1) [of c x] by (simp add: load_inv_def)
  from all_returned [OF assms(1,2) this] have "task_timed x r" if "r < unat (num_tasks c)" for r
    using assms(2) that by (simp add: load_inv_def times_ok_def)
  then have range: "\<forall>(s, e) \<in> set ?ts. 0 \<le> s \<and> s \<le> INT64_MAX \<and> 0 \<le> e \<and> e \<le> INT64_MAX"
    by (auto simp: task_timed_def clock_def)
  have ne: "?ts \<noteq> []" using assms(4) by (simp add: unat_eq_zero)
  have "\<forall>(s, e) \<in> set ?ts. s < e" if "\<not> late c x" using that by (auto simp: late_def)
  then have "\<exists>st. LoadTest_statistics ?ts = Inr st" if "\<not> late c x" using statistics_returns [OF ne range] that by blast
  moreover have "LoadTest_statistics ?ts = Inl Aborted" if "late c x"
    using that by (intro statistics_aborts [OF range]) (auto simp: late_def)
  ultimately show ?thesis by (auto simp: LoadTest_measure_def)
qed

lemma load_inv_step:
  assumes "load_step c x y" "load_inv c x" "load_reach c x" "load_reach c y" "num_tasks c \<noteq> 0"
  shows "load_inv c y"
  using assms(1-4)
proof (induction rule: load_step.induct)
  case (load_call x s)
  then show ?case by (rule load_inv_call)
next
  case (load_add x j s ev p)
  then show ?case by (intro load_inv_add)
next
  case (load_test x)
  let ?m = "if tasks_left x > 0 then L_Waiting else L_Measure"
  have "times_ok (x\<lparr>lt_main := ?m\<rparr>)"
    using load_test(3) by (auto simp: load_inv_def runs_task_def elim!: times_ok_keep)
  moreover have "count_ok c (x\<lparr>lt_main := ?m\<rparr>)"
    by (rule count_ok_main [of c x]) (use load_test(3) in \<open>auto simp: load_inv_def word_gt_0\<close>)
  moreover have "verdict_ok c (x\<lparr>lt_main := ?m\<rparr>)" by (rule verdict_ok_open) simp_all
  ultimately show ?case using load_test(1-3) by (simp add: load_inv_def LoadTest_wait_def added_ok_def script_ok_def)
next
  case (load_measure x)
  let ?m = "if late c x then L_Aborted else L_Return"
  have eq: "LoadTest_measure c x = x\<lparr>lt_main := ?m\<rparr>" by (rule measure_verdict [OF load_measure(3,2,1) assms(5)])
  have "times_ok (x\<lparr>lt_main := ?m\<rparr>)"
    using load_measure(2) by (auto simp: load_inv_def runs_task_def elim!: times_ok_keep)
  moreover have "count_ok c (x\<lparr>lt_main := ?m\<rparr>)"
    by (rule count_ok_main [of c x]) (use load_measure(1,2) count_okD(1) [of c x] in \<open>auto simp: load_inv_def\<close>)
  moreover have "verdict_ok c (x\<lparr>lt_main := ?m\<rparr>)" by (simp add: verdict_ok_def late_def)
  ultimately show ?case using load_measure(1,2) unfolding eq by (auto simp: load_inv_def added_ok_def script_ok_def)
next
  case (load_worker x s p)
  then show ?case by (intro load_inv_worker) (simp_all add: work_def)
next
  case (load_begin x w r cur)
  then show ?case by (intro load_inv_write(1))
next
  case (load_woken x w r cur)
  then show ?case by (intro load_inv_write(2))
next
  case (load_section x w s t p)
  then show ?case by (intro load_inv_section)
qed

lemma load_inv_wakes: "load_wakes c x y \<Longrightarrow> load_inv c x \<Longrightarrow> load_reach c x \<Longrightarrow> load_inv c y"
proof (induction rule: load_wakes.induct)
  case (load_spurious_main x)
  then show ?case
    by (auto simp: load_inv_def added_ok_def count_ok_def script_ok_def verdict_ok_def runs_task_def elim!: times_ok_keep)
next
  case (load_spurious_worker x s p)
  then show ?case by (intro load_inv_worker) (simp_all add: wakes_up_not_ends)
next
  case (load_spurious_call x s p)
  let ?y = "x\<lparr>lt_session := s\<lparr>s_pool := p\<rparr>\<rparr>"
  have ws: "ws (s_pool (lt_session ?y)) = ws (s_pool (lt_session x))" "h_added (s_pool s) = h_added p"
    using load_spurious_call(2,4) by auto
  have "times_ok x" using load_spurious_call(5) by (simp add: load_inv_def)
  then have "times_ok ?y" by (rule times_ok_keep) (use ws(1) in \<open>simp_all add: runs_task_def\<close>)
  moreover have "count_ok c ?y = count_ok c x" "verdict_ok c ?y = verdict_ok c x"
    by (rule count_ok_cong verdict_ok_cong; simp)+
  ultimately show ?case using load_spurious_call(2,5) ws(2) by (simp add: load_inv_def script_ok_def)
next
  case (load_spurious_add x j s ev p)
  then show ?case by (intro load_inv_add)
qed

interpretation load_ok: relative_invariant "load_start c" "\<lambda>x y. load_step c x y \<or> load_wakes c x y" "load_reach c"
    "\<lambda>x. num_tasks c \<noteq> 0 \<longrightarrow> load_inv c x"
proof (intro relative_invariant.intro reachable_invariant relative_invariant_axioms.intro)
  show "load_start c x \<Longrightarrow> num_tasks c \<noteq> 0 \<longrightarrow> load_inv c x" for x by (blast intro: load_inv_start)
  show "load_reach c x \<Longrightarrow> load_reach c y \<Longrightarrow> num_tasks c \<noteq> 0 \<longrightarrow> load_inv c x \<Longrightarrow>
      load_step c x y \<or> load_wakes c x y \<Longrightarrow> num_tasks c \<noteq> 0 \<longrightarrow> load_inv c y" for x y
    using load_inv_step load_inv_wakes by blast
qed

subsection \<open>The test comes to an end\<close>

text \<open>The rank: what is left of the main thread, then of the workers and their tasks, then whether a wait is next.\<close>

definition main_rank :: "load_cfg \<Rightarrow> load_main \<Rightarrow> nat" where
  "main_rank c m = (case m of L_Add j \<Rightarrow> unat (num_tasks c) - j + 3 | L_Test \<Rightarrow> 2 | L_Waiting \<Rightarrow> 2 | L_Measure \<Rightarrow> 1 | _ \<Rightarrow> 0)"

fun task_rank :: "load_pc \<Rightarrow> nat" where
  "task_rank P_Begin = 2"
| "task_rank P_Sleeping = 1"
| "task_rank P_Section = 0"

definition load_rank :: "load_cfg \<Rightarrow> load_test \<Rightarrow> nat \<times> nat \<times> nat" where
  "load_rank c x =
     (session_rank (num_workers c) (lt_session x) + main_rank c (lt_main x),
      3 * work_left (s_pool (lt_session x)) + (\<Sum>w < length (ws (s_pool (lt_session x))). task_rank (lt_pc x w)),
      of_bool (at_check (cs (s_pool (lt_session x)) ! 0)) + of_bool (lt_main x = L_Test))"

lemma load_rank_decreases:
  assumes "load_step c x y" "load_reach c x" "load_inv c x" "num_tasks c \<noteq> 0"
  shows "(load_rank c y, load_rank c x) \<in> rank_less"
  using assms(1-3)
proof (induction rule: load_step.induct)
  case (load_call x s)
  have "session_inv (num_workers c) (lt_session x)" using load.sound [OF load_call(3)] by (simp add: session_sound_def)
  from control_call_rank [OF load_call(1) this] show ?case by (auto simp: load_rank_def work_left_def)
next
  case (load_add x j s ev p)
  have sound: "session_sound (num_workers c) 0 (thread_ids c) (main_id c) s" using load.sound [OF load_add(6)] load_add(3) by simp
  have "ev = Add_done" using unbounded_add [OF sound] room_add_returns [OF _ _ load_add(4)] load_add(2,3) by auto
  moreover have "j < unat (num_tasks c)" using load_add(1,7) by (simp add: load_inv_def added_ok_def)
  ultimately have "main_rank c (LoadTest_added c j ev) < main_rank c (lt_main x)"
    using load_add(1) by (auto simp: main_rank_def LoadTest_added_def next_add_def)
  then show ?case using load_add(2,3) by (simp add: load_rank_def)
next
  case (load_test x)
  then show ?case by (auto simp: load_rank_def LoadTest_wait_def main_rank_def)
next
  case (load_measure x)
  then have "LoadTest_measure c x = x\<lparr>lt_main := if late c x then L_Aborted else L_Return\<rparr>"
    by (intro measure_verdict [OF _ _ _ assms(4)])
  with load_measure(1) show ?case by (simp add: load_rank_def main_rank_def)
next
  case (load_worker x s p)
  have "worker_step (s_pool (lt_session x)) p" using load_worker(2,3) by (simp add: work_def)
  with worker_rank [OF this sound_one_client [OF load.sound [OF load_worker(5)]]] ws_grow_worker [OF this]
    work_decreases [OF load_worker(3)] load_worker(2) show ?case by (simp add: load_rank_def)
next
  case (load_begin x w r cur)
  then show ?case using sum_upd [of w "length (ws (s_pool (lt_session x)))" task_rank "lt_pc x" P_Sleeping]
    by (simp add: load_rank_def LoadTask_begin_def runs_task_def)
next
  case (load_woken x w r cur)
  then show ?case using sum_upd [of w "length (ws (s_pool (lt_session x)))" task_rank "lt_pc x" P_Section]
    by (simp add: load_rank_def LoadTask_woken_def runs_task_def)
next
  case (load_section x w s t p)
  have cs: "cs p = cs (s_pool s)" "w < length (ws (s_pool s))" using load_section(4) by (auto simp: task_ends_def)
  have m: "main_rank c (wake_load (lt_main x)) = main_rank c (lt_main x)" by (cases "lt_main x") (simp_all add: main_rank_def)
  show ?case using sum_upd [of w "length (ws p)" task_rank "lt_pc x" P_Begin] task_ends_work [OF load_section(4)] load_section(2,3) cs m
    by (simp add: load_rank_def LoadTask_section_def Let_def)
qed

text \<open>A run that cannot go on has ended.\<close>

lemma task_goes_on:
  assumes "load_runs w r x" "lt_main x \<noteq> L_Aborted"
  shows "\<exists>y. load_step c x y"
proof (cases "lt_pc x w")
  case P_Begin
  have "clock 0" by (simp add: clock_def INT64_MAX_def)
  from load_begin [OF assms(2,1) P_Begin this] show ?thesis by blast
next
  case P_Sleeping
  have "clock 0" by (simp add: clock_def INT64_MAX_def)
  from load_woken [OF assms(2,1) P_Sleeping this] show ?thesis by blast
next
  case P_Section
  from assms(1) obtain t where "w < length (ws (s_pool (lt_session x)))" "ws (s_pool (lt_session x)) ! w = W_Run (Some t)"
    by (auto simp: runs_task_def)
  then have "task_ends w t (s_pool (lt_session x)) ((s_pool (lt_session x))\<lparr>ws := (ws (s_pool (lt_session x)))[w := W_Loop]\<rparr>)"
    by (simp add: task_ends_def)
  from load_section [OF assms(2) P_Section refl this] show ?thesis by blast
qed

lemma stuck_no_work:
  assumes "lt_main x \<noteq> L_Aborted" "\<nexists>y. load_step c x y"
  shows "\<nexists>p. work (s_pool (lt_session x)) p"
proof
  assume "\<exists>p. work (s_pool (lt_session x)) p"
  then obtain p where p: "work (s_pool (lt_session x)) p" by blast
  show False
  proof (cases "job_ends (s_pool (lt_session x)) p")
    case True
    then obtain w t where "w < length (ws (s_pool (lt_session x)))" "ws (s_pool (lt_session x)) ! w = W_Run (Some t)"
      by (auto simp: job_ends_def)
    then have "load_runs w (task_runnable t) x" by (simp add: runs_task_def)
    with task_goes_on assms show False by blast
  next
    case False
    with load_worker [OF assms(1) refl p] assms(2) show False by blast
  qed
qed

lemma load_stuck:
  assumes "load_reach c x" "load_inv c x" "lt_main x \<noteq> L_Aborted" "num_workers c \<noteq> 0" "\<nexists>y. load_step c x y"
  shows "s_life (lt_session x) = Ended" "lt_main x = L_Return"
proof -
  let ?s = "lt_session x"
  note still = stuck_no_work [OF assms(3,5)]
  note sound = load.sound [OF assms(1)]
  have "\<not> (s_life ?s \<notin> {Working, Ended})" using session_progress [OF sound _ still] load_call assms(5) by blast
  moreover have "s_life ?s \<noteq> Working"
  proof
    assume work: "s_life ?s = Working"
    note pool = working_workers [OF sound work]
    obtain e where e: "cs (s_pool ?s) ! 0 = C_Ret e" using unbounded_add(2) [OF sound work] by blast
    show False
    proof (cases "lt_main x")
      case (L_Add j)
      obtain p where "add_call (load_pool c) 0 j 0 Add_done (s_pool ?s) p" using room_add_possible [OF unbounded_add(1) [OF sound work] e] sound_one_client [OF sound] by auto
      from load_add [OF L_Add work refl this] e assms(5) show False by auto
    next
      case L_Test
      with load_test [OF L_Test work] assms(5) show False by blast
    next
      case L_Waiting
      have "at_rest 0 (s_pool ?s)"
        using sound session_ws by (intro quiescent [OF _ _ _ _ still, of "load_pool c"]) (auto simp: session_sound_def)
      then have rest: "tasks (mgr (s_pool ?s)) = []" using pool(4) assms(4) by (simp add: at_rest_def)
      have reach: "reach (load_pool c) (s_pool ?s)" using sound by (simp add: session_sound_def)
      have added: "list_all undying (h_added (s_pool ?s))" "length (h_added (s_pool ?s)) = unat (num_tasks c)"
        using assms(2) L_Waiting by (auto simp: load_inv_def added_ok_def)
      have "length (h_started (s_pool ?s)) = unat (num_tasks c)"
        using all_started [OF fifo.always [OF reach] served.always [OF reach] _ rest added(1)] added(2) by simp
      moreover have "runs (ws (s_pool ?s)) = {#}" using no_work [OF still] by (rule runs_not_busy)
      ultimately have "size (lt_returned x) = unat (num_tasks c)"
        using arg_cong [OF load.accounted [OF assms(1)], of size] by simp
      then have "tasks_left x = 0" using assms(2) by (simp add: load_inv_def count_ok_def)
      with L_Waiting assms(2) count_okD(2) show False by (auto simp: load_inv_def)
    next
      case L_Measure
      with load_measure [OF L_Measure] assms(5) show False by blast
    next
      case L_Return
      with load_call [OF call_stop [OF work refl e refl]] assms(5) show False by blast
    next
      case L_Aborted
      with assms(3) show False by simp
    next
      case (L_Threw y)
      with assms(2) show False by (simp add: load_inv_def added_ok_def)
    qed
  qed
  ultimately show "s_life ?s = Ended" by blast
  with assms(2) show "lt_main x = L_Return" by (simp add: load_inv_def script_ok_def)
qed

subsection \<open>Property\<close>

lemma load_steps: "(load_step c)\<^sup>*\<^sup>* x y \<Longrightarrow> load_reach c x \<Longrightarrow> load_reach c y"
  by (induction rule: rtranclp_induct) (auto intro: reachable_step)

text \<open>C4. \<^verbatim>\<open>LoadTest\<close> comes to an end, for any numbers of tasks and of workers but 0, in every interleaving, with sleeps of
  any length and any readings of the clock that are not negative. From every state it can reach, with any unnotified wake-ups before, the rest of the run is
  finite, and at its end every task has returned once and the counter is 0. If every task ended later than it started,
  the destructor of the manager has then returned and all workers are gone; otherwise \<^verbatim>\<open>assert(delta > 0)\<close> has failed,
  which ends the process. \<open>Add\<close> never throws.\<close>

theorem LoadTest_completes:
  assumes "load_reach c x" and "num_workers c \<noteq> 0" "num_tasks c \<noteq> 0"
  shows "(\<nexists>f. f 0 = x \<and> (\<forall>n. load_step c (f n) (f (Suc n)))) \<and>
    (\<forall>y. (load_step c)\<^sup>*\<^sup>* x y \<and> (\<nexists>z. load_step c y z) \<longrightarrow>
       tasks_left y = 0 \<and> lt_returned y = mset [0..<unat (num_tasks c)] \<and>
       (if \<forall>r < unat (num_tasks c). start_time y r < end_time y r
        then lt_main y = L_Return \<and> s_life (lt_session y) = Ended \<and> set (ws (s_pool (lt_session y))) \<subseteq> {W_Done True}
        else lt_main y = L_Aborted)) \<and>
    (\<nexists>e. lt_main x = L_Threw e)"
proof -
  have inv: "load_reach c y \<Longrightarrow> load_inv c y" for y using load_ok.both.always assms(3) by blast
  have "\<not> (\<forall>n. load_step c (f n) (f (Suc n)))" if "f 0 = x" for f
  proof (rule rank_ends [where P = "load_reach c" and rank = "load_rank c" and r = rank_less])
    show "load_reach c (f 0)" using that assms(1) by simp
  qed (use load_rank_decreases inv assms(3) in \<open>auto intro: reachable_step\<close>)
  moreover have "tasks_left y = 0 \<and> lt_returned y = mset [0..<unat (num_tasks c)] \<and>
       (if \<forall>r < unat (num_tasks c). start_time y r < end_time y r
        then lt_main y = L_Return \<and> s_life (lt_session y) = Ended \<and> set (ws (s_pool (lt_session y))) \<subseteq> {W_Done True}
        else lt_main y = L_Aborted)"
    if "(load_step c)\<^sup>*\<^sup>* x y" "\<nexists>z. load_step c y z" for y
  proof -
    have reach: "load_reach c y" using load_steps that(1) assms(1) by blast
    note stuck = load_stuck [OF reach inv [OF reach] _ assms(2) that(2)]
    then have left: "tasks_left y = 0"
      using inv [OF reach] count_okD(1) [of c y] by (cases "lt_main y = L_Aborted") (auto simp: load_inv_def)
    have late: "late c y \<longleftrightarrow> \<not> (\<forall>r < unat (num_tasks c). start_time y r < end_time y r)"
      by (auto simp: late_def not_less)
    have "\<forall>p \<in> set (ws (s_pool (lt_session y))). p = W_Done True" if "s_life (lt_session y) = Ended"
      by (rule ended_workers [OF load.sound [OF reach] that])
    then have gone: "set (ws (s_pool (lt_session y))) \<subseteq> {W_Done True}" if "s_life (lt_session y) = Ended" using that by blast
    have "lt_main y = (if late c y then L_Aborted else L_Return)"
      using inv [OF reach] stuck(2) by (cases "lt_main y = L_Aborted") (auto simp: load_inv_def verdict_ok_def)
    moreover have "s_life (lt_session y) = Ended" if "\<not> late c y" using stuck(1) that calculation by simp
    ultimately show ?thesis using left all_returned [OF reach inv [OF reach] left] late gone by simp
  qed
  moreover have "\<nexists>e. lt_main x = L_Threw e" using inv [OF assms(1)] by (auto simp: load_inv_def added_ok_def)
  ultimately show ?thesis by blast
qed

definition load_ex :: load_cfg where
  "load_ex = \<lparr>num_tasks = 10000, num_workers = 100, thread_ids = \<lambda>w. w + 1, main_id = 0\<rparr>"

definition load_ex_start :: load_test where
  "load_ex_start = \<lparr>lt_session = \<lparr>s_pool = pool_init 1, s_life = Fresh\<rparr>, tasks_left = 10000, lt_main = L_Add 0,
     lt_pc = \<lambda>_. P_Begin, start_time = \<lambda>_. 0, end_time = \<lambda>_. 0, lt_returned = {#}\<rparr>"

theorem LoadTest_completes_witness:
  "load_start load_ex load_ex_start \<and>
   {y. (load_step load_ex)\<^sup>*\<^sup>* load_ex_start y \<and> (\<nexists>z. load_step load_ex y z)} \<subseteq>
     {y. lt_main y \<in> {L_Return, L_Aborted} \<and> lt_returned y = mset [0..<10000]}"
proof -
  have start: "load_start load_ex load_ex_start"
    by (simp add: load_start_def load_ex_def load_ex_start_def session_start_def next_add_def)
  then have "load_reach load_ex load_ex_start" by (rule reachable_init)
  from LoadTest_completes [OF this] have
    "{y. (load_step load_ex)\<^sup>*\<^sup>* load_ex_start y \<and> (\<nexists>z. load_step load_ex y z)} \<subseteq>
       {y. lt_main y \<in> {L_Return, L_Aborted} \<and> lt_returned y = mset [0..<unat (num_tasks load_ex)]}"
    by (auto simp: load_ex_def split: if_splits)
  with start show ?thesis by (simp add: load_ex_def)
qed

end
