(* ===== verification/Pool_Full.thy ===== *)
theory Pool_Full
  imports Pool_Session
begin

text \<open>
  A bounded pool that is full: all workers run tasks and the queue has no room. Such a pool tells its caller so: the
  counters are right, and \<open>Add\<close> waits, times out or throws, but queues nothing.
\<close>

subsection \<open>The keys of the map of threads\<close>

text \<open>\<^verbatim>\<open>id_map_\<close> only maps ids of worker threads: a thread that is not a worker may wait in \<open>Add\<close>.\<close>

definition ids_inv :: "pool_cfg \<Rightarrow> pool \<Rightarrow> bool" where
  "ids_inv cfg p \<longleftrightarrow> dom (id_map (mgr p)) \<subseteq> range (pid cfg)"

lemma ids_worker: "worker_step s t \<Longrightarrow> id_map (mgr t) = id_map (mgr s)"
proof (induction rule: worker_step.induct)
  case (worker_enter w s active nm m')
  then show ?case by (auto simp: Worker_enter_def Let_def split: if_splits)
next
  case (worker_sleep w s cur m')
  then show ?case using worker_turn_SleepD [OF worker_sleep(2)] by auto
next
  case (worker_proceed w s cur t nm calls m' cs')
  then show ?case using worker_turn_ProceedD [OF worker_proceed(2)] by auto
next
  case (worker_leave w s cur m')
  then show ?case using worker_turn_LeaveD [OF worker_leave(2)] by auto
next
  case (worker_exit w s c nm m' cs')
  then show ?case by (auto simp: Worker_exit_def Let_def)
qed auto

lemma ids_task: "task_step cfg s t \<Longrightarrow> id_map (mgr t) = id_map (mgr s)"
proof (induction rule: task_step.induct)
  case (add_queued i s e locked limit cur cur2 v expiration notify calls m' ws')
  then show ?case by (auto dest!: Add_enter_queuedD)
next
  case (add_waits i s e locked limit cur cur2 v expiration calls m')
  then show ?case by (auto dest!: Add_enter_waitsD)
next
  case (add_throws i s e locked limit cur cur2 v expiration x calls m')
  then show ?case by (auto dest!: Add_enter_throwsD)
next
  case (add_resume_queued i s v limit expiration cur notify calls m' ws')
  then show ?case by (auto dest!: Add_resume_queuedD)
next
  case (add_resume_waits i s v limit expiration cur calls m')
  then show ?case by (auto dest!: Add_resume_waitsD)
next
  case (remove_next_pending i s e r m')
  then show ?case by (auto dest!: RemoveNextPendingD)
next
  case (remove_expired_tasks i s e cur calls m')
  then show ?case by (auto simp: RemoveExpiredTasks_split)
next
  case (expired_task_count i s e n m')
  then show ?case by (auto simp: ExpiredTaskCount_def)
qed (auto simp: SetExpireCallback_def)

lemma ids_control: "control_step cfg s t \<Longrightarrow> dom (id_map (mgr t)) \<subseteq> dom (id_map (mgr s)) \<union> range (pid cfg)"
proof (induction rule: control_step.induct)
  case (start_ok i s e notify m' ws')
  then show ?case by (auto simp: Start_def split: if_splits)
next
  case (simple_start_ok i s sm notify m' ws')
  then show ?case by (auto simp: Start_def split: if_splits)
next
  case (add_worker_insert i s w ths)
  then show ?case by (auto simp: id_map_insert_def split: if_splits)
next
  case (remove_worker_request i s k v n m' ws')
  then show ?case using RemoveWorker_requestD [OF remove_worker_request(3)] by auto
next
  case (remove_worker_clean i s k)
  then show ?case by (auto simp: RemoveWorker_clean_def)
next
  case (stop_claim i s join do_stop m')
  then show ?case by (auto simp: StopImpl_claim_def split: if_splits)
qed (auto simp: SetThreadFactory_def SetPendingTaskCountMax_def AddWorker_publish_def StopImpl_finish_def)

interpretation ids: inductive_invariant pool_start "pool_step cfg" "ids_inv cfg"
proof unfold_locales
  fix s assume "pool_start s"
  then show "ids_inv cfg s" by (auto simp: pool_start_def pool_init_def ids_inv_def NewThreadManager_def Impl_new_def)
next
  fix s t assume inv: "ids_inv cfg s" and "pool_step cfg s t"
  from this(2) have "dom (id_map (mgr t)) \<subseteq> dom (id_map (mgr s)) \<union> range (pid cfg)"
    by cases (auto simp: ids_worker ids_task dest!: ids_control)
  with inv show "ids_inv cfg t" unfolding ids_inv_def by blast
qed

lemma may_sleep: "reach cfg p \<Longrightarrow> me \<notin> range (pid cfg) \<Longrightarrow> CanSleep me (mgr p)"
  using ids.always [of cfg p] by (auto simp: ids_inv_def CanSleep_def)

subsection \<open>A full pool\<close>

lemma runs_length: "size (runs ps) \<le> length ps"
proof (induction ps)
  case (Cons p ps)
  then show ?case by (cases p rule: run_of.cases) auto
qed simp

lemma runs_full: "length ps \<le> size (runs ps) \<Longrightarrow> \<forall>p \<in> set ps. \<exists>t. p = W_Run (Some t)"
proof (induction ps)
  case (Cons p ps)
  with runs_length [of ps] show ?case by (cases p rule: run_of.cases) auto
qed simp

lemma expire_undying: "list_all undying (tasks m) \<Longrightarrow> RemoveExpiredTasks cur m = ([], m)"
  by (cases "tasks m") (simp_all add: RemoveExpiredTasks_eq undying_def is_expired_def callback_calls_def
      split: option.split)

lemma started_prefix:
  assumes "fifo_inv p" "served_inv cfg p" "\<forall>i. \<not> pops cfg i" "list_all undying (h_added p)"
  shows "h_started p = map mark_executing (h_removed p)" "h_added p = h_removed p @ tasks (mgr p)"
proof -
  show split: "h_added p = h_removed p @ tasks (mgr p)" using assms(1) by (simp add: fifo_inv_def)
  then have "filter undying (h_removed p) = h_removed p" using assms(4) by (simp add: list_all_iff)
  then have all: "filter undying (h_started p) = map mark_executing (h_removed p)"
    using assms(2,3) by (metis served_inv_def)
  have "subseq (h_started p) (map mark_executing (h_removed p))" using assms(1) by (simp add: fifo_inv_def)
  moreover have "length (map mark_executing (h_removed p)) \<le> length (h_started p)"
    using arg_cong [OF all, of length] length_filter_le [of undying "h_started p"] by simp
  ultimately show "h_started p = map mark_executing (h_removed p)"
    using subseq_same_length list_emb_length by (metis le_antisym)
qed

definition filled :: "size_t \<Rightarrow> pool \<Rightarrow> bool" where
  "filled n p \<longleftrightarrow> list_all undying (h_added p) \<and> map task_runnable (h_added p) = [0..<unat n + unat n] \<and>
     started_runs p = runs (ws p)"

lemma filled_pool:
  assumes "session_sound n n ids me x" "s_life x = Working" "filled n (s_pool x)" "n \<noteq> 0"
  shows "length (tasks (mgr (s_pool x))) = unat n" "runs (ws (s_pool x)) = mset [0..<unat n]"
    "\<forall>q \<in> set (ws (s_pool x)). \<exists>t. q = W_Run (Some t)" "pending_task_count_max (mgr (s_pool x)) = n"
    "RemoveExpiredTasks cur (mgr (s_pool x)) = ([], mgr (s_pool x))"
proof -
  let ?p = "s_pool x" and ?cfg = "session_cfg n n ids me"
  have reach: "reach ?cfg ?p" using assms(1) by (simp add: session_sound_def)
  note workers = working_workers [OF assms(1,2)]
  have cap: "capacity_inv ?cfg ?p" using reach by (rule cap.always)
  then show max: "pending_task_count_max (mgr ?p) = n" using workers(3) by (auto simp: capacity_inv_def quiet_def)
  have room: "length (tasks (mgr ?p)) \<le> unat n" using cap assms(4) by (simp add: capacity_inv_def)
  have undying: "list_all undying (h_added ?p)" and added: "map task_runnable (h_added ?p) = [0..<unat n + unat n]"
    and runs: "started_runs ?p = runs (ws ?p)" using assms(3) by (simp_all add: filled_def)
  note pre = started_prefix [OF fifo.always [OF reach] served.always [OF reach] _ undying]
  have split: "h_added ?p = h_removed ?p @ tasks (mgr ?p)" and start: "h_started ?p = map mark_executing (h_removed ?p)"
    using pre by simp_all
  have len: "length (h_added ?p) = unat n + unat n" using arg_cong [OF added, of length] by simp
  have "length (h_started ?p) \<le> unat n" using runs_length [of "ws ?p"] workers(2) runs by (metis size_started_runs)
  with split len room start show tasks: "length (tasks (mgr ?p)) = unat n" by simp
  with split len have removed: "length (h_removed ?p) = unat n" by simp
  have "map task_runnable (h_started ?p) = map task_runnable (h_removed ?p)"
    using start by simp
  also have "\<dots> = take (unat n) [0..<unat n + unat n]"
    using split removed added by (metis append_eq_conv_conj map_append length_map)
  finally have "map task_runnable (h_started ?p) = take (unat n) [0..<unat n + unat n]" .
  then have "map task_runnable (h_started ?p) = [0..<unat n]" by (simp add: take_upt)
  then have "started_runs ?p = mset [0..<unat n]" by (metis started_runs_def mset_map)
  then show run: "runs (ws ?p) = mset [0..<unat n]" using runs by simp
  then show "\<forall>q \<in> set (ws ?p). \<exists>t. q = W_Run (Some t)" using workers(2) by (intro runs_full) simp
  have "list_all undying (tasks (mgr ?p))" using undying split by (simp add: list_all_iff)
  then show "RemoveExpiredTasks cur (mgr ?p) = ([], mgr ?p)" by (rule expire_undying)
qed

text \<open>What the caller sees.\<close>

lemma filled_counts:
  assumes "session_sound n n ids me x" "s_life x = Working" "filled n (s_pool x)" "n \<noteq> 0"
  shows "PendingTaskCount (mgr (s_pool x)) = n" "TotalTaskCount (mgr (s_pool x)) = n + n"
    "queue_full (mgr (s_pool x))"
proof -
  let ?p = "s_pool x" and ?cfg = "session_cfg n n ids me"
  note full = filled_pool [OF assms]
  show pending: "PendingTaskCount (mgr ?p) = n" using full(1) by (simp add: PendingTaskCount_def tasks_size_def)
  have "\<not> (\<exists>q \<in> set (ws ?p). idle_pc q)" using full(3) by fastforce
  then have "cnt idle_pc (ws ?p) = 0" by (simp add: cnt_zero_iff)
  moreover have "counter_inv ?p" using assms(1) session_managed(1) unfolding session_sound_def by blast
  ultimately have "idle_count (mgr ?p) = 0" by (simp add: counter_inv_def)
  then show "TotalTaskCount (mgr ?p) = n + n"
    using pending working_workers(4) [OF assms(1,2)] by (simp add: TotalTaskCount_def PendingTaskCount_def WorkerCount_def)
  show "queue_full (mgr ?p)" using full(1,4) assms(4) by (simp add: queue_full_def tasks_size_def word_gt_0)
qed

lemma filled_add:
  assumes "session_sound n n ids me x" "s_life x = Working" "filled n (s_pool x)" "n \<noteq> 0" "me \<notin> range ids"
    and "add_call (session_cfg n n ids me) 0 v limit ev (s_pool x) p"
  shows "ev \<noteq> Add_done"
    "ev = Add_threw e \<Longrightarrow> 0 < limit \<Longrightarrow> e = TimedOut_default"
    "ev = Add_threw e \<Longrightarrow> limit < 0 \<Longrightarrow> e \<in> {TimedOut_default, TooManyPendingTasks_default}"
    "mgr p = mgr (s_pool x) \<and> ws p = ws (s_pool x) \<and> h_added p = h_added (s_pool x) \<and> h_started p = h_started (s_pool x)"
proof -
  note full = filled_pool(5) [OF assms(1-4)] and queue = filled_counts(3) [OF assms(1-4)]
  have sleep: "CanSleep me (mgr (s_pool x))"
    using assms(1,5) may_sleep [of "session_cfg n n ids me" "s_pool x" me] by (simp add: session_sound_def)
  have st: "tm_state (mgr (s_pool x)) = STARTED" using working_workers(3) [OF assms(1,2)] .
  have all: "ev \<noteq> Add_done \<and> (ev = Add_threw e \<longrightarrow> 0 < limit \<longrightarrow> e = TimedOut_default) \<and>
      (ev = Add_threw e \<longrightarrow> limit < 0 \<longrightarrow> e \<in> {TimedOut_default, TooManyPendingTasks_default}) \<and>
      mgr p = mgr (s_pool x) \<and> ws p = ws (s_pool x) \<and> h_added p = h_added (s_pool x) \<and> h_started p = h_started (s_pool x)"
    using assms(6) full queue sleep st
  proof (induction rule: add_call.induct)
    case (call_queued p e locked cur cur2 notify calls m' ws')
    then show ?case by (auto simp: Add_enter_def split: if_splits)
  next
    case (call_waits p e locked cur cur2 calls m')
    then show ?case by (auto simp: Add_enter_def split: if_splits)
  next
    case (call_throws p e locked cur cur2 y calls m')
    then show ?case by (auto simp: Add_enter_def split: if_splits)
  next
    case (call_resume_queued p cur notify calls m' ws')
    then show ?case by (auto simp: Add_resume_def split: if_splits)
  next
    case (call_resume_waits p cur calls m')
    then show ?case by (auto simp: Add_resume_def split: if_splits)
  qed auto
  then show "ev \<noteq> Add_done" "ev = Add_threw e \<Longrightarrow> 0 < limit \<Longrightarrow> e = TimedOut_default"
    "ev = Add_threw e \<Longrightarrow> limit < 0 \<Longrightarrow> e \<in> {TimedOut_default, TooManyPendingTasks_default}"
    "mgr p = mgr (s_pool x) \<and> ws p = ws (s_pool x) \<and> h_added p = h_added (s_pool x) \<and> h_started p = h_started (s_pool x)"
    by blast+
qed

end
