(* ===== verification/Block_Test.thy ===== *)
theory Block_Test
  imports Load_Test Pool_Full
begin

text \<open>
  \<^verbatim>\<open>BlockTaskTest\<close> (\<^verbatim>\<open>src/threads/thread_manager_unittest.cc\<close>) on a pool of \<open>n\<close> workers with room for \<open>n\<close> pending
  tasks. Every \<^verbatim>\<open>BlockTask\<close> waits on \<^verbatim>\<open>bmonitor\<close> until the main thread notifies. The main thread fills the pool with
  \<open>2 n\<close> tasks, probes the full queue with two calls of \<open>Add\<close>, and lets the tasks go in three rounds.

  Task \<open>r < 2 n\<close> is the \<open>r\<close>-th in the order of the \<^verbatim>\<open>std::set\<close>, which sorts by address: \<open>bk_first\<close> says which positions
  belong to \<^verbatim>\<open>active_counts[0]\<close>. Task \<open>2 n\<close> is \<^verbatim>\<open>extra_task\<close>.
\<close>

subsection \<open>The test\<close>

datatype block_main =
    K_Add nat                  \<comment> \<open>setting up, or adding this task\<close>
  | K_Check
  | K_Probe nat                \<comment> \<open>0: \<^verbatim>\<open>Add(extra_task, 1)\<close>, 1: \<^verbatim>\<open>Add(extra_task, -1)\<close>, on the full queue\<close>
  | K_Notify nat               \<comment> \<open>before \<^verbatim>\<open>bmonitor.NotifyAll()\<close> of this round\<close>
  | K_Test nat                 \<comment> \<open>at \<^verbatim>\<open>while (active_counts[i] != 0)\<close>\<close>
  | K_Waiting nat
  | K_Add_extra
  | K_Last
  | K_Leave "string option"    \<comment> \<open>in the destructor of the manager, with the message that \<^verbatim>\<open>catch\<close> logs\<close>

datatype block_pc = B_Begin | B_Waiting | B_Woken

record block_test =
  bt_session :: session
  active_counts :: "nat \<Rightarrow> size_t"
  success :: bool
  bt_main :: block_main
  bt_pc :: "nat \<Rightarrow> block_pc"
  bt_returned :: "runnable_ref multiset"

record block_cfg =
  bk_workers :: size_t
  bk_first :: "nat \<Rightarrow> bool"
  bk_ids :: "thread_ref \<Rightarrow> pthread_t"
  bk_main :: pthread_t

abbreviation block_pool :: "block_cfg \<Rightarrow> pool_cfg" where
  "block_pool c \<equiv> session_cfg (bk_workers c) (bk_workers c) (bk_ids c) (bk_main c)"

definition block_tasks :: "block_cfg \<Rightarrow> nat" where
  "block_tasks c = unat (bk_workers c) + unat (bk_workers c)"

definition block_group :: "block_cfg \<Rightarrow> runnable_ref \<Rightarrow> nat" where
  "block_group c r = (if r < block_tasks c then if bk_first c r then 0 else 1 else 2)"

definition next_block :: "block_cfg \<Rightarrow> nat \<Rightarrow> block_main" where
  "next_block c j = (if j < block_tasks c then K_Add j else K_Check)"

definition block_start :: "block_cfg \<Rightarrow> block_test \<Rightarrow> bool" where
  "block_start c x \<longleftrightarrow> session_start (bt_session x) \<and>
     active_counts x = (\<lambda>i. if i < 2 then bk_workers c else 1) \<and> \<not> success x \<and>
     bt_main x = next_block c 0 \<and> bt_pc x = (\<lambda>_. B_Begin) \<and> bt_returned x = {#}"

text \<open>\<^verbatim>\<open>BlockTask::Run\<close>, by worker \<open>w\<close> on task \<open>r\<close>: the wait on \<^verbatim>\<open>bmonitor\<close>, and the section under \<^verbatim>\<open>monitor\<close>.\<close>

fun wake_block :: "block_main \<Rightarrow> block_main" where
  "wake_block (K_Waiting i) = K_Test i"
| "wake_block p = p"

definition BlockTask_wait :: "nat \<Rightarrow> block_test \<Rightarrow> block_test" where
  "BlockTask_wait w x = x\<lparr>bt_pc := (bt_pc x)(w := B_Waiting)\<rparr>"

definition BlockTask_section :: "block_cfg \<Rightarrow> runnable_ref \<Rightarrow> block_test \<Rightarrow> block_test" where
  "BlockTask_section c r x =
     (let i = block_group c r; count = active_counts x i - 1
      in x\<lparr>active_counts := (active_counts x)(i := count),
           bt_main := if count = 0 then wake_block (bt_main x) else bt_main x\<rparr>)"

text \<open>The main thread: what follows a call of \<open>Add\<close>, and its own sections.\<close>

definition BlockTest_added :: "block_cfg \<Rightarrow> nat \<Rightarrow> add_event \<Rightarrow> block_main" where
  "BlockTest_added c j ev = (case ev of Add_pending \<Rightarrow> K_Add j | Add_done \<Rightarrow> next_block c (Suc j)
     | Add_threw e \<Rightarrow> K_Leave (Some (what e)))"

definition BlockTest_check :: "block_cfg \<Rightarrow> block_test \<Rightarrow> block_test" where
  "BlockTest_check c x =
     (let ok = TotalTaskCount (mgr (s_pool (bt_session x))) = bk_workers c + bk_workers c
      in x\<lparr>success := ok, bt_main := if ok then K_Probe 0 else K_Leave (Some ''Unexpected pending task count'')\<rparr>)"

fun BlockTest_probed :: "nat \<Rightarrow> add_event \<Rightarrow> block_main" where
  "BlockTest_probed k Add_pending = K_Probe k"
| "BlockTest_probed k Add_done = K_Leave (Some
     (if k = 0 then ''Unexpected success adding task in excess of pending task count''
      else ''Unexpected success adding task in excess of pending task coutn''))"
| "BlockTest_probed k (Add_threw (TimedOutException m)) =
     (if k = 0 then K_Probe 1
      else K_Leave (Some ''Unexpected timeout adding task in excess of pending task count''))"
| "BlockTest_probed k (Add_threw (TooManyPendingTasksException m)) =
     (if k = 0 then K_Leave (Some ''Should have timed out adding task in excess of pending task count'')
      else K_Notify 0)"
| "BlockTest_probed k (Add_threw e) = K_Leave (Some (what e))"

definition BlockTest_notify :: "nat \<Rightarrow> block_test \<Rightarrow> block_test" where
  "BlockTest_notify i x =
     x\<lparr>bt_main := K_Test i, bt_pc := (\<lambda>w. if bt_pc x w = B_Waiting then B_Woken else bt_pc x w)\<rparr>"

definition BlockTest_wait :: "nat \<Rightarrow> block_test \<Rightarrow> block_test" where
  "BlockTest_wait i x = x\<lparr>bt_main := if active_counts x i \<noteq> 0 then K_Waiting i
     else if i = 0 then K_Add_extra else if i = 1 then K_Notify 2 else K_Last\<rparr>"

fun BlockTest_extra :: "add_event \<Rightarrow> block_main" where
  "BlockTest_extra Add_pending = K_Add_extra"
| "BlockTest_extra Add_done = K_Notify 1"
| "BlockTest_extra (Add_threw (TimedOutException m)) = K_Leave (Some ''Unexpected timeout adding task'')"
| "BlockTest_extra (Add_threw (TooManyPendingTasksException m)) = K_Leave (Some ''Unexpected timeout adding task'')"
| "BlockTest_extra (Add_threw e) = K_Leave (Some (what e))"

definition BlockTest_last :: "block_test \<Rightarrow> block_test" where
  "BlockTest_last x =
     (let ok = TotalTaskCount (mgr (s_pool (bt_session x))) = 0
      in x\<lparr>success := ok, bt_main := K_Leave (if ok then None else Some ''Unexpected pending task count'')\<rparr>)"

text \<open>The value that the function returns.\<close>

definition BlockTaskTest_result :: "block_test \<Rightarrow> bool option" where
  "BlockTaskTest_result x =
     (case bt_main x of K_Leave m \<Rightarrow> if s_life (bt_session x) = Ended then Some (success x) else None | _ \<Rightarrow> None)"

text \<open>Which task, with which timeout, is passed to \<open>Add\<close>, and where the test goes on.\<close>

definition block_adds :: "block_cfg \<Rightarrow> block_main \<Rightarrow> (runnable_ref \<times> int64) option" where
  "block_adds c m = (case m of K_Add j \<Rightarrow> Some (j, 0) | K_Probe k \<Rightarrow> Some (block_tasks c, if k = 0 then 1 else -1)
     | K_Add_extra \<Rightarrow> Some (block_tasks c, 1) | _ \<Rightarrow> None)"

definition block_after :: "block_cfg \<Rightarrow> block_main \<Rightarrow> add_event \<Rightarrow> block_main" where
  "block_after c m ev = (case m of K_Add j \<Rightarrow> BlockTest_added c j ev | K_Probe k \<Rightarrow> BlockTest_probed k ev
     | _ \<Rightarrow> BlockTest_extra ev)"

text \<open>An attempt to lock fails only if another thread is in a section of the manager: no worker that runs a task is.\<close>

definition lock_contended :: "pool \<Rightarrow> bool" where
  "lock_contended p \<longleftrightarrow> (\<exists>q \<in> set (ws p). \<forall>t. q \<noteq> W_Run (Some t))"

inductive block_step :: "block_cfg \<Rightarrow> block_test \<Rightarrow> block_test \<Rightarrow> bool" for c where
  block_call:
    "\<lbrakk>control_call (block_pool c) load_factory (bt_session x) s;
      s_life (bt_session x) = Working \<longrightarrow> (\<exists>m. bt_main x = K_Leave m)\<rbrakk> \<Longrightarrow>
     block_step c x (x\<lparr>bt_session := s\<rparr>)"
| block_add:
    "\<lbrakk>block_adds c (bt_main x) = Some (r, limit); s_life (bt_session x) = Working; bt_session x = s;
      add_call (block_pool c) 0 r limit ev (s_pool s) p; add_waiting (cs (s_pool s) ! 0) \<longrightarrow> ev \<noteq> Add_pending;
      limit < 0 \<and> ev = Add_threw TimedOut_default \<longrightarrow> lock_contended (s_pool s)\<rbrakk> \<Longrightarrow>
     block_step c x (x\<lparr>bt_session := s\<lparr>s_pool := p\<rparr>, bt_main := block_after c (bt_main x) ev\<rparr>)"
| block_check: "\<lbrakk>bt_main x = K_Check; s_life (bt_session x) = Working\<rbrakk> \<Longrightarrow> block_step c x (BlockTest_check c x)"
| block_notify: "bt_main x = K_Notify i \<Longrightarrow> block_step c x (BlockTest_notify i x)"
| block_test: "bt_main x = K_Test i \<Longrightarrow> block_step c x (BlockTest_wait i x)"
| block_last: "bt_main x = K_Last \<Longrightarrow> block_step c x (BlockTest_last x)"
| block_worker:
    "\<lbrakk>bt_session x = s; work (s_pool s) p; \<not> job_ends (s_pool s) p\<rbrakk> \<Longrightarrow> block_step c x (x\<lparr>bt_session := s\<lparr>s_pool := p\<rparr>\<rparr>)"
| block_wait:
    "\<lbrakk>runs_task w r (s_pool (bt_session x)); bt_pc x w = B_Begin\<rbrakk> \<Longrightarrow> block_step c x (BlockTask_wait w x)"
| block_section:
    "\<lbrakk>bt_pc x w = B_Woken; bt_session x = s; task_ends w t (s_pool s) p\<rbrakk> \<Longrightarrow>
     block_step c x ((BlockTask_section c (task_runnable t) x)\<lparr>bt_session := s\<lparr>s_pool := p\<rparr>, bt_pc := (bt_pc x)(w := B_Begin),
       bt_returned := add_mset (task_runnable t) (bt_returned x)\<rparr>)"

text \<open>Unnotified wake-ups, but of the tasks.\<close>

inductive block_wakes :: "block_cfg \<Rightarrow> block_test \<Rightarrow> block_test \<Rightarrow> bool" for c where
  block_spurious_main: "bt_main x = K_Waiting i \<Longrightarrow> block_wakes c x (x\<lparr>bt_main := K_Test i\<rparr>)"
| block_spurious_worker:
    "\<lbrakk>bt_session x = s; worker_step (s_pool s) p; wakes_up (s_pool s) p\<rbrakk> \<Longrightarrow> block_wakes c x (x\<lparr>bt_session := s\<lparr>s_pool := p\<rparr>\<rparr>)"
| block_spurious_call:
    "\<lbrakk>bt_session x = s; mgr_waiting (cs (s_pool s) ! 0);
      p = (s_pool s)\<lparr>cs := (cs (s_pool s))[0 := wake_mgr (cs (s_pool s) ! 0)]\<rparr>\<rbrakk> \<Longrightarrow>
     block_wakes c x (x\<lparr>bt_session := s\<lparr>s_pool := p\<rparr>\<rparr>)"
| block_spurious_add:
    "\<lbrakk>block_adds c (bt_main x) = Some (r, limit); s_life (bt_session x) = Working; bt_session x = s;
      add_call (block_pool c) 0 r limit Add_pending (s_pool s) p; add_waiting (cs (s_pool s) ! 0)\<rbrakk> \<Longrightarrow>
     block_wakes c x (x\<lparr>bt_session := s\<lparr>s_pool := p\<rparr>\<rparr>)"

abbreviation block_reach :: "block_cfg \<Rightarrow> block_test \<Rightarrow> bool" where
  "block_reach c \<equiv> reachable (block_start c) (\<lambda>x y. block_step c x y \<or> block_wakes c x y)"

lemma block_session_move:
  assumes "block_step c x y \<or> block_wakes c x y"
  shows "\<exists>d. session_move (block_pool c) load_factory d (bt_session x) (bt_session y) \<and> bt_returned y = bt_returned x + d"
  using assms
proof (elim disjE)
  assume "block_step c x y"
  then show ?thesis
  proof (induction rule: block_step.induct)
    case (block_call x s)
    from move_call [OF block_call(1)] show ?case by auto
  next
    case (block_add x r limit s ev p)
    from move_add [of s] block_add show ?case by auto
  next
    case (block_worker x s p)
    from move_worker [of s p] block_worker show ?case by (auto simp: work_def)
  next
    case (block_section x w s t p)
    from move_returns [of w t s p] block_section show ?case by (auto simp: BlockTask_section_def Let_def)
  qed (auto simp: BlockTest_check_def BlockTest_notify_def BlockTest_wait_def BlockTest_last_def BlockTask_wait_def Let_def
      intro: move_none)
next
  assume "block_wakes c x y"
  then show ?thesis
  proof (induction rule: block_wakes.induct)
    case (block_spurious_main x i)
    then show ?case by (auto intro: move_none)
  next
    case (block_spurious_worker x s p)
    from move_worker [of s p] block_spurious_worker wakes_up_not_ends show ?case by auto
  next
    case (block_spurious_call x s p)
    from move_wakes [of s p] block_spurious_call show ?case by auto
  next
    case (block_spurious_add x r limit s p)
    from move_add [of s] block_spurious_add show ?case by auto
  qed
qed

interpretation block: session_client "bk_workers c" "bk_workers c" "bk_ids c" "bk_main c" load_factory "block_start c"
    "\<lambda>x y. block_step c x y \<or> block_wakes c x y" bt_session bt_returned
  by unfold_locales (simp add: block_start_def, erule block_session_move)

subsection \<open>The invariant\<close>

text \<open>How far the main thread is: before the first \<^verbatim>\<open>NotifyAll\<close>, in the wait that follows it, past that wait, leaving.\<close>

fun block_stage :: "block_main \<Rightarrow> nat" where
  "block_stage (K_Add j) = 0"
| "block_stage K_Check = 0"
| "block_stage (K_Probe k) = 0"
| "block_stage (K_Notify i) = (if i = 0 then 0 else 2)"
| "block_stage (K_Test i) = (if i = 0 then 1 else 2)"
| "block_stage (K_Waiting i) = (if i = 0 then 1 else 2)"
| "block_stage K_Add_extra = 2"
| "block_stage K_Last = 2"
| "block_stage (K_Leave m) = 3"

definition in_order :: "block_cfg \<Rightarrow> bool" where
  "in_order c \<longleftrightarrow> (\<forall>r < unat (bk_workers c). bk_first c r)"

definition all_added :: "block_cfg \<Rightarrow> block_main \<Rightarrow> Task list \<Rightarrow> bool" where
  "all_added c m ts \<longleftrightarrow> list_all undying ts \<and> map task_runnable ts = [0..<length ts] \<and>
     (case m of K_Add j \<Rightarrow> j = length ts \<and> j < block_tasks c | _ \<Rightarrow> length ts = block_tasks c)"

definition first_count :: "block_cfg \<Rightarrow> block_test \<Rightarrow> bool" where
  "first_count c x \<longleftrightarrow>
     active_counts x 0 = bk_workers c - of_nat (size (filter_mset (\<lambda>r. block_group c r = 0) (bt_returned x)))"

definition block_pcs :: "block_test \<Rightarrow> bool" where
  "block_pcs x \<longleftrightarrow> (\<forall>w. bt_pc x w \<noteq> B_Begin \<longrightarrow> (\<exists>r. runs_task w r (s_pool (bt_session x))))"

definition woken_first :: "block_cfg \<Rightarrow> block_test \<Rightarrow> bool" where
  "woken_first c x \<longleftrightarrow> (\<forall>w. bt_pc x w = B_Woken \<longrightarrow> (\<exists>r < unat (bk_workers c). runs_task w r (s_pool (bt_session x)))) \<and>
     (\<forall>r \<in># bt_returned x. r < unat (bk_workers c))"

definition stage_inv :: "block_cfg \<Rightarrow> block_test \<Rightarrow> bool" where
  "stage_inv c x \<longleftrightarrow>
     (block_stage (bt_main x) = 0 \<longrightarrow> bt_returned x = {#} \<and> (\<forall>w. bt_pc x w \<noteq> B_Woken) \<and> first_count c x) \<and>
     (block_stage (bt_main x) = 1 \<longrightarrow> woken_first c x \<and> first_count c x) \<and>
     (block_stage (bt_main x) = 2 \<longrightarrow> in_order c) \<and>
     (block_stage (bt_main x) = 3 \<and> success x \<longrightarrow> in_order c)"

fun script_fits :: "block_main \<Rightarrow> bool \<Rightarrow> session_life \<Rightarrow> bool" where
  "script_fits (K_Add j) ok l \<longleftrightarrow> \<not> ok \<and> l \<notin> {Stopping_down, Ended}"
| "script_fits K_Check ok l \<longleftrightarrow> \<not> ok \<and> l \<notin> {Stopping_down, Ended}"
| "script_fits (K_Leave m) ok l \<longleftrightarrow> True"
| "script_fits m ok l \<longleftrightarrow> l = Working"

abbreviation block_script :: "block_test \<Rightarrow> bool" where
  "block_script x \<equiv> script_fits (bt_main x) (success x) (s_life (bt_session x))"

definition block_inv :: "block_cfg \<Rightarrow> block_test \<Rightarrow> bool" where
  "block_inv c x \<longleftrightarrow>
     (block_stage (bt_main x) < 2 \<longrightarrow> all_added c (bt_main x) (h_added (s_pool (bt_session x)))) \<and>
     block_pcs x \<and> stage_inv c x \<and> block_script x"

lemma block_inv_start: "block_start c x \<Longrightarrow> block_inv c x"
  by (auto simp: block_start_def block_inv_def all_added_def block_pcs_def stage_inv_def first_count_def
      next_block_def session_start_def pool_init_def)

text \<open>Steps of the pool that leave the test alone.\<close>

lemma keeps_task: "keeps_running (ws p) (ws p') \<Longrightarrow> runs_task w r p \<Longrightarrow> runs_task w r p'"
  by (auto simp: runs_task_def keeps_running_def)

lemma block_inv_pool:
  assumes "block_inv c x" "keeps_running (ws (s_pool (bt_session x))) (ws (s_pool s))"
    and "h_added (s_pool s) = h_added (s_pool (bt_session x))" "block_script (x\<lparr>bt_session := s\<rparr>)"
  shows "block_inv c (x\<lparr>bt_session := s\<rparr>)"
proof -
  note keep = keeps_task [OF assms(2)]
  have "block_pcs (x\<lparr>bt_session := s\<rparr>)" using assms(1) keep unfolding block_inv_def block_pcs_def by (simp, metis)
  moreover have "woken_first c x \<Longrightarrow> woken_first c (x\<lparr>bt_session := s\<rparr>)"
    using keep unfolding woken_first_def by (simp, metis)
  ultimately show ?thesis using assms(1,3,4) by (auto simp: block_inv_def stage_inv_def first_count_def)
qed

lemma block_inv_call:
  assumes "control_call (block_pool c) load_factory (bt_session x) s" "s_life (bt_session x) = Working \<longrightarrow> (\<exists>m. bt_main x = K_Leave m)"
    and "block_inv c x" "block_reach c x" "block_reach c (x\<lparr>bt_session := s\<rparr>)"
  shows "block_inv c (x\<lparr>bt_session := s\<rparr>)"
proof (rule block_inv_pool [OF assms(3)])
  have one: "length (cs (s_pool (bt_session x))) = 1" using block.sound [OF assms(4)] by (rule sound_one_client)
  note keeps = control_call_keeps [OF assms(1) one]
  show "keeps_running (ws (s_pool (bt_session x))) (ws (s_pool s))" "h_added (s_pool s) = h_added (s_pool (bt_session x))"
    using keeps by simp_all
  have "\<nexists>e. s_life s = Failed e" using sound_not_failed [OF block.sound [OF assms(5)]] by simp
  from control_call_life [OF assms(1) this] assms(2,3) show "block_script (x\<lparr>bt_session := s\<rparr>)"
    by (cases "bt_main x") (auto simp: block_inv_def split: if_splits)
qed

lemma block_inv_worker:
  assumes "bt_session x = s" "worker_step (s_pool s) p" "\<not> job_ends (s_pool s) p" "block_inv c x"
  shows "block_inv c (x\<lparr>bt_session := s\<lparr>s_pool := p\<rparr>\<rparr>)"
  using worker_keeps_running [OF assms(2,3)] worker_added [OF assms(2)] assms(1,4)
  by (intro block_inv_pool) (auto simp: block_inv_def)

text \<open>Before the first \<^verbatim>\<open>NotifyAll\<close> no task has returned: with all tasks added the pool is full.\<close>

lemma block_filled:
  assumes "block_reach c x" "block_inv c x" "block_stage (bt_main x) = 0" "\<forall>j. bt_main x \<noteq> K_Add j"
  shows "filled (bk_workers c) (s_pool (bt_session x))"
proof -
  let ?p = "s_pool (bt_session x)"
  have "bt_returned x = {#}" using assms(2,3) by (simp add: block_inv_def stage_inv_def)
  then have runs: "started_runs ?p = runs (ws ?p)" using block.accounted [OF assms(1)] by simp
  have "all_added c (bt_main x) (h_added ?p)" using assms(2,3) by (simp add: block_inv_def)
  then have "list_all undying (h_added ?p) \<and> map task_runnable (h_added ?p) = [0..<block_tasks c]"
    using assms(4) by (cases "bt_main x") (auto simp: all_added_def)
  with runs show ?thesis by (simp add: filled_def block_tasks_def)
qed

lemma block_probe_outcome:
  assumes "block_reach c x" "block_inv c x" "bt_main x = K_Probe k" "bk_workers c \<noteq> 0" "bk_main c \<notin> range (bk_ids c)"
    and "add_call (block_pool c) 0 r (if k = 0 then 1 else - 1) ev (s_pool (bt_session x)) p"
    and "k \<noteq> 0 \<and> ev = Add_threw TimedOut_default \<longrightarrow> lock_contended (s_pool (bt_session x))"
  shows "BlockTest_probed k ev \<in> (if k = 0 then {K_Probe 0, K_Probe 1} else {K_Probe k, K_Notify 0})"
    "h_added p = h_added (s_pool (bt_session x))" "ws p = ws (s_pool (bt_session x))"
proof -
  let ?s = "bt_session x"
  have life: "s_life ?s = Working" using assms(2,3) by (simp add: block_inv_def)
  have fill: "filled (bk_workers c) (s_pool ?s)" using assms(3) by (intro block_filled [OF assms(1,2)]) simp_all
  note out = filled_add [OF block.sound [OF assms(1)] life fill assms(4,5,6)]
  show "h_added p = h_added (s_pool ?s)" "ws p = ws (s_pool ?s)" using out(4) by simp_all
  have free: "\<not> lock_contended (s_pool ?s)"
    using filled_pool(3) [OF block.sound [OF assms(1)] life fill assms(4)] by (auto simp: lock_contended_def)
  show "BlockTest_probed k ev \<in> (if k = 0 then {K_Probe 0, K_Probe 1} else {K_Probe k, K_Notify 0})"
    using out(1-3) assms(7) free by (cases ev) (auto simp: TimedOut_default_def TooManyPendingTasks_default_def)
qed

lemma stage_inv_same:
  assumes "stage_inv c x" "block_stage m = block_stage (bt_main x)" "keeps_running (ws (s_pool (bt_session x))) (ws (s_pool s))"
  shows "stage_inv c (x\<lparr>bt_session := s, bt_main := m\<rparr>)"
proof -
  have "woken_first c x \<Longrightarrow> woken_first c (x\<lparr>bt_session := s, bt_main := m\<rparr>)"
    using keeps_task [OF assms(3)] unfolding woken_first_def by (simp, metis)
  with assms(1,2) show ?thesis by (simp add: stage_inv_def first_count_def)
qed

lemma block_pcs_keep:
  "block_pcs x \<Longrightarrow> keeps_running (ws (s_pool (bt_session x))) (ws (s_pool s)) \<Longrightarrow> block_pcs (x\<lparr>bt_session := s, bt_main := m\<rparr>)"
  using keeps_task unfolding block_pcs_def by (simp, metis)

lemma block_inv_add:
  assumes "block_adds c (bt_main x) = Some (r, limit)" "s_life (bt_session x) = Working" "bt_session x = s"
    and "add_call (block_pool c) 0 r limit ev (s_pool s) p" "limit < 0 \<and> ev = Add_threw TimedOut_default \<longrightarrow> lock_contended (s_pool s)"
    and "block_inv c x" "block_reach c x" "bk_workers c \<noteq> 0" "bk_main c \<notin> range (bk_ids c)"
  shows "block_inv c (x\<lparr>bt_session := s\<lparr>s_pool := p\<rparr>, bt_main := block_after c (bt_main x) ev\<rparr>)"
proof -
  have keep: "keeps_running (ws (s_pool (bt_session x))) (ws (s_pool (s\<lparr>s_pool := p\<rparr>)))"
    using task_keeps_running [OF add_call_step [OF assms(4)]] assms(3) by simp
  have inv: "block_pcs x" "stage_inv c x" "block_script x" using assms(6) by (simp_all add: block_inv_def)
  note pcs = block_pcs_keep [OF inv(1) keep, of "block_after c (bt_main x) ev"]
  note stage = stage_inv_same [OF inv(2) _ keep, of "block_after c (bt_main x) ev"]
  show ?thesis
  proof (cases "bt_main x")
    case (K_Add j)
    then have eq: "block_after c (bt_main x) ev = BlockTest_added c j ev" "r = j" using assms(1)
      by (simp_all add: block_after_def block_adds_def)
    have a: "all_added c (K_Add j) (h_added (s_pool s))" using K_Add assms(3,6) by (simp add: block_inv_def)
    have ok: "\<not> success x" using inv(3) K_Add by simp
    show ?thesis
    proof (cases ev)
      case Add_pending
      with a ok pcs stage eq K_Add assms(2,3) add_call_added [OF assms(4)] show ?thesis
        by (simp add: block_inv_def BlockTest_added_def)
    next
      case Add_done
      then obtain t where t: "h_added p = h_added (s_pool s) @ [t]" "task_runnable t = j" "undying t"
        using add_call_added [OF assms(4)] eq(2) by auto
      have "all_added c (next_block c (Suc j)) (h_added p)" "block_stage (next_block c (Suc j)) = 0"
        using a t by (auto simp: all_added_def next_block_def)
      with ok pcs stage eq K_Add assms(2,3) Add_done show ?thesis
        by (simp add: block_inv_def BlockTest_added_def next_block_def)
    next
      case (Add_threw e)
      with ok pcs stage eq K_Add assms(2,3) inv(2) show ?thesis
        by (simp add: block_inv_def BlockTest_added_def stage_inv_def)
    qed
  next
    case (K_Probe k)
    then have eq: "block_after c (bt_main x) ev = BlockTest_probed k ev" "limit = (if k = 0 then 1 else - 1)" using assms(1)
      by (simp_all add: block_after_def block_adds_def)
    have call: "add_call (block_pool c) 0 r (if k = 0 then 1 else - 1) ev (s_pool (bt_session x)) p"
      using assms(3,4) eq(2) by simp
    have lock: "k \<noteq> 0 \<and> ev = Add_threw TimedOut_default \<longrightarrow> lock_contended (s_pool (bt_session x))"
      using assms(3,5) eq(2) by auto
    note out = block_probe_outcome [OF assms(7,6) K_Probe assms(8,9) call lock]
    have a: "all_added c (K_Probe k) (h_added (s_pool s))" using K_Probe assms(3,6) by (simp add: block_inv_def)
    have "block_stage (BlockTest_probed k ev) = 0" "script_fits (BlockTest_probed k ev) (success x) Working"
      "all_added c (BlockTest_probed k ev) (h_added (s_pool s))"
      using out(1) a by (auto simp: all_added_def split: if_splits)
    with pcs stage eq K_Probe assms(2,3) out(2) show ?thesis by (simp add: block_inv_def)
  next
    case K_Add_extra
    then have eq: "block_after c (bt_main x) ev = BlockTest_extra ev" by (simp add: block_after_def)
    have "in_order c" using inv(2) K_Add_extra by (simp add: stage_inv_def)
    moreover have "block_stage (BlockTest_extra ev) \<ge> 2 \<and> script_fits (BlockTest_extra ev) (success x) Working"
      by (cases ev rule: BlockTest_extra.cases) auto
    ultimately show ?thesis using pcs eq assms(2,3) by (simp add: block_inv_def stage_inv_def)
  qed (use assms(1) in \<open>simp_all add: block_adds_def\<close>)
qed

text \<open>The first \<^verbatim>\<open>NotifyAll\<close> reaches tasks among the first \<open>n\<close> only.\<close>

lemma block_inv_notify:
  assumes "block_inv c x" "block_reach c x" "bt_main x = K_Notify i" "bk_workers c \<noteq> 0"
  shows "block_inv c (BlockTest_notify i x)"
proof -
  let ?p = "s_pool (bt_session x)" and ?y = "BlockTest_notify i x"
  have inv: "block_pcs x" "stage_inv c x" "block_script x" using assms(1) by (simp_all add: block_inv_def)
  have "block_pcs ?y" using inv(1) by (auto simp: block_pcs_def BlockTest_notify_def)
  moreover have "block_script ?y" using inv(3) assms(3) by (simp add: BlockTest_notify_def)
  moreover have "stage_inv c ?y"
  proof (cases "i = 0")
    case True
    then have zero: "bt_main x = K_Notify 0" using assms(3) by simp
    then have fill: "filled (bk_workers c) ?p" by (intro block_filled [OF assms(2,1)]) simp_all
    have "s_life (bt_session x) = Working" using inv(3) zero by simp
    note full = filled_pool(2) [OF block.sound [OF assms(2)] this fill assms(4)]
    have none: "bt_returned x = {#}" "\<forall>w. bt_pc x w \<noteq> B_Woken" "first_count c x" using inv(2) zero by (simp_all add: stage_inv_def)
    have "\<exists>r < unat (bk_workers c). runs_task w r ?p" if "bt_pc x w = B_Waiting" for w
    proof -
      have "\<exists>r. runs_task w r ?p" using inv(1) that by (simp add: block_pcs_def)
      then obtain r where r: "runs_task w r ?p" ..
      then have "r \<in># runs (ws ?p)" using runs_member by (auto simp: runs_task_def)
      with full r show ?thesis by auto
    qed
    with none have "woken_first c ?y" by (auto simp: woken_first_def BlockTest_notify_def)
    moreover have "first_count c ?y" using none by (simp add: first_count_def BlockTest_notify_def)
    ultimately show ?thesis using True by (simp add: stage_inv_def BlockTest_notify_def)
  next
    case False
    with inv(2) assms(3) show ?thesis by (simp add: stage_inv_def BlockTest_notify_def)
  qed
  moreover have "all_added c (K_Test i) (h_added ?p)" if "i = 0" using assms(1,3) that by (simp add: block_inv_def all_added_def)
  ultimately show ?thesis by (simp add: block_inv_def BlockTest_notify_def)
qed

lemma first_wait_over:
  assumes "block_inv c x" "block_reach c x" "bt_main x = K_Test 0" "active_counts x 0 = 0"
  shows "in_order c"
proof -
  let ?p = "s_pool (bt_session x)" and ?n = "unat (bk_workers c)"
  let ?F = "filter_mset (\<lambda>r. block_group c r = 0) (bt_returned x)"
  have inv: "woken_first c x" "first_count c x" using assms(1,3) by (simp_all add: block_inv_def stage_inv_def)
  have added: "map task_runnable (h_added ?p) = [0..<length (h_added ?p)]"
    using assms(1,3) by (simp add: block_inv_def all_added_def)
  have "count (bt_returned x) r \<le> 1" for r
    using started_once [OF _ added, of "block_pool c" r] block.sound [OF assms(2)] block.accounted [OF assms(2)]
    by (simp add: session_sound_def)
  moreover have "count (bt_returned x) r = 0" if "\<not> r < ?n" for r
    using inv(1) that by (metis woken_first_def not_in_iff)
  moreover have "count (mset [0..<?n]) r = (if r < ?n then 1 else 0)" for r by (simp add: count_mset_set')
  ultimately have "count (bt_returned x) r \<le> count (mset [0..<?n]) r" for r by (cases "r < ?n") simp_all
  then have sub: "bt_returned x \<subseteq># mset [0..<?n]" by (rule mset_subset_eqI)
  have bound: "size ?F \<le> size (bt_returned x)" "size (bt_returned x) \<le> ?n" using size_mset_mono [OF sub] by (simp_all add: size_filter_mset_lesseq)
  have "bk_workers c = of_nat (size ?F)" using inv(2) assms(4) by (simp add: first_count_def)
  then have "?n \<le> size ?F" by (simp add: unat_of_nat)
  with bound sub have "bt_returned x = mset [0..<?n]" "?F = bt_returned x"
    using subset_mset_full [of "bt_returned x" "mset [0..<?n]"] subset_mset_full [of ?F "bt_returned x"] by simp_all
  then have "\<forall>r < ?n. block_group c r = 0" by (metis (mono_tags, lifting) atLeast0LessThan filter_mset_eq_conv lessThan_iff set_mset_mset set_upt)
  then show ?thesis by (auto simp: in_order_def block_group_def block_tasks_def split: if_splits)
qed

text \<open>The other steps of the main thread, and those of the tasks.\<close>

lemma block_inv_wait:
  assumes "block_inv c x" "block_reach c x" "bt_main x = K_Test i"
  shows "block_inv c (BlockTest_wait i x)"
proof -
  obtain m where y: "BlockTest_wait i x = x\<lparr>bt_session := bt_session x, bt_main := m\<rparr>" and
    m: "active_counts x i \<noteq> 0 \<Longrightarrow> m = K_Waiting i" by (simp add: BlockTest_wait_def)
  have inv: "block_pcs x" "stage_inv c x" "block_script x" using assms(1) by (simp_all add: block_inv_def)
  have pcs: "block_pcs (BlockTest_wait i x)" unfolding y by (rule block_pcs_keep [OF inv(1)]) simp
  show ?thesis
  proof (cases "active_counts x i = 0")
    case True
    then have "in_order c" using first_wait_over [OF assms(1,2)] assms(3) inv(2) by (cases "i = 0") (auto simp: stage_inv_def)
    with True pcs inv(3) assms(3) show ?thesis by (auto simp: block_inv_def stage_inv_def BlockTest_wait_def)
  next
    case False
    have "stage_inv c (BlockTest_wait i x)" unfolding y
      by (rule stage_inv_same [OF inv(2)]) (use m [OF False] assms(3) in simp_all)
    with False pcs inv(3) assms(1,3) show ?thesis
      by (auto simp: block_inv_def BlockTest_wait_def all_added_def)
  qed
qed

lemma wake_block_stage [simp]:
  "block_stage (wake_block m) = block_stage m" "script_fits (wake_block m) ok l = script_fits m ok l"
  by (cases m; simp)+

lemma wake_block_added: "block_stage m < 2 \<Longrightarrow> all_added c (wake_block m) ts = all_added c m ts"
  by (cases m) (simp_all add: all_added_def)

lemma BlockTask_section_simps [simp]:
  "block_stage (bt_main (BlockTask_section c r x)) = block_stage (bt_main x)"
  "success (BlockTask_section c r x) = success x"
  by (simp_all add: BlockTask_section_def Let_def)

lemma block_inv_section:
  assumes "bt_pc x w = B_Woken" "bt_session x = s" "task_ends w t (s_pool s) p" "block_inv c x"
  shows "block_inv c ((BlockTask_section c (task_runnable t) x)\<lparr>bt_session := s\<lparr>s_pool := p\<rparr>, bt_pc := (bt_pc x)(w := B_Begin),
       bt_returned := add_mset (task_runnable t) (bt_returned x)\<rparr>)" (is "block_inv c ?y")
proof -
  have inv: "block_pcs x" "stage_inv c x" "block_script x" using assms(4) by (simp_all add: block_inv_def)
  have run: "runs_task v r (s_pool (bt_session x)) \<Longrightarrow> v \<noteq> w \<Longrightarrow> runs_task v r p" for v r
    using assms(2,3) by (auto simp: runs_task_def task_ends_def)
  have me: "runs_task w r (s_pool (bt_session x)) \<longleftrightarrow> r = task_runnable t" for r
    using assms(2,3) by (auto simp: runs_task_def task_ends_def)
  have y: "bt_pc ?y = (bt_pc x)(w := B_Begin)" "s_pool (bt_session ?y) = p" "block_stage (bt_main ?y) = block_stage (bt_main x)"
    "success ?y = success x" "bt_returned ?y = add_mset (task_runnable t) (bt_returned x)" "s_life (bt_session ?y) = s_life s"
    by (simp_all add: BlockTask_section_def Let_def)
  have pcs: "block_pcs ?y" using inv(1) run unfolding block_pcs_def y by (metis fun_upd_apply)
  have script: "block_script ?y" using inv(3) assms(2) by (simp add: BlockTask_section_def Let_def)
  have h: "h_added p = h_added (s_pool s)" using task_ends_runs [OF assms(3)] by simp
  have added: "block_stage (bt_main x) < 2 \<Longrightarrow> all_added c (bt_main x) ts \<Longrightarrow> all_added c (bt_main ?y) ts" for ts
    using wake_block_added by (simp add: BlockTask_section_def Let_def)
  have stage: "stage_inv c ?y"
  proof (cases "block_stage (bt_main x) = 1")
    case True
    with inv(2) have old: "woken_first c x" "first_count c x" by (simp_all add: stage_inv_def)
    have "task_runnable t < unat (bk_workers c)" using old(1) assms(1) me by (auto simp: woken_first_def)
    with old(1) run have "woken_first c ?y" unfolding woken_first_def y by (metis add_mset_remove_trivial_eq fun_upd_apply insert_noteq_member block_pc.distinct(3))
    moreover have "first_count c ?y" using old(2) by (simp add: first_count_def BlockTask_section_def Let_def)
    ultimately show ?thesis using True by (simp add: stage_inv_def)
  next
    case False
    moreover have "block_stage (bt_main x) \<noteq> 0" using inv(2) assms(1) by (auto simp: stage_inv_def)
    ultimately show ?thesis using inv(2) by (simp add: stage_inv_def)
  qed
  show ?thesis using pcs script stage added h assms(2,4) by (simp add: block_inv_def)
qed

lemma block_inv_step:
  assumes "block_step c x y" "block_inv c x" "block_reach c x" "block_reach c y" "bk_workers c \<noteq> 0" "bk_main c \<notin> range (bk_ids c)"
  shows "block_inv c y"
  using assms(1-4)
proof (induction rule: block_step.induct)
  case (block_call x s)
  then show ?case by (rule block_inv_call)
next
  case (block_add x r limit s ev p)
  then show ?case using block_inv_add [OF _ _ _ _ _ _ _ assms(5,6)] by blast
next
  case (block_check x)
  then show ?case
    by (auto simp: block_inv_def BlockTest_check_def Let_def stage_inv_def block_pcs_def first_count_def all_added_def)
next
  case (block_notify x i)
  then show ?case by (intro block_inv_notify [OF _ _ _ assms(5)])
next
  case (block_test x i)
  then show ?case by (intro block_inv_wait)
next
  case (block_last x)
  then show ?case by (auto simp: block_inv_def BlockTest_last_def Let_def stage_inv_def block_pcs_def)
next
  case (block_worker x s p)
  then show ?case by (intro block_inv_worker) (simp_all add: work_def)
next
  case (block_wait w r x)
  then have "block_pcs (BlockTask_wait w x)" by (auto simp: block_inv_def block_pcs_def BlockTask_wait_def)
  moreover have "stage_inv c (BlockTask_wait w x)"
    using block_wait(3) by (auto simp: block_inv_def stage_inv_def woken_first_def first_count_def BlockTask_wait_def)
  ultimately show ?case using block_wait(3) by (simp add: block_inv_def BlockTask_wait_def)
next
  case (block_section x w s t p)
  then show ?case by (intro block_inv_section)
qed

lemma block_inv_wakes: "block_wakes c x y \<Longrightarrow> block_inv c x \<Longrightarrow> block_inv c y"
proof (induction rule: block_wakes.induct)
  case (block_spurious_main x i)
  let ?y = "x\<lparr>bt_session := bt_session x, bt_main := K_Test i\<rparr>"
  have "block_pcs ?y" using block_spurious_main(2) by (intro block_pcs_keep) (simp_all add: block_inv_def)
  moreover have "stage_inv c ?y" using block_spurious_main by (intro stage_inv_same) (simp_all add: block_inv_def)
  ultimately show ?case using block_spurious_main by (auto simp: block_inv_def all_added_def)
next
  case (block_spurious_worker x s p)
  then show ?case by (intro block_inv_worker) (simp_all add: wakes_up_not_ends)
next
  case (block_spurious_call x s p)
  then show ?case by (intro block_inv_pool) (auto simp: block_inv_def)
next
  case (block_spurious_add x r limit s p)
  have "keeps_running (ws (s_pool s)) (ws p)" using task_keeps_running [OF add_call_step [OF block_spurious_add(4)]] .
  moreover have "h_added p = h_added (s_pool s)" using add_call_added [OF block_spurious_add(4)] by simp
  ultimately show ?case using block_spurious_add(3,6) by (intro block_inv_pool) (auto simp: block_inv_def)
qed

interpretation block_ok: relative_invariant "block_start c" "\<lambda>x y. block_step c x y \<or> block_wakes c x y" "block_reach c"
    "\<lambda>x. bk_workers c \<noteq> 0 \<and> bk_main c \<notin> range (bk_ids c) \<longrightarrow> block_inv c x"
proof (intro relative_invariant.intro reachable_invariant relative_invariant_axioms.intro)
  show "block_start c x \<Longrightarrow> bk_workers c \<noteq> 0 \<and> bk_main c \<notin> range (bk_ids c) \<longrightarrow> block_inv c x" for x
    by (blast intro: block_inv_start)
  show "block_reach c x \<Longrightarrow> block_reach c y \<Longrightarrow> bk_workers c \<noteq> 0 \<and> bk_main c \<notin> range (bk_ids c) \<longrightarrow> block_inv c x \<Longrightarrow>
      block_step c x y \<or> block_wakes c x y \<Longrightarrow> bk_workers c \<noteq> 0 \<and> bk_main c \<notin> range (bk_ids c) \<longrightarrow> block_inv c y" for x y
    using block_inv_step block_inv_wakes by blast
qed

lemmas block_inv_always = block_ok.both.always [THEN conjunct2, rule_format, OF _ conjI]

end
