(* ===== verification/Session_Run.thy ===== *)
theory Session_Run
  imports Pool_Full
begin

text \<open>
  A concrete session: the pool has one worker. Its first steps, up to a worker in its loop, are made for every predicate
  that the steps of a program keep; the examples of the programs start from there.
\<close>

abbreviation one_cfg :: "size_t \<Rightarrow> pool_cfg" where
  "one_cfg k \<equiv> session_cfg 1 k (\<lambda>w. w + 100) 0"

definition plain_task :: "nat \<Rightarrow> Task_STATE \<Rightarrow> Task" where
  "plain_task r st = \<lparr>task_runnable = r, task_state = st, expire_time = 0\<rparr>"

definition one_mgr ::
  "SimpleThreadFactory \<Rightarrow> TM_STATE \<Rightarrow> size_t \<Rightarrow> size_t \<Rightarrow> size_t \<Rightarrow> Task list \<Rightarrow> thread_ref set \<Rightarrow> (pthread_t \<rightharpoonup> thread_ref) \<Rightarrow> Impl" where
  "one_mgr f st n mx k ts wk ids =
     \<lparr>worker_count = n, worker_max_count = mx, idle_count = 0, pending_task_count_max = k,
      expired_count = 0, expire_callback = None, tm_state = st,
      thread_factory = Some f, tasks = ts, workers = wk, dead_workers = {},
      id_map = ids\<rparr>"

lemmas one_defs = one_mgr_def ex_pool_def plain_task_def

lemma one_ids: "(0 :: nat) \<notin> range (\<lambda>x. x + 100)"
  by auto

text \<open>The pool between \<^verbatim>\<open>Start\<close> and the destructor.\<close>

abbreviation one_pool :: "SimpleThreadFactory \<Rightarrow> size_t \<Rightarrow> Task list \<Rightarrow> wpc \<Rightarrow> cpc \<Rightarrow> Task list \<Rightarrow> Task list \<Rightarrow> pool" where
  "one_pool f k ts q pc added \<equiv> ex_pool (one_mgr f STARTED 1 1 k ts {0} [100 \<mapsto> 0]) [q] [pc] added"

abbreviation one_session :: "pool \<Rightarrow> session_life \<Rightarrow> session" where
  "one_session p l \<equiv> \<lparr>s_pool = p, s_life = l\<rparr>"

lemma one_starting:
  assumes "Q (one_session p Starting_up)" and call: "\<And>x y. Q x \<Longrightarrow> control_call (one_cfg k) f x y \<Longrightarrow> s_life x \<noteq> Working \<Longrightarrow> Q y"
    and "control_step (one_cfg k) p p'" "\<not> mgr_waiting (cs p ! 0)" "l' = after_call Starting_up (cs p' ! 0)"
  shows "Q (one_session p' l')"
  using call [OF assms(1)] call_continue [of "one_session p Starting_up" "one_cfg k" p' f] assms(3-5) by simp

lemma one_run_started:
  assumes init: "Q (one_session (pool_init 1) Fresh)"
    and call: "\<And>x y. Q x \<Longrightarrow> control_call (one_cfg k) f x y \<Longrightarrow> s_life x \<noteq> Working \<Longrightarrow> Q y"
  shows "Q (one_session (ex_pool (one_mgr f STARTED 0 1 k [] {0} Map.empty) [W_Created] [C_AW_Start [0]] [] []) Starting_up)"
proof -
  let ?m = "\<lambda>k. one_mgr f UNINITIALIZED 0 0 k [] {} Map.empty"
  let ?m1 = "one_mgr f STARTED 0 0 k [] {} Map.empty"
  let ?p = "ex_pool (?m 0) [] [C_Ret None] [] []"
  from init have "Q (one_session ?p Configured)"
    by (rule call)
      (use call_factory [of "one_session (pool_init 1) Fresh" "pool_init 1" None "one_cfg k" f] in
        \<open>simp_all add: pool_init_def NewThreadManager_def Impl_new_def SetThreadFactory_def one_defs\<close>)
  then have "Q (one_session (ex_pool (?m k) [] [C_SimpleStart] [] []) Starting_up)"
    by (rule call)
      (use call_start [of "one_session ?p Configured" ?p None "one_cfg k" _ f] in
        \<open>simp_all add: SetPendingTaskCountMax_def one_defs\<close>)
  then have "Q (one_session (ex_pool ?m1 [] [C_AW_Begin 1] [] []) Starting_up)"
    by (rule one_starting [OF _ call])
      (use simple_start_ok [of 0 "ex_pool (?m k) [] [C_SimpleStart] [] []" "one_cfg k" _ True ?m1 "[]"] in
        \<open>simp_all add: Start_def one_defs\<close>)
  then have "Q (one_session (ex_pool ?m1 [W_Created] [C_AW_Publish 1 [0]] [] []) Starting_up)"
    by (rule one_starting [OF _ call])
      (use add_worker_create [of 0 "ex_pool ?m1 [] [C_AW_Begin 1] [] []" 1 "[0]" "one_cfg k"] in
        \<open>simp_all add: one_defs\<close>)
  then show ?thesis
    by (rule one_starting [OF _ call])
      (use add_worker_publish [of 0 "ex_pool ?m1 [W_Created] [C_AW_Publish 1 [0]] [] []" 1 "[0]" "one_cfg k"] in
        \<open>simp_all add: AddWorker_publish_def one_defs\<close>)
qed

lemma one_run_working:
  assumes init: "Q (one_session (pool_init 1) Fresh)"
    and call: "\<And>x y. Q x \<Longrightarrow> control_call (one_cfg k) f x y \<Longrightarrow> s_life x \<noteq> Working \<Longrightarrow> Q y"
    and worker: "\<And>x p. Q x \<Longrightarrow> worker_step (s_pool x) p \<Longrightarrow>
      \<forall>q \<in> set (ws (s_pool x)). q \<noteq> W_Wait \<and> (\<forall>t. q \<noteq> W_Run t) \<Longrightarrow> Q (x\<lparr>s_pool := p\<rparr>)"
  shows "Q (one_session (one_pool f k [] W_Loop (C_Ret None) [] []) Working)"
proof -
  let ?m = "one_mgr f STARTED 0 1 k [] {0}" and ?me = "one_mgr f STARTED 1 1 k [] {0} [100 \<mapsto> 0]"
  have work: "Q (one_session p l) \<Longrightarrow> worker_step p p' \<Longrightarrow> \<forall>q \<in> set (ws p). q \<noteq> W_Wait \<and> (\<forall>t. q \<noteq> W_Run t) \<Longrightarrow>
      Q (one_session p' l)" for p p' l using worker [of "one_session p l" p'] by simp
  have "Q (one_session (ex_pool (?m Map.empty) [W_Created] [C_AW_Start [0]] [] []) Starting_up)"
    by (rule one_run_started [where Q = Q, OF init call])
  then have "Q (one_session (ex_pool (?m Map.empty) [W_Start] [C_AW_Insert 0 []] [] []) Starting_up)"
    by (rule one_starting [OF _ call])
      (use add_worker_start [of 0 "ex_pool (?m Map.empty) [W_Created] [C_AW_Start [0]] [] []" 0 "[]" "one_cfg k"] in
        \<open>simp_all add: start_thread_def one_defs\<close>)
  then have "Q (one_session (ex_pool (?m [100 \<mapsto> 0]) [W_Start] [C_AW_Start []] [] []) Starting_up)"
    by (rule one_starting [OF _ call])
      (use add_worker_insert [of 0 "ex_pool (?m Map.empty) [W_Start] [C_AW_Insert 0 []] [] []" 0 "[]" "one_cfg k"] in
        \<open>simp_all add: id_map_insert_def one_defs\<close>)
  then have "Q (one_session (ex_pool (?m [100 \<mapsto> 0]) [W_Start] [C_AW_Check] [] []) Starting_up)"
    by (rule one_starting [OF _ call])
      (use add_worker_started [of 0 "ex_pool (?m [100 \<mapsto> 0]) [W_Start] [C_AW_Start []] [] []" "one_cfg k"] in
        \<open>simp_all add: one_defs\<close>)
  then have "Q (one_session (ex_pool ?me [W_NotifyMgr] [C_AW_Check] [] []) Starting_up)"
    by (rule work)
      (use worker_enter [of 0 "ex_pool (?m [100 \<mapsto> 0]) [W_Start] [C_AW_Check] [] []" True True ?me] in
        \<open>simp_all add: Worker_enter_def one_defs\<close>)
  then have "Q (one_session (ex_pool ?me [W_NotifyMgr] [C_Ret None] [] []) Working)"
    by (rule one_starting [OF _ call])
      (use add_worker_return [of 0 "ex_pool ?me [W_NotifyMgr] [C_AW_Check] [] []" "one_cfg k"] in
        \<open>simp_all add: workers_settled_def one_defs\<close>)
  then show ?thesis
    by (rule work)
      (use worker_notify [of 0 "ex_pool ?me [W_NotifyMgr] [C_Ret None] [] []" "[C_Ret None]"] in
        \<open>simp_all add: notified_def one_defs\<close>)
qed

text \<open>A task is added to the empty queue, and the worker takes it.\<close>

lemma one_add:
  "add_call (one_cfg k) 0 r 0 Add_done (one_pool f k [] q (C_Ret e) added removed)
     (one_pool f k [plain_task r WAITING] q (C_Ret None) (added @ [plain_task r WAITING]) removed)"
proof -
  let ?p = "one_pool f k [] q (C_Ret e) added removed"
  have "Add_enter True 0 5 5 r 0 0 (mgr ?p) = Add_queued False [] (one_mgr f STARTED 1 1 k [plain_task r WAITING] {0} [100 \<mapsto> 0])"
    by (simp add: Add_enter_def RemoveExpiredTasks_eq queue_full_def tasks_size_def Add_push_def Task_new_def
        callback_calls_def word_neq_0_conv one_defs)
  with call_queued [of 0 ?p e True 0 "one_cfg k" 5 5 r False "[]" "one_mgr f STARTED 1 1 k [plain_task r WAITING] {0} [100 \<mapsto> 0]" "[q]"]
  show ?thesis by (simp add: ex_pool_def new_task_def Task_new_def plain_task_def) (simp add: one_mgr_def)
qed

lemma mark_plain [simp]: "mark_executing (plain_task r WAITING) = plain_task r EXECUTING"
  by (simp add: mark_executing_def plain_task_def)

lemma one_take:
  "worker_step (one_pool f k [plain_task r WAITING] W_Loop (C_Ret e) added removed)
     (one_pool f k [] (W_Run (Some (plain_task r EXECUTING))) (C_Ret e) added (removed @ [plain_task r WAITING]))"
proof -
  let ?p = "one_pool f k [plain_task r WAITING] W_Loop (C_Ret e) added removed"
  have turn: "worker_turn W_Loop 5 (mgr ?p) =
      Some (Proceed (Some (plain_task r EXECUTING)) (0 < k) [] (one_mgr f STARTED 1 1 k [] {0} [100 \<mapsto> 0]))"
    by (auto simp: Worker_top_def IsActive_def Worker_loop_eq Worker_take_eq expire_def RemoveExpiredTasks_eq
          is_expired_def callback_calls_def mark_executing_def word_neq_0_conv one_defs)
  have signal: "if 0 < k then signal_add 1 (cs ?p) [C_Ret e] else [C_Ret e] = cs ?p" by (simp add: notified_def ex_pool_def)
  with worker_proceed [of 0 ?p 5 "Some (plain_task r EXECUTING)" "0 < k" "[]" "one_mgr f STARTED 1 1 k [] {0} [100 \<mapsto> 0]" "[C_Ret e]", OF _ _ signal] turn
  show ?thesis by (simp add: ex_pool_def taken_def started_def) (simp add: one_mgr_def)
qed

end
