(* ===== verification/Block_Run.thy ===== *)
theory Block_Run
  imports Block_Test Session_Run
begin

text \<open>
  A run of \<^verbatim>\<open>BlockTaskTest\<close> with one worker that ends in a deadlock: the worker has taken its task but is not yet in
  \<^verbatim>\<open>bmonitor_.Wait()\<close> when the main thread calls \<^verbatim>\<open>bmonitor.NotifyAll()\<close>.
\<close>

definition block_ex :: block_cfg where
  "block_ex = \<lparr>bk_workers = 1, bk_first = (\<lambda>r. r = 0), bk_ids = (\<lambda>w. w + 100), bk_main = 0\<rparr>"

definition block_at :: "pool \<Rightarrow> session_life \<Rightarrow> block_main \<Rightarrow> bool \<Rightarrow> block_pc \<Rightarrow> block_test" where
  "block_at p l m ok pc = \<lparr>bt_session = \<lparr>s_pool = p, s_life = l\<rparr>, active_counts = (\<lambda>i. 1), success = ok, bt_main = m,
     bt_pc = (\<lambda>w. B_Begin)(0 := pc), bt_returned = {#}\<rparr>"

abbreviation block_run :: "block_test \<Rightarrow> bool" where
  "block_run \<equiv> reachable (block_start block_ex) (block_step block_ex)"

lemma block_at_simps [simp]:
  "bt_session (block_at p l m ok pc) = \<lparr>s_pool = p, s_life = l\<rparr>" "bt_main (block_at p l m ok pc) = m"
  "success (block_at p l m ok pc) = ok" "bt_pc (block_at p l m ok pc) 0 = pc" "active_counts (block_at p l m ok pc) i = 1"
  "(block_at p l m ok pc)\<lparr>bt_session := \<lparr>s_pool = p', s_life = l'\<rparr>\<rparr> = block_at p' l' m ok pc"
  "(block_at p l m ok pc)\<lparr>bt_main := m'\<rparr> = block_at p l m' ok pc"
  "(block_at p l m ok pc)\<lparr>success := ok'\<rparr> = block_at p l m ok' pc"
  by (simp_all add: block_at_def)

lemma block_ex_pool [simp]: "block_pool block_ex = one_cfg 1"
  by (simp add: block_ex_def)

lemma block_run_call:
  assumes "block_run (block_at (s_pool s) (s_life s) m ok pc)" "control_call (one_cfg 1) load_factory s t" "s_life s \<noteq> Working"
  shows "block_run (block_at (s_pool t) (s_life t) m ok pc)"
  using reachable_step [OF assms(1) block_call [of block_ex "block_at (s_pool s) (s_life s) m ok pc" t]] assms(2,3) by (cases s; cases t) simp

lemma block_run_worker:
  assumes "block_run (block_at p l m ok pc)" "worker_step p p'" "\<forall>q \<in> set (ws p). q \<noteq> W_Wait \<and> (\<forall>t. q \<noteq> W_Run t)"
  shows "block_run (block_at p' l m ok pc)"
proof -
  have "work p p'" "\<not> job_ends p p'" using assms(2,3) by (auto simp: work_def wakes_up_def job_ends_def)
  then have "block_step block_ex (block_at p l m ok pc) (block_at p' l m ok pc)"
    using block_worker [of "block_at p l m ok pc" "\<lparr>s_pool = p, s_life = l\<rparr>" p' block_ex] by simp
  then show ?thesis by (rule reachable_step [OF assms(1)])
qed

lemma block_run_working: "block_run (block_at (one_pool load_factory 1 [] W_Loop (C_Ret None) [] []) Working (K_Add 0) False B_Begin)"
proof -
  let ?Q = "\<lambda>s. block_run (block_at (s_pool s) (s_life s) (K_Add 0) False B_Begin)"
  have "?Q (one_session (one_pool load_factory 1 [] W_Loop (C_Ret None) [] []) Working)"
  proof (rule one_run_working)
    show "?Q (one_session (pool_init 1) Fresh)"
      by (rule reachable_init)
        (simp add: block_start_def session_start_def block_at_def block_ex_def next_block_def block_tasks_def fun_eq_iff)
    show "?Q s \<Longrightarrow> control_call (one_cfg 1) load_factory s t \<Longrightarrow> s_life s \<noteq> Working \<Longrightarrow> ?Q t" for s t
      by (rule block_run_call)
    show "?Q s \<Longrightarrow> worker_step (s_pool s) p \<Longrightarrow> \<forall>q \<in> set (ws (s_pool s)). q \<noteq> W_Wait \<and> (\<forall>t. q \<noteq> W_Run t) \<Longrightarrow> ?Q (s\<lparr>s_pool := p\<rparr>)" for s p
      using block_run_worker [of "s_pool s"] by simp
  qed
  then show ?thesis by simp
qed

text \<open>The pool is filled; the worker has taken the first task.\<close>

abbreviation block_busy :: "Task list \<Rightarrow> cpc \<Rightarrow> Task list \<Rightarrow> pool" where
  "block_busy ts pc added \<equiv> one_pool load_factory 1 ts (W_Run (Some (plain_task 0 EXECUTING))) pc added [plain_task 0 WAITING]"

lemma block_run_add:
  assumes "block_run (block_at p Working m ok pc)" "block_adds block_ex m = Some (r, limit)"
    and "add_call (one_cfg 1) 0 r limit ev p p'" "add_waiting (cs p ! 0) \<longrightarrow> ev \<noteq> Add_pending"
    and "ev = Add_threw TimedOut_default \<longrightarrow> 0 \<le> limit" "m' = block_after block_ex m ev"
  shows "block_run (block_at p' Working m' ok pc)"
proof (rule reachable_step [OF assms(1)])
  show "block_step block_ex (block_at p Working m ok pc) (block_at p' Working m' ok pc)"
    using block_add [of block_ex "block_at p Working m ok pc" r limit "\<lparr>s_pool = p, s_life = Working\<rparr>" ev p'] assms(2-6) by auto
qed

lemma block_enter:
  "Add_enter True 0 5 5 r limit 0 (one_mgr load_factory STARTED n mx 1 ts wk ids) =
     (if ts = [] then Add_queued False [] (one_mgr load_factory STARTED n mx 1 [plain_task r WAITING] wk ids)
      else if ids 0 = None \<and> 0 \<le> limit then Add_waits [] (one_mgr load_factory STARTED n mx 1 ts wk ids)
      else Add_throws TooManyPendingTasks_default [] (one_mgr load_factory STARTED n mx 1 ts wk ids))"
  if "list_all undying ts" "length ts \<le> 1"
proof -
  have "RemoveExpiredTasks 5 (one_mgr load_factory STARTED n mx 1 ts wk ids) = ([], one_mgr load_factory STARTED n mx 1 ts wk ids)"
    using that by (intro expire_undying) (simp add: one_mgr_def)
  with that show ?thesis
    by (cases ts) (auto simp: Add_enter_def queue_full_def tasks_size_def CanSleep_def Add_push_def Task_new_def one_mgr_def plain_task_def)
qed

lemmas block_main_defs = block_adds_def block_after_def BlockTest_added_def block_tasks_def next_block_def

lemma block_run_filled: "block_run (block_at (block_busy [plain_task 1 WAITING] (C_Ret None) [plain_task 0 WAITING, plain_task 1 WAITING])
  Working K_Check False B_Begin)"
proof -
  let ?t = "\<lambda>r. plain_task r WAITING"
  from block_run_working have "block_run (block_at (one_pool load_factory 1 [?t 0] W_Loop (C_Ret None) [?t 0] []) Working (K_Add 1) False B_Begin)"
    by (rule block_run_add [OF _ _ one_add [of 1 0 _ _ _ "[]", simplified append_Nil]])
      (simp_all add: block_main_defs ex_pool_def, simp add: block_ex_def)
  then have "block_run (block_at (block_busy [] (C_Ret None) [?t 0]) Working (K_Add 1) False B_Begin)"
    using block_run_worker [OF _ one_take [of load_factory 1 0 None "[?t 0]" "[]"]] by (simp add: ex_pool_def)
  then have "block_run (block_at (block_busy [?t 1] (C_Ret None) ([?t 0] @ [?t 1])) Working K_Check False B_Begin)"
    by (rule block_run_add [OF _ _ one_add]) (simp_all add: block_main_defs ex_pool_def, simp add: block_ex_def)
  then show ?thesis by simp
qed

text \<open>The probes have the outcomes that the test expects; the notification finds no one.\<close>

lemma block_run_probed:
  "\<exists>e. block_run (block_at (block_busy [plain_task 1 WAITING] (C_Ret e) [plain_task 0 WAITING, plain_task 1 WAITING])
     Working (K_Notify 0) True B_Begin)"
proof -
  let ?t = "\<lambda>r. plain_task r WAITING"
  let ?b = "\<lambda>pc. block_busy [?t 1] pc [?t 0, ?t 1]" and ?m = "one_mgr load_factory STARTED 1 1 1 [?t 1] {0} [100 \<mapsto> 0]"
  let ?full = "C_Ret (Some TooManyPendingTasks_default)"
  have undying: "undying (?t 1)" by (simp add: plain_task_def undying_def)
  have waits: "add_call (one_cfg 1) 0 2 1 Add_pending (?b (C_Ret None)) (?b (C_AddWait 2 1 0))"
    using call_waits [of 0 "?b (C_Ret None)" None True 1 "one_cfg 1" 5 5 2 "[]" ?m] block_enter [of "[?t 1]" 2 1] undying
    by (simp add: block_ex_def ex_pool_def taken_def)
  have gives_up: "add_call (one_cfg 1) 0 2 1 (Add_threw TimedOut_default) (?b (C_AddWait 2 1 0)) (?b (C_Ret (Some TimedOut_default)))"
    using call_timeout [of 0 "?b (C_AddWait 2 1 0)" 2 1 "one_cfg 1"] by (simp add: ex_pool_def)
  have throws: "add_call (one_cfg 1) 0 2 (- 1) (Add_threw TooManyPendingTasks_default) (?b (C_Ret (Some TimedOut_default))) (?b ?full)"
    using call_throws [of 0 "?b (C_Ret (Some TimedOut_default))" "Some TimedOut_default" True "- 1" "one_cfg 1" 5 5 2
        TooManyPendingTasks_default "[]" ?m] block_enter [of "[?t 1]" 2 "- 1"] undying
    by (simp add: block_ex_def ex_pool_def taken_def)
  have "BlockTest_check block_ex (block_at (?b (C_Ret None)) Working K_Check False B_Begin) =
      block_at (?b (C_Ret None)) Working (K_Probe 0) True B_Begin"
    by (simp add: BlockTest_check_def TotalTaskCount_def tasks_size_def block_at_def ex_pool_def) (simp add: block_ex_def one_mgr_def)
  with block_check [of "block_at (?b (C_Ret None)) Working K_Check False B_Begin" block_ex]
  have "block_run (block_at (?b (C_Ret None)) Working (K_Probe 0) True B_Begin)"
    using reachable_step [OF block_run_filled] by simp
  then have "block_run (block_at (?b (C_AddWait 2 1 0)) Working (K_Probe 0) True B_Begin)"
    by (rule block_run_add [OF _ _ waits]) (simp_all add: block_main_defs ex_pool_def, simp add: block_ex_def)
  then have "block_run (block_at (?b (C_Ret (Some TimedOut_default))) Working (K_Probe 1) True B_Begin)"
    by (rule block_run_add [OF _ _ gives_up]) (simp_all add: block_main_defs ex_pool_def TimedOut_default_def, simp add: block_ex_def)
  then have "block_run (block_at (?b ?full) Working (K_Notify 0) True B_Begin)"
    by (rule block_run_add [OF _ _ throws])
      (simp_all add: block_main_defs ex_pool_def TooManyPendingTasks_default_def TimedOut_default_def, simp add: block_ex_def)
  then show ?thesis ..
qed

definition block_hung :: "exn option \<Rightarrow> block_test" where
  "block_hung e = block_at (block_busy [plain_task 1 WAITING] (C_Ret e) [plain_task 0 WAITING, plain_task 1 WAITING])
     Working (K_Waiting 0) True B_Waiting"

lemma block_run_hung: "\<exists>e. block_run (block_hung e)"
proof -
  let ?b = "\<lambda>e. block_busy [plain_task 1 WAITING] (C_Ret e) [plain_task 0 WAITING, plain_task 1 WAITING]"
  obtain e where start: "block_run (block_at (?b e) Working (K_Notify 0) True B_Begin)" using block_run_probed by blast
  have "BlockTest_notify 0 (block_at (?b e) Working (K_Notify 0) True B_Begin) = block_at (?b e) Working (K_Test 0) True B_Begin"
    by (simp add: BlockTest_notify_def block_at_def fun_eq_iff)
  with block_notify [of "block_at (?b e) Working (K_Notify 0) True B_Begin" 0 block_ex]
  have "block_run (block_at (?b e) Working (K_Test 0) True B_Begin)" using reachable_step [OF start] by simp
  moreover have "BlockTest_wait 0 (block_at (?b e) Working (K_Test 0) True B_Begin) = block_at (?b e) Working (K_Waiting 0) True B_Begin"
    by (simp add: BlockTest_wait_def)
  moreover note block_test [of "block_at (?b e) Working (K_Test 0) True B_Begin" 0 block_ex]
  ultimately have waiting: "block_run (block_at (?b e) Working (K_Waiting 0) True B_Begin)" using reachable_step by force
  have "BlockTask_wait 0 (block_at (?b e) Working (K_Waiting 0) True B_Begin) = block_hung e"
    by (simp add: BlockTask_wait_def block_hung_def block_at_def)
  moreover have "runs_task 0 0 (?b e)" by (simp add: runs_task_def ex_pool_def plain_task_def)
  ultimately have "block_run (block_hung e)"
    using reachable_step [OF waiting] block_wait [of 0 0 "block_at (?b e) Working (K_Waiting 0) True B_Begin" block_ex] by simp
  then show ?thesis ..
qed

lemma running_only_returns: "worker_step p p' \<Longrightarrow> ws p = [W_Run (Some t)] \<Longrightarrow> job_ends p p'"
  by (induction rule: worker_step.induct) (auto simp: job_ends_def)

lemma block_hung_stuck: "\<not> block_step block_ex (block_hung e) y"
proof
  assume "block_step block_ex (block_hung e) y"
  then show False
  proof cases
    case (block_worker s p)
    then show False using running_only_returns by (auto simp: block_hung_def ex_pool_def work_def)
  next
    case (block_wait w r)
    then show False by (auto simp: block_hung_def runs_task_def ex_pool_def block_at_def)
  next
    case (block_section w s t p)
    then show False by (auto simp: block_hung_def block_at_def split: if_splits)
  qed (simp_all add: block_hung_def block_adds_def)
qed

subsection \<open>Properties\<close>

lemma block_probe_steps:
  assumes "block_reach c x" "block_inv c x" "bt_main x = K_Probe k" "bk_workers c \<noteq> 0" "bk_main c \<notin> range (bk_ids c)"
    and "block_step c x y"
  shows "bt_main y \<in> (if k = 0 then {K_Probe 0, K_Probe 1} else {K_Probe k, K_Notify 0})"
  using assms(6)
proof cases
  case (block_add r limit s ev p)
  then have limit: "limit = (if k = 0 then 1 else - 1)" using assms(3) by (simp add: block_adds_def split: if_splits)
  with block_add have call: "add_call (block_pool c) 0 r (if k = 0 then 1 else - 1) ev (s_pool (bt_session x)) p"
    and lock: "k \<noteq> 0 \<and> ev = Add_threw TimedOut_default \<longrightarrow> lock_contended (s_pool (bt_session x))" by auto
  from block_probe_outcome [OF assms(1-5) call lock] block_add(1) assms(3) show ?thesis
    by (auto simp: block_after_def split: if_splits)
next
  case (block_section w s t p)
  with assms(2,3) show ?thesis by (simp add: block_inv_def stage_inv_def)
qed (use assms(3) in \<open>simp_all add: BlockTask_wait_def\<close>)

text \<open>C14. The probes of \<^verbatim>\<open>BlockTaskTest\<close>, for any number of workers but 0 and a main thread whose id is none of theirs, as
  long as no task wakes up without a notification. When
  \<open>2 n\<close> tasks were added, the check of \<open>TotalTaskCount\<close> succeeds. During the probes \<open>n\<close> tasks are pending and every worker
  runs one, \<open>Add(extra_task, 1)\<close> ends only with a timeout, and \<open>Add(extra_task, -1)\<close> only with
  \<^verbatim>\<open>TooManyPendingTasksException\<close>.\<close>

theorem BlockTest_probes:
  assumes "block_reach c x" "bk_workers c \<noteq> 0" "bk_main c \<notin> range (bk_ids c)"
  shows "(bt_main x = K_Check \<and> s_life (bt_session x) = Working \<longrightarrow> bt_main (BlockTest_check c x) = K_Probe 0) \<and>
    (bt_main x = K_Probe k \<longrightarrow>
       PendingTaskCount (mgr (s_pool (bt_session x))) = bk_workers c \<and>
       (\<forall>q \<in> set (ws (s_pool (bt_session x))). \<exists>t. q = W_Run (Some t)) \<and>
       (\<forall>y. block_step c x y \<longrightarrow> bt_main y \<in> (if k = 0 then {K_Probe 0, K_Probe 1} else {K_Probe k, K_Notify 0})))"
proof (intro conjI impI; (elim conjE)?)
  have inv: "block_inv c x" using block_inv_always assms by blast
  note sound = block.sound [OF assms(1)]
  {
    assume "bt_main x = K_Check" "s_life (bt_session x) = Working"
    with block_filled [OF assms(1) inv] filled_counts(2) [OF sound _ _ assms(2)]
    show "bt_main (BlockTest_check c x) = K_Probe 0" by (simp add: BlockTest_check_def Let_def)
  }
  assume probe: "bt_main x = K_Probe k"
  have life: "s_life (bt_session x) = Working" using inv probe by (simp add: block_inv_def)
  have fill: "filled (bk_workers c) (s_pool (bt_session x))" using probe by (intro block_filled [OF assms(1) inv]) simp_all
  show "PendingTaskCount (mgr (s_pool (bt_session x))) = bk_workers c" "\<forall>q \<in> set (ws (s_pool (bt_session x))). \<exists>t. q = W_Run (Some t)"
    using filled_counts(1) [OF sound life fill assms(2)] filled_pool(3) [OF sound life fill assms(2)] by simp_all
  show "\<forall>y. block_step c x y \<longrightarrow> bt_main y \<in> (if k = 0 then {K_Probe 0, K_Probe 1} else {K_Probe k, K_Notify 0})"
    using block_probe_steps [OF assms(1) inv probe assms(2,3)] by blast
qed

lemma block_run_reach: "block_run x \<Longrightarrow> block_reach block_ex x"
  by (induction rule: reachable.induct) (auto intro: reachable_init reachable_step)

theorem BlockTest_probes_witness:
  "let x = block_at (block_busy [plain_task 1 WAITING] (C_Ret None) [plain_task 0 WAITING, plain_task 1 WAITING])
     Working K_Check False B_Begin
   in block_reach block_ex x \<and> bt_main (BlockTest_check block_ex x) = K_Probe 0"
  using BlockTest_probes [OF block_run_reach [OF block_run_filled]] block_run_reach [OF block_run_filled]
  by (simp add: Let_def) (simp add: block_ex_def one_ids)

text \<open>C36. \<^verbatim>\<open>BlockTaskTest\<close> depends on the addresses of its tasks. If the order of the \<^verbatim>\<open>std::set\<close> puts a task of
  \<^verbatim>\<open>active_counts[1]\<close> among the first \<open>n\<close>, then, unless a task wakes up without a notification, the main thread never gets
  past its first wait and the test never returns \<^verbatim>\<open>true\<close>.\<close>

theorem BlockTest_needs_order:
  assumes "block_reach c x" "bk_workers c \<noteq> 0" "bk_main c \<notin> range (bk_ids c)" "r < unat (bk_workers c)" "\<not> bk_first c r"
  shows "BlockTaskTest_result x \<noteq> Some True \<and> bt_main x \<notin> {K_Add_extra, K_Notify (Suc i), K_Test (Suc i), K_Waiting (Suc i), K_Last}"
proof -
  have "stage_inv c x" using block_inv_always [OF assms(1-3)] by (simp add: block_inv_def)
  moreover have "\<not> in_order c" using assms(4,5) by (auto simp: in_order_def)
  ultimately show ?thesis by (cases "bt_main x") (auto simp: stage_inv_def BlockTaskTest_result_def)
qed

theorem BlockTest_needs_order_witness:
  "let c = block_ex\<lparr>bk_first := \<lambda>r. r = 1\<rparr>
   in block_reach c (block_at (pool_init 1) Fresh (K_Add 0) False B_Begin) \<and>
      {x. block_reach c x} \<subseteq> {x. BlockTaskTest_result x \<noteq> Some True}"
proof -
  let ?c = "block_ex\<lparr>bk_first := \<lambda>r. r = 1\<rparr>"
  have "block_reach ?c (block_at (pool_init 1) Fresh (K_Add 0) False B_Begin)"
    by (rule reachable_init)
      (simp add: block_start_def block_at_def block_ex_def session_start_def next_block_def block_tasks_def fun_eq_iff)
  then show ?thesis using BlockTest_needs_order [of ?c _ 0] one_ids by (auto simp: block_ex_def Let_def)
qed

text \<open>C35. Even in the intended order, and with no unnotified wake-up at all, \<^verbatim>\<open>BlockTaskTest\<close> can deadlock: with one worker it
  reaches a state in which the main thread waits for \<^verbatim>\<open>active_counts[0]\<close>, the task waits for a notification that has already
  been sent, and nothing can move.\<close>

theorem BlockTest_can_deadlock:
  "\<exists>x. block_run x \<and> in_order block_ex \<and> bt_main x = K_Waiting 0 \<and> active_counts x 0 = 1 \<and> bt_pc x 0 = B_Waiting \<and>
     (\<nexists>y. block_step block_ex x y)"
proof -
  obtain e where "block_run (block_hung e)" using block_run_hung by blast
  moreover have "in_order block_ex" by (simp add: in_order_def block_ex_def)
  ultimately show ?thesis using block_hung_stuck by (intro exI [of _ "block_hung e"]) (simp add: block_hung_def)
qed

end
