(* ===== verification/Observer_Test.thy ===== *)
theory Observer_Test
  imports Splitter Load_Test Session_Run
begin

text \<open>
  The observer test (\<^verbatim>\<open>src/observer_unittest.cc\<close>): a \<^verbatim>\<open>Scheduler\<close> with a thread pool registers itself at every
  \<^verbatim>\<open>Job\<close> it adds, through a \<^verbatim>\<open>weak_ptr\<close>, and a worker that runs a job notifies the observers of the job.

  The first part is the code of \<^verbatim>\<open>Job\<close> for any observers. The second is the test on the pool. There the only observer is
  the scheduler. It is alive as long as \<^verbatim>\<open>g_scheduler\<close> or a worker between \<^verbatim>\<open>observer.lock()\<close> and the end of
  \<^verbatim>\<open>Update\<close> refers to it; whoever gives up the last reference runs \<^verbatim>\<open>~Scheduler\<close>. Client 0 of the pool is the
  main thread until then, and after that the thread that runs the destructor.
\<close>

subsection \<open>Jobs and observers\<close>

type_synonym observer_ref = nat

record Job =
  book_path :: string
  observer_list :: "observer_ref list"

definition Job_new :: "string \<Rightarrow> Job" where
  "Job_new path = \<lparr>book_path = path, observer_list = []\<rparr>"

definition Job_SetBookPath :: "string \<Rightarrow> Job \<Rightarrow> Job" where
  "Job_SetBookPath path j = j\<lparr>book_path := path\<rparr>"

definition Job_GetBookPath :: "Job \<Rightarrow> string" where
  "Job_GetBookPath j = book_path j"

text \<open>\<^verbatim>\<open>weak_ptr::lock\<close>.\<close>

definition lock_weak :: "(observer_ref \<Rightarrow> bool) \<Rightarrow> observer_ref \<Rightarrow> observer_ref option" where
  "lock_weak alive ob = (if alive ob then Some ob else None)"

text \<open>The number of times that \<^verbatim>\<open>Already Register Job\<close> is printed, and the job.\<close>

definition Job_RegisterObserver :: "(observer_ref \<Rightarrow> bool) \<Rightarrow> observer_ref \<Rightarrow> Job \<Rightarrow> nat \<times> Job" where
  "Job_RegisterObserver alive ob j =
     (length (filter (\<lambda>ob'. lock_weak alive ob = lock_weak alive ob') (observer_list j)),
      j\<lparr>observer_list := observer_list j @ [ob]\<rparr>)"

text \<open>The observers whose \<^verbatim>\<open>Update\<close> is called. \<^verbatim>\<open>ob->Update\<close> on an expired observer dereferences a null pointer.\<close>

fun Job_NotifyObservers :: "(observer_ref \<Rightarrow> bool) \<Rightarrow> observer_ref list \<Rightarrow> observer_ref list res" where
  "Job_NotifyObservers alive [] = Inr []"
| "Job_NotifyObservers alive (ob # obs) =
     (case lock_weak alive ob of None \<Rightarrow> Inl Undefined
      | Some ob' \<Rightarrow> bind_res (Job_NotifyObservers alive obs) (\<lambda>us. Inr (ob' # us)))"

definition Job_NotifyAllObservers :: "(observer_ref \<Rightarrow> bool) \<Rightarrow> Job \<Rightarrow> observer_ref list res" where
  "Job_NotifyAllObservers alive j = Job_NotifyObservers alive (observer_list j)"

lemma Job_NotifyObservers_result:
  "Job_NotifyObservers alive obs = (if list_all alive obs then Inr obs else Inl Undefined)"
  by (induction obs) (auto simp: lock_weak_def bind_res_def)

text \<open>Registering an observer that is alive at a job \<open>k\<close> times makes the job call its \<^verbatim>\<open>Update\<close> \<open>k\<close> times, although
  \<^verbatim>\<open>RegisterObserver\<close> notices the repetition: the message is printed once for every earlier registration, and the
  observer is added again. An observer that has expired makes the next notification undefined, whatever the others are.\<close>

theorem RegisterObserver_repeats:
  assumes "list_all alive (observer_list j)"
  shows "let (printed, j') = Job_RegisterObserver alive ob j
    in (alive ob \<longrightarrow> printed = count_list (observer_list j) ob \<and> Job_NotifyAllObservers alive j' = Inr (observer_list j @ [ob])) \<and>
       (\<not> alive ob \<longrightarrow> printed = 0 \<and> Job_NotifyAllObservers alive j' = Inl Undefined)"
proof -
  have "filter (\<lambda>ob'. lock_weak alive ob = lock_weak alive ob') (observer_list j) =
      (if alive ob then filter ((=) ob) (observer_list j) else [])"
    using assms by (auto simp: lock_weak_def list_all_iff filter_empty_conv intro!: filter_cong)
  with assms show ?thesis by (simp add: Job_RegisterObserver_def Job_NotifyAllObservers_def Job_NotifyObservers_result count_list_eq_length_filter)
qed

theorem RegisterObserver_repeats_witness:
  "let j = \<lparr>book_path = ''0_job'', observer_list = [3, 4, 3]\<rparr>
   in fst (Job_RegisterObserver (\<lambda>ob. ob < 5) 3 j) = 2 \<and>
      Job_NotifyAllObservers (\<lambda>ob. ob < 5) (snd (Job_RegisterObserver (\<lambda>ob. ob < 5) 3 j)) = Inr [3, 4, 3, 3] \<and>
      Job_NotifyAllObservers (\<lambda>ob. ob < 5) (snd (Job_RegisterObserver (\<lambda>ob. ob < 5) 7 j)) = Inl Undefined"
  using RegisterObserver_repeats [of "\<lambda>ob. ob < 5" "\<lparr>book_path = ''0_job'', observer_list = [3, 4, 3]\<rparr>" 3]
    RegisterObserver_repeats [of "\<lambda>ob. ob < 5" "\<lparr>book_path = ''0_job'', observer_list = [3, 4, 3]\<rparr>" 7]
  by (simp add: Let_def split_beta)

subsection \<open>The test\<close>

datatype observer_main =
    O_Job nat        \<comment> \<open>setting up, or at the head of the loop\<close>
  | O_Adding nat     \<comment> \<open>in \<^verbatim>\<open>AddJob\<close>, before or in \<^verbatim>\<open>thread_manager_->Add(job)\<close>\<close>
  | O_Exit           \<comment> \<open>\<^verbatim>\<open>g_scheduler\<close> is destroyed\<close>
  | O_Threw exn

datatype job_pc = J_At nat | J_Held nat   \<comment> \<open>before this observer; holding it, in \<^verbatim>\<open>Update\<close>\<close>

record observer_test =
  ob_session :: session
  job_list :: "runnable_ref list"
  job_count :: size_t
  jobs :: "runnable_ref \<Rightarrow> Job"
  g_scheduler :: bool
  ob_main :: observer_main
  ob_pc :: "nat \<Rightarrow> job_pc"
  destructor :: "nat option option"   \<comment> \<open>who runs \<^verbatim>\<open>~Scheduler\<close>: the main thread, or a worker\<close>
  crashed :: bool
  ob_updates :: "runnable_ref multiset"
  ob_returned :: "runnable_ref multiset"

record observer_cfg =
  ob_workers :: size_t
  ob_pending :: size_t
  ob_jobs :: nat
  ob_ids :: "thread_ref \<Rightarrow> pthread_t"
  ob_thread :: pthread_t

abbreviation observer_pool :: "observer_cfg \<Rightarrow> pool_cfg" where
  "observer_pool c \<equiv> session_cfg (ob_workers c) (ob_pending c) (ob_ids c) (ob_thread c)"

definition observer_start :: "observer_cfg \<Rightarrow> observer_test \<Rightarrow> bool" where
  "observer_start c x \<longleftrightarrow> session_start (ob_session x) \<and> job_list x = [] \<and> job_count x = 0 \<and>
     jobs x = (\<lambda>i. Job_new (to_string (int i) @ ''_job'')) \<and> g_scheduler x \<and> ob_main x = O_Job 0 \<and> ob_pc x = (\<lambda>_. J_At 0) \<and>
     destructor x = None \<and> \<not> crashed x \<and> ob_updates x = {#} \<and> ob_returned x = {#}"

text \<open>The scheduler is observer 0.\<close>

fun held_pc :: "job_pc \<Rightarrow> bool" where
  "held_pc (J_At i) = False"
| "held_pc (J_Held i) = True"

abbreviation held :: "observer_test \<Rightarrow> nat \<Rightarrow> bool" where
  "held x w \<equiv> held_pc (ob_pc x w)"

definition scheduler_alive :: "observer_test \<Rightarrow> observer_ref \<Rightarrow> bool" where
  "scheduler_alive x ob \<longleftrightarrow> ob = 0 \<and> (g_scheduler x \<or> list_ex (\<lambda>w. held x w) [0..<length (ws (s_pool (ob_session x)))])"

text \<open>\<^verbatim>\<open>AddJob\<close> up to the call of \<open>Add\<close>.\<close>

definition AddJob :: "runnable_ref \<Rightarrow> observer_test \<Rightarrow> observer_test" where
  "AddJob r x = x\<lparr>job_list := job_list x @ [r],
     jobs := (jobs x)(r := snd (Job_RegisterObserver (scheduler_alive x) 0 (jobs x r))),
     job_count := job_count x + 1, ob_main := O_Adding r\<rparr>"

definition AddJob_added :: "nat \<Rightarrow> add_event \<Rightarrow> observer_main" where
  "AddJob_added j ev = (case ev of Add_pending \<Rightarrow> O_Adding j | Add_done \<Rightarrow> O_Job (Suc j) | Add_threw e \<Rightarrow> O_Threw e)"

text \<open>A reference is given up: the last one starts the destructor.\<close>

definition unref :: "nat option \<Rightarrow> observer_test \<Rightarrow> observer_test" where
  "unref who x = (if scheduler_alive x 0 then x else x\<lparr>destructor := Some who\<rparr>)"

text \<open>One turn of the loop of \<^verbatim>\<open>NotifyAllObservers\<close>: \<^verbatim>\<open>observer.lock()\<close> and the call of \<^verbatim>\<open>Update\<close>, then the end of
  \<^verbatim>\<open>ob\<close>.\<close>

definition Notify_lock :: "nat \<Rightarrow> runnable_ref \<Rightarrow> nat \<Rightarrow> observer_test \<Rightarrow> observer_test" where
  "Notify_lock w r i x =
     (case lock_weak (scheduler_alive x) (observer_list (jobs x r) ! i) of
        None \<Rightarrow> x\<lparr>crashed := True\<rparr>
      | Some _ \<Rightarrow> x\<lparr>ob_pc := (ob_pc x)(w := J_Held i), ob_updates := add_mset r (ob_updates x)\<rparr>)"

definition Notify_release :: "nat \<Rightarrow> nat \<Rightarrow> observer_test \<Rightarrow> observer_test" where
  "Notify_release w i x = unref (Some w) (x\<lparr>ob_pc := (ob_pc x)(w := J_At (Suc i))\<rparr>)"

text \<open>A worker that runs the destructor goes on with its job when that has returned.\<close>

definition worker_free :: "nat \<Rightarrow> observer_test \<Rightarrow> bool" where
  "worker_free w x \<longleftrightarrow> (destructor x = Some (Some w) \<longrightarrow> s_life (ob_session x) = Ended)"

inductive observer_step :: "observer_cfg \<Rightarrow> observer_test \<Rightarrow> observer_test \<Rightarrow> bool" for c where
  observer_call:
    "\<lbrakk>\<not> crashed x; control_call (observer_pool c) SimpleThreadFactory_default (ob_session x) s;
      s_life (ob_session x) = Working \<longrightarrow> destructor x \<noteq> None\<rbrakk> \<Longrightarrow>
     observer_step c x (x\<lparr>ob_session := s\<rparr>)"
| observer_job:
    "\<lbrakk>\<not> crashed x; ob_main x = O_Job j; j < ob_jobs c; s_life (ob_session x) = Working\<rbrakk> \<Longrightarrow> observer_step c x (AddJob j x)"
| observer_add:
    "\<lbrakk>\<not> crashed x; ob_main x = O_Adding j; s_life (ob_session x) = Working; ob_session x = s;
      add_call (observer_pool c) 0 j 0 ev (s_pool s) p\<rbrakk> \<Longrightarrow>
     observer_step c x (x\<lparr>ob_session := s\<lparr>s_pool := p\<rparr>, ob_main := AddJob_added j ev\<rparr>)"
| observer_exit:
    "\<lbrakk>\<not> crashed x; ob_main x = O_Job (ob_jobs c); s_life (ob_session x) = Working\<rbrakk> \<Longrightarrow>
     observer_step c x (unref None (x\<lparr>g_scheduler := False, ob_main := O_Exit\<rparr>))"
| observer_worker:
    "\<lbrakk>\<not> crashed x; ob_session x = s; worker_step (s_pool s) p; \<not> job_ends (s_pool s) p\<rbrakk> \<Longrightarrow>
     observer_step c x (x\<lparr>ob_session := s\<lparr>s_pool := p\<rparr>\<rparr>)"
| observer_lock:
    "\<lbrakk>\<not> crashed x; runs_task w r (s_pool (ob_session x)); ob_pc x w = J_At i; i < length (observer_list (jobs x r)); worker_free w x\<rbrakk> \<Longrightarrow>
     observer_step c x (Notify_lock w r i x)"
| observer_release:
    "\<lbrakk>\<not> crashed x; ob_pc x w = J_Held i\<rbrakk> \<Longrightarrow> observer_step c x (Notify_release w i x)"
| observer_return:
    "\<lbrakk>\<not> crashed x; task_ends w t (s_pool s) p; ob_session x = s; ob_pc x w = J_At (length (observer_list (jobs x (task_runnable t))));
      worker_free w x\<rbrakk> \<Longrightarrow>
     observer_step c x (x\<lparr>ob_session := s\<lparr>s_pool := p\<rparr>, ob_pc := (ob_pc x)(w := J_At 0),
       ob_returned := add_mset (task_runnable t) (ob_returned x)\<rparr>)"
| observer_wakes:
    "\<lbrakk>\<not> crashed x; ob_session x = s; mgr_waiting (cs (s_pool s) ! 0);
      p = (s_pool s)\<lparr>cs := (cs (s_pool s))[0 := wake_mgr (cs (s_pool s) ! 0)]\<rparr>\<rbrakk> \<Longrightarrow>
     observer_step c x (x\<lparr>ob_session := s\<lparr>s_pool := p\<rparr>\<rparr>)"

abbreviation observer_reach :: "observer_cfg \<Rightarrow> observer_test \<Rightarrow> bool" where
  "observer_reach c \<equiv> reachable (observer_start c) (observer_step c)"

lemma unref_simps [simp]:
  "ob_session (unref who x) = ob_session x" "ob_returned (unref who x) = ob_returned x" "jobs (unref who x) = jobs x"
  "job_list (unref who x) = job_list x" "job_count (unref who x) = job_count x" "g_scheduler (unref who x) = g_scheduler x"
  "ob_main (unref who x) = ob_main x" "ob_pc (unref who x) = ob_pc x" "crashed (unref who x) = crashed x"
  "ob_updates (unref who x) = ob_updates x"
  by (simp_all add: unref_def)

lemma Notify_lock_simps [simp]:
  "ob_session (Notify_lock w r i x) = ob_session x" "ob_returned (Notify_lock w r i x) = ob_returned x"
  by (simp_all add: Notify_lock_def split: option.split)

interpretation observer: session_client "ob_workers c" "ob_pending c" "ob_ids c" "ob_thread c" SimpleThreadFactory_default
    "observer_start c" "observer_step c" ob_session ob_returned
proof unfold_locales
  fix x y assume "observer_step c x y"
  then show "\<exists>d. session_move (observer_pool c) SimpleThreadFactory_default d (ob_session x) (ob_session y) \<and> ob_returned y = ob_returned x + d"
  proof (induction rule: observer_step.induct)
    case (observer_call x s)
    from move_call [OF observer_call(2)] show ?case by auto
  next
    case (observer_add x j s ev p)
    from move_add [of s] observer_add show ?case by auto
  next
    case (observer_worker x s p)
    from move_worker [of s p] observer_worker show ?case by auto
  next
    case (observer_return x w t s p)
    from move_returns [of w t s p] observer_return show ?case by auto
  next
    case (observer_wakes x s p)
    from move_wakes [of s p] observer_wakes show ?case by auto
  qed (auto simp: AddJob_def Notify_release_def intro: move_none)
qed (simp add: observer_start_def)

subsection \<open>The invariant\<close>

definition jobs_fit :: "Task list \<Rightarrow> runnable_ref list \<Rightarrow> size_t \<Rightarrow> observer_main \<Rightarrow> bool" where
  "jobs_fit ts js n m \<longleftrightarrow> map task_runnable ts = [0..<length ts] \<and> js = [0..<length js] \<and> n = of_nat (length js) \<and>
     (case m of O_Job j \<Rightarrow> length ts = j \<and> length js = j | O_Adding j \<Rightarrow> length ts = j \<and> length js = Suc j
        | _ \<Rightarrow> length ts \<le> length js)"

abbreviation jobs_added :: "observer_test \<Rightarrow> bool" where
  "jobs_added x \<equiv> jobs_fit (h_added (s_pool (ob_session x))) (job_list x) (job_count x) (ob_main x)"

lemma jobs_fit_steps:
  "jobs_fit ts js n (O_Job j) \<Longrightarrow> jobs_fit ts (js @ [j]) (n + 1) (O_Adding j)"
  "jobs_fit ts js n (O_Job j) \<Longrightarrow> jobs_fit ts js n O_Exit"
  "jobs_fit ts js n (O_Adding j) \<Longrightarrow> task_runnable t = j \<Longrightarrow> jobs_fit (ts @ [t]) js n (O_Job (Suc j))"
  "jobs_fit ts js n (O_Adding j) \<Longrightarrow> jobs_fit ts js n (O_Threw e)"
  by (auto simp: jobs_fit_def)

lemma jobs_fit_bounds: "jobs_fit ts js n m \<Longrightarrow> length ts \<le> length js \<and> map task_runnable ts = [0..<length ts]"
  by (cases m) (simp_all add: jobs_fit_def)

lemma jobs_fit_next: "jobs_fit ts js n (O_Job j) \<Longrightarrow> length js = j"
  by (simp add: jobs_fit_def)

definition registered_once :: "observer_test \<Rightarrow> bool" where
  "registered_once x \<longleftrightarrow> (\<forall>r. observer_list (jobs x r) = (if r < length (job_list x) then [0] else []))"

abbreviation job_runs :: "nat \<Rightarrow> runnable_ref \<Rightarrow> observer_test \<Rightarrow> bool" where
  "job_runs w r x \<equiv> runs_task w r (s_pool (ob_session x))"

definition job_pcs :: "observer_test \<Rightarrow> bool" where
  "job_pcs x \<longleftrightarrow> (\<forall>w. ob_pc x w \<in> {J_At 0, J_Held 0, J_At 1} \<and> (ob_pc x w \<noteq> J_At 0 \<longrightarrow> (\<exists>r. job_runs w r x)))"

definition notified_once :: "observer_test \<Rightarrow> bool" where
  "notified_once x \<longleftrightarrow> (\<forall>r. count (ob_updates x) r \<le> 1) \<and>
     (\<forall>r. r \<in># ob_updates x \<longleftrightarrow> r \<in># ob_returned x \<or> (\<exists>w. job_runs w r x \<and> ob_pc x w \<noteq> J_At 0))"

definition refs_ok :: "observer_test \<Rightarrow> bool" where
  "refs_ok x \<longleftrightarrow> (destructor x = None \<longleftrightarrow> scheduler_alive x 0) \<and> (crashed x \<longrightarrow> destructor x \<noteq> None) \<and>
     (g_scheduler x \<longleftrightarrow> ob_main x \<noteq> O_Exit) \<and>
     (\<forall>w. destructor x = Some (Some w) \<longrightarrow> (\<exists>r. job_runs w r x) \<and> ob_pc x w = J_At 1) \<and>
     (s_life (ob_session x) \<in> {Stopping_down, Ended} \<longrightarrow> destructor x \<noteq> None)"

definition observer_inv :: "observer_cfg \<Rightarrow> observer_test \<Rightarrow> bool" where
  "observer_inv c x \<longleftrightarrow> jobs_added x \<and> registered_once x \<and> job_pcs x \<and> notified_once x \<and> refs_ok x"

lemma refs_ok_same:
  assumes "refs_ok x" "destructor y = destructor x" "scheduler_alive y 0 = scheduler_alive x 0" "crashed y = crashed x"
    and "g_scheduler y = g_scheduler x" "ob_main y = O_Exit \<longleftrightarrow> ob_main x = O_Exit"
    and "\<forall>w. destructor x = Some (Some w) \<longrightarrow> (\<exists>r. job_runs w r y) \<and> ob_pc y w = J_At 1"
    and "s_life (ob_session y) \<in> {Stopping_down, Ended} \<longrightarrow> destructor x \<noteq> None"
  shows "refs_ok y"
  using assms(1,7,8) unfolding refs_ok_def assms(2-6) by blast

lemma refs_okD:
  assumes "refs_ok x"
  shows "destructor x = None \<longleftrightarrow> scheduler_alive x 0" "crashed x \<Longrightarrow> destructor x \<noteq> None" "g_scheduler x \<longleftrightarrow> ob_main x \<noteq> O_Exit"
    "destructor x = Some (Some w) \<Longrightarrow> \<exists>r. job_runs w r x" "destructor x = Some (Some w) \<Longrightarrow> ob_pc x w = J_At 1"
    "s_life (ob_session x) \<in> {Stopping_down, Ended} \<Longrightarrow> destructor x \<noteq> None"
  using assms unfolding refs_ok_def by blast+

lemma observer_inv_start: "observer_start c x \<Longrightarrow> observer_inv c x"
  by (simp add: observer_start_def observer_inv_def jobs_fit_def registered_once_def job_pcs_def notified_once_def
      refs_ok_def scheduler_alive_def session_start_def pool_init_def Job_new_def runs_task_def)

lemma alive_iff: "job_pcs x \<Longrightarrow> scheduler_alive x ob \<longleftrightarrow> ob = 0 \<and> (g_scheduler x \<or> (\<exists>w. held x w))"
proof -
  assume pcs: "job_pcs x"
  have "w < length (ws (s_pool (ob_session x)))" if h: "held x w" for w
  proof -
    have "ob_pc x w \<noteq> J_At 0" using h by auto
    then obtain r where "job_runs w r x" using pcs by (auto simp: job_pcs_def)
    then show ?thesis by (simp add: runs_task_def)
  qed
  then show ?thesis by (auto simp: scheduler_alive_def list_ex_iff)
qed

lemma unref_inv:
  assumes "job_pcs x" "jobs_added x" "registered_once x" "notified_once x" "\<not> crashed x" "g_scheduler x \<longleftrightarrow> ob_main x \<noteq> O_Exit"
    and "destructor x = None" "s_life (ob_session x) \<in> {Stopping_down, Ended} \<longrightarrow> \<not> scheduler_alive x 0"
    and "\<forall>w. who = Some w \<longrightarrow> (\<exists>r. job_runs w r x) \<and> ob_pc x w = J_At 1"
  shows "observer_inv c (unref who x)"
proof (cases "scheduler_alive x 0")
  case True
  with assms show ?thesis by (simp add: observer_inv_def unref_def refs_ok_def)
next
  case False
  let ?y = "x\<lparr>destructor := Some who\<rparr>"
  have "jobs_added ?y" "registered_once ?y" "job_pcs ?y" "notified_once ?y"
    using assms(1-4) by (simp_all add: registered_once_def job_pcs_def notified_once_def)
  moreover have "scheduler_alive ?y 0 = scheduler_alive x 0" by (simp add: scheduler_alive_def)
  with False assms(5-9) have "refs_ok ?y" by (simp add: refs_ok_def)
  ultimately show ?thesis using False by (simp add: observer_inv_def unref_def)
qed

text \<open>Jobs run once, and have their observer.\<close>

lemma job_once:
  assumes "observer_reach c x" "observer_inv c x" "job_runs w r x"
  shows "r < length (job_list x)" "r \<notin># ob_returned x" "job_runs v r x \<Longrightarrow> v = w"
proof -
  let ?ts = "h_added (s_pool (ob_session x))"
  have fit: "map task_runnable ?ts = [0..<length ?ts]" "length ?ts \<le> length (job_list x)"
    using assms(2) jobs_fit_bounds by (auto simp: observer_inv_def)
  note once = observer.runs_once [OF assms(1) fit(1) assms(3)]
  show "r < length (job_list x)" using once(1) fit(2) by simp
  show "r \<notin># ob_returned x" "job_runs v r x \<Longrightarrow> v = w" using once(2,3) by blast+
qed

subsection \<open>Preservation\<close>

lemma observer_inv_session:
  assumes inv: "observer_inv c x" and keep: "keeps_running (ws (s_pool (ob_session x))) (ws (s_pool s))"
    and added: "h_added (s_pool s) = h_added (s_pool (ob_session x))"
    and new: "\<And>w r. runs_task w r (s_pool s) \<Longrightarrow> job_runs w r x \<or> ob_pc x w = J_At 0"
    and life: "s_life s \<in> {Stopping_down, Ended} \<longrightarrow> destructor x \<noteq> None"
  shows "observer_inv c (x\<lparr>ob_session := s\<rparr>)"
proof -
  let ?y = "x\<lparr>ob_session := s\<rparr>"
  have run: "job_runs w r x \<Longrightarrow> job_runs w r ?y" for w r using keep by (auto simp: runs_task_def keeps_running_def)
  have old: "jobs_added x" "registered_once x" "job_pcs x" "notified_once x" "refs_ok x"
    using inv by (simp_all add: observer_inv_def)
  have pcs: "job_pcs ?y" using old(3) run unfolding job_pcs_def by (simp, metis)
  have alive: "scheduler_alive ?y 0 = scheduler_alive x 0" using alive_iff [OF old(3)] alive_iff [OF pcs] by simp
  have "(\<exists>w. job_runs w r ?y \<and> ob_pc ?y w \<noteq> J_At 0) \<longleftrightarrow> (\<exists>w. job_runs w r x \<and> ob_pc x w \<noteq> J_At 0)" for r
    using run new by (simp, metis)
  then have "notified_once ?y" using old(4) by (simp add: notified_once_def)
  moreover have "\<forall>w. destructor x = Some (Some w) \<longrightarrow> (\<exists>r. job_runs w r ?y) \<and> ob_pc x w = J_At 1"
    using old(5) run unfolding refs_ok_def by blast
  then have "refs_ok ?y" by (intro refs_ok_same [OF old(5)]) (simp_all add: alive life)
  moreover have "jobs_added ?y" "registered_once ?y" using old(1,2) added by (simp_all add: registered_once_def)
  ultimately show ?thesis using pcs by (simp add: observer_inv_def)
qed

text \<open>A worker that takes a task is at the beginning of its job.\<close>

lemma idle_pc_zero:
  assumes "job_pcs x" "\<not> (\<exists>r. job_runs w r x)"
  shows "ob_pc x w = J_At 0"
  using assms by (auto simp: job_pcs_def)

lemma session_new:
  assumes "job_pcs x" "keeps_running (ws (s_pool (ob_session x))) (ws (s_pool s))" "runs_task w r (s_pool s)"
  shows "job_runs w r x \<or> ob_pc x w = J_At 0"
proof (cases "\<exists>r'. job_runs w r' x")
  case True
  then obtain r' where r': "job_runs w r' x" ..
  then have "runs_task w r' (s_pool s)" using assms(2) by (auto simp: runs_task_def keeps_running_def)
  then have "r' = r" using assms(3) by (auto simp: runs_task_def)
  with r' show ?thesis by simp
qed (use idle_pc_zero [OF assms(1)] in blast)

lemma observer_inv_keep:
  assumes "observer_inv c x" "keeps_running (ws (s_pool (ob_session x))) (ws (s_pool s))"
    and "h_added (s_pool s) = h_added (s_pool (ob_session x))"
    and "s_life s \<in> {Stopping_down, Ended} \<longrightarrow> destructor x \<noteq> None"
  shows "observer_inv c (x\<lparr>ob_session := s\<rparr>)"
  using observer_inv_session [OF assms(1-3)] session_new [OF _ assms(2)] assms(1,4) by (auto simp: observer_inv_def)

lemma observer_inv_call:
  assumes "control_call (observer_pool c) SimpleThreadFactory_default (ob_session x) s"
    and "s_life (ob_session x) = Working \<longrightarrow> destructor x \<noteq> None"
    and "observer_inv c x" "observer_reach c x" "observer_reach c (x\<lparr>ob_session := s\<rparr>)"
  shows "observer_inv c (x\<lparr>ob_session := s\<rparr>)"
proof -
  have one: "length (cs (s_pool (ob_session x))) = 1" using observer.sound [OF assms(4)] by (rule sound_one_client)
  note keeps = control_call_keeps [OF assms(1) one]
  have "\<nexists>e. s_life s = Failed e" using sound_not_failed [OF observer.sound [OF assms(5)]] by simp
  from control_call_life [OF assms(1) this] have
    "s_life s \<in> {Stopping_down, Ended} \<longrightarrow> s_life (ob_session x) \<in> {Working, Stopping_down, Ended}" by auto
  moreover have "s_life (ob_session x) \<in> {Stopping_down, Ended} \<Longrightarrow> destructor x \<noteq> None"
    using assms(3) refs_okD(6) by (simp add: observer_inv_def)
  ultimately have "s_life s \<in> {Stopping_down, Ended} \<longrightarrow> destructor x \<noteq> None" using assms(2) by blast
  with keeps show ?thesis by (intro observer_inv_keep [OF assms(3)]) simp_all
qed

lemma observer_inv_add:
  assumes "ob_main x = O_Adding j" "s_life (ob_session x) = Working" "ob_session x = s"
    and "add_call (observer_pool c) 0 j 0 ev (s_pool s) p" "observer_inv c x"
  shows "observer_inv c (x\<lparr>ob_session := s\<lparr>s_pool := p\<rparr>, ob_main := AddJob_added j ev\<rparr>)"
proof -
  let ?s = "s\<lparr>s_pool := p\<rparr>" and ?y = "x\<lparr>ob_session := s\<lparr>s_pool := p\<rparr>, ob_main := AddJob_added j ev\<rparr>"
  have keep: "keeps_running (ws (s_pool (ob_session x))) (ws p)" using task_keeps_running [OF add_call_step [OF assms(4)]] assms(3) by simp
  have old: "jobs_added x" "registered_once x" "job_pcs x" "notified_once x" "refs_ok x"
    using assms(5) by (simp_all add: observer_inv_def)
  have "jobs_added ?y"
  proof (cases ev)
    case Add_done
    then obtain t where t: "h_added p = h_added (s_pool s) @ [t]" "task_runnable t = j" using add_call_added [OF assms(4)] by auto
    with old(1) assms(1,3) Add_done show ?thesis by (simp add: AddJob_added_def jobs_fit_steps)
  qed (use old(1) assms(1,3) add_call_added [OF assms(4)] in \<open>simp_all add: AddJob_added_def jobs_fit_steps\<close>)
  moreover have run: "job_runs w r x \<Longrightarrow> job_runs w r ?y" for w r using keep by (auto simp: runs_task_def keeps_running_def)
  have pcs: "job_pcs ?y" using old(3) run unfolding job_pcs_def by (simp, metis)
  have new: "job_runs w r ?y \<Longrightarrow> job_runs w r x \<or> ob_pc x w = J_At 0" for w r using session_new [OF old(3), of ?s w r] keep by simp
  have "(\<exists>w. job_runs w r ?y \<and> ob_pc ?y w \<noteq> J_At 0) \<longleftrightarrow> (\<exists>w. job_runs w r x \<and> ob_pc x w \<noteq> J_At 0)" for r
    using run new by (simp, metis)
  then have "notified_once ?y" using old(4) by (simp add: notified_once_def)
  moreover have "scheduler_alive ?y 0 = scheduler_alive x 0" using alive_iff [OF old(3)] alive_iff [OF pcs] by simp
  moreover have "\<forall>w. destructor x = Some (Some w) \<longrightarrow> (\<exists>r. job_runs w r ?y) \<and> ob_pc x w = J_At 1"
    using old(5) run unfolding refs_ok_def by blast
  ultimately have "refs_ok ?y"
    by (intro refs_ok_same [OF old(5)]) (use assms(1-3) in \<open>simp_all add: AddJob_added_def split: add_event.split\<close>)
  then show ?thesis using pcs old(2) \<open>jobs_added ?y\<close> \<open>notified_once ?y\<close> by (simp add: observer_inv_def registered_once_def)
qed

lemma observer_inv_job:
  assumes "ob_main x = O_Job j" "j < ob_jobs c" "observer_inv c x" "observer_reach c x"
  shows "observer_inv c (AddJob j x)"
proof -
  have old: "jobs_added x" "registered_once x" "job_pcs x" "notified_once x" "refs_ok x"
    using assms(3) by (simp_all add: observer_inv_def)
  have len: "length (job_list x) = j" using old(1) assms(1) by (simp add: jobs_fit_next)
  have "jobs_added (AddJob j x)" using old(1) assms(1) by (simp add: AddJob_def jobs_fit_steps)
  moreover have "registered_once (AddJob j x)" using old(2) len
    by (auto simp: registered_once_def AddJob_def Job_RegisterObserver_def)
  moreover have "job_pcs (AddJob j x)" "notified_once (AddJob j x)" using old(3,4)
    by (simp_all add: job_pcs_def notified_once_def AddJob_def)
  moreover have "refs_ok (AddJob j x)"
    by (rule refs_ok_same [OF old(5)]) (use old(5) assms(1) in \<open>auto simp: refs_ok_def AddJob_def scheduler_alive_def\<close>)
  ultimately show ?thesis by (simp add: observer_inv_def)
qed

lemma observer_inv_exit:
  assumes "ob_main x = O_Job j" "s_life (ob_session x) = Working" "observer_inv c x" "\<not> crashed x"
  shows "observer_inv c (unref None (x\<lparr>g_scheduler := False, ob_main := O_Exit\<rparr>))"
proof -
  have old: "jobs_added x" "registered_once x" "job_pcs x" "notified_once x" "refs_ok x"
    using assms(3) by (simp_all add: observer_inv_def)
  have "g_scheduler x" using old(5) assms(1) by (simp add: refs_ok_def)
  then have "destructor x = None" using old(5) by (simp add: refs_ok_def scheduler_alive_def)
  moreover let ?y = "x\<lparr>g_scheduler := False, ob_main := O_Exit\<rparr>"
  have "jobs_added ?y" using old(1) assms(1) by (simp add: jobs_fit_steps)
  moreover have "registered_once ?y" "job_pcs ?y" "notified_once ?y"
    using old(2-4) by (simp_all add: registered_once_def job_pcs_def notified_once_def)
  ultimately show ?thesis using assms by (intro unref_inv) simp_all
qed

lemma observer_inv_lock:
  assumes "\<not> crashed x" "job_runs w r x" "ob_pc x w = J_At i" "i < length (observer_list (jobs x r))" "observer_inv c x" "observer_reach c x"
  shows "observer_inv c (Notify_lock w r i x)"
proof -
  have old: "jobs_added x" "registered_once x" "job_pcs x" "notified_once x" "refs_ok x"
    using assms(5) by (simp_all add: observer_inv_def)
  note once = job_once [OF assms(6,5,2)]
  have obs: "observer_list (jobs x r) = [0]" using old(2) once(1) by (simp add: registered_once_def)
  then have i: "i = 0" using assms(4) by simp
  show ?thesis
  proof (cases "scheduler_alive x 0")
    case True
    let ?y = "x\<lparr>ob_pc := (ob_pc x)(w := J_Held 0), ob_updates := add_mset r (ob_updates x)\<rparr>"
    have y: "Notify_lock w r i x = ?y" using True obs i by (simp add: Notify_lock_def lock_weak_def)
    have "r \<notin># ob_updates x" using old(4) once(2,3) assms(3) i by (auto simp: notified_once_def)
    then have zero: "count (ob_updates x) r = 0" by (simp add: count_eq_zero_iff)
    have "count (ob_updates ?y) r' \<le> 1" for r' using old(4) zero by (cases "r' = r") (simp_all add: notified_once_def)
    moreover have "r' \<in># ob_updates ?y \<longleftrightarrow> r' \<in># ob_returned ?y \<or> (\<exists>v. job_runs v r' ?y \<and> ob_pc ?y v \<noteq> J_At 0)" for r'
    proof -
      have "job_runs w r' x \<longleftrightarrow> r' = r" using assms(2) by (auto simp: runs_task_def)
      then show ?thesis using old(4) assms(3) i unfolding notified_once_def by auto
    qed
    ultimately have noted: "notified_once ?y" unfolding notified_once_def by blast
    have pcs: "job_pcs ?y" using old(3) assms(2) by (auto simp: job_pcs_def)
    have "scheduler_alive ?y 0" using assms(2) by (auto simp: scheduler_alive_def list_ex_iff runs_task_def)
    moreover have none: "destructor x = None" using True refs_okD(1) [OF old(5)] by simp
    moreover have "s_life (ob_session x) \<notin> {Stopping_down, Ended}" using refs_okD(6) [OF old(5)] none by blast
    ultimately have "refs_ok ?y" using True by (intro refs_ok_same [OF old(5)]) simp_all
    then show ?thesis unfolding y using old(1,2) noted pcs by (simp add: observer_inv_def registered_once_def)
  next
    case False
    have y: "Notify_lock w r i x = x\<lparr>crashed := True\<rparr>" using False obs i by (simp add: Notify_lock_def lock_weak_def)
    have "scheduler_alive (x\<lparr>crashed := True\<rparr>) 0 = scheduler_alive x 0" by (simp add: scheduler_alive_def)
    then have "refs_ok (x\<lparr>crashed := True\<rparr>)" using refs_okD [OF old(5)] False unfolding refs_ok_def by simp
    then show ?thesis unfolding y using old(1-4) by (simp add: observer_inv_def registered_once_def job_pcs_def notified_once_def)
  qed
qed

lemma observer_inv_release:
  assumes "\<not> crashed x" "ob_pc x w = J_Held i" "observer_inv c x"
  shows "observer_inv c (Notify_release w i x)"
proof -
  have old: "jobs_added x" "registered_once x" "job_pcs x" "notified_once x" "refs_ok x"
    using assms(3) by (simp_all add: observer_inv_def)
  have "ob_pc x w \<in> {J_At 0, J_Held 0, J_At 1}" "ob_pc x w \<noteq> J_At 0 \<longrightarrow> (\<exists>r. job_runs w r x)"
    using old(3) unfolding job_pcs_def by blast+
  then have i: "i = 0" and run: "\<exists>r. job_runs w r x" using assms(2) by auto
  have "scheduler_alive x 0" using alive_iff [OF old(3)] assms(2) by (metis held_pc.simps(2))
  then have none: "destructor x = None" using refs_okD(1) [OF old(5)] by simp
  let ?y = "x\<lparr>ob_pc := (ob_pc x)(w := J_At (Suc i))\<rparr>"
  have "(ob_pc ?y v \<noteq> J_At 0) = (ob_pc x v \<noteq> J_At 0)" for v using assms(2) by simp
  then have "notified_once ?y" using old(4) by (simp add: notified_once_def)
  moreover have "job_pcs ?y" using old(3) run i by (auto simp: job_pcs_def)
  ultimately show ?thesis unfolding Notify_release_def
    using old(1,2) refs_okD(3,6) [OF old(5)] none assms(1) run i by (intro unref_inv) (auto simp: registered_once_def)
qed

lemma ended_no_job: "observer_reach c x \<Longrightarrow> s_life (ob_session x) = Ended \<Longrightarrow> \<not> job_runs w r x"
proof
  assume "observer_reach c x" "s_life (ob_session x) = Ended" "job_runs w r x"
  then have "\<forall>p \<in> set (ws (s_pool (ob_session x))). p = W_Done True" using ended_workers [OF observer.sound] by blast
  moreover obtain t where "w < length (ws (s_pool (ob_session x)))" "ws (s_pool (ob_session x)) ! w = W_Run (Some t)"
    using \<open>job_runs w r x\<close> by (auto simp: runs_task_def)
  then have "W_Run (Some t) \<in> set (ws (s_pool (ob_session x)))" by (metis nth_mem)
  ultimately show False by blast
qed

lemma observer_inv_return:
  assumes "task_ends w t (s_pool s) p" "ob_session x = s" "ob_pc x w = J_At (length (observer_list (jobs x (task_runnable t))))"
    and "worker_free w x" "observer_inv c x" "observer_reach c x"
  shows "observer_inv c (x\<lparr>ob_session := s\<lparr>s_pool := p\<rparr>, ob_pc := (ob_pc x)(w := J_At 0),
       ob_returned := add_mset (task_runnable t) (ob_returned x)\<rparr>)" (is "observer_inv c ?y")
proof -
  have old: "jobs_added x" "registered_once x" "job_pcs x" "notified_once x" "refs_ok x"
    using assms(5) by (simp_all add: observer_inv_def)
  have run: "job_runs v r ?y \<longleftrightarrow> v \<noteq> w \<and> job_runs v r x" for v r
    using assms(1,2) by (cases "v = w") (auto simp: runs_task_def task_ends_def)
  have me: "job_runs w r x \<longleftrightarrow> r = task_runnable t" for r using assms(1,2) by (auto simp: runs_task_def task_ends_def)
  note once = job_once [OF assms(6,5), of w "task_runnable t"]
  have pc: "ob_pc x w = J_At 1" using assms(3) once(1) me old(2) by (simp add: registered_once_def)
  have "destructor x \<noteq> Some (Some w)"
  proof
    assume "destructor x = Some (Some w)"
    then have "s_life (ob_session x) = Ended" using assms(4) by (simp add: worker_free_def)
    from ended_no_job [OF assms(6) this] me show False by blast
  qed
  then have des: "\<forall>v. destructor x = Some (Some v) \<longrightarrow> (\<exists>r. job_runs v r ?y) \<and> ob_pc ?y v = J_At 1"
    using refs_okD(4,5) [OF old(5)] run by auto
  have pcs: "job_pcs ?y" using old(3) run by (auto simp: job_pcs_def)
  have "held ?y v = held x v" for v using pc by simp
  then have "scheduler_alive ?y 0 = scheduler_alive x 0" using alive_iff [OF old(3)] alive_iff [OF pcs] by simp
  then have refs: "refs_ok ?y" using des refs_okD(6) [OF old(5)] assms(2) by (intro refs_ok_same [OF old(5)]) auto
  have "r \<in># ob_updates ?y \<longleftrightarrow> r \<in># ob_returned ?y \<or> (\<exists>v. job_runs v r ?y \<and> ob_pc ?y v \<noteq> J_At 0)" for r
  proof -
    have "r \<in># ob_updates x \<longleftrightarrow> r \<in># ob_returned x \<or> (\<exists>v. job_runs v r x \<and> ob_pc x v \<noteq> J_At 0)"
      using old(4) by (simp add: notified_once_def)
    moreover have "(\<exists>v. job_runs v r ?y \<and> ob_pc ?y v \<noteq> J_At 0) \<longleftrightarrow> (\<exists>v. v \<noteq> w \<and> job_runs v r x \<and> ob_pc x v \<noteq> J_At 0)"
      unfolding run by auto
    moreover have "ob_pc x w \<noteq> J_At 0" using pc by simp
    ultimately show ?thesis using me by (cases "r = task_runnable t") (simp_all, metis+)
  qed
  then have "notified_once ?y" using old(4) by (simp add: notified_once_def)
  moreover have "jobs_added ?y" using old(1) assms(2) task_ends_runs [OF assms(1)] by simp
  ultimately show ?thesis using refs pcs old(2) by (simp add: observer_inv_def registered_once_def)
qed

lemma observer_inv_step: "observer_step c x y \<Longrightarrow> observer_inv c x \<Longrightarrow> observer_reach c x \<Longrightarrow> observer_reach c y \<Longrightarrow> observer_inv c y"
proof (induction rule: observer_step.induct)
  case (observer_call x s)
  then show ?case by (intro observer_inv_call)
next
  case (observer_job x j)
  then show ?case by (intro observer_inv_job)
next
  case (observer_add x j s ev p)
  then show ?case by (intro observer_inv_add)
next
  case (observer_exit x)
  then show ?case by (intro observer_inv_exit)
next
  case (observer_worker x s p)
  have life: "s_life s \<in> {Stopping_down, Ended} \<longrightarrow> destructor x \<noteq> None"
    using refs_okD(6) observer_worker(2,5) by (auto simp: observer_inv_def)
  show ?case
    using worker_keeps_running [OF observer_worker(3,4)] worker_added [OF observer_worker(3)] observer_worker(2) life
    by (intro observer_inv_keep [OF observer_worker(5)]) simp_all
next
  case (observer_lock x w r i)
  then show ?case by (intro observer_inv_lock)
next
  case (observer_release x w i)
  then show ?case by (intro observer_inv_release)
next
  case (observer_return x w t s p)
  then show ?case by (intro observer_inv_return)
next
  case (observer_wakes x s p)
  have life: "s_life s \<in> {Stopping_down, Ended} \<longrightarrow> destructor x \<noteq> None"
    using refs_okD(6) observer_wakes(2,5) by (auto simp: observer_inv_def)
  show ?case using observer_wakes(2,4) life by (intro observer_inv_keep [OF observer_wakes(5)]) simp_all
qed

interpretation observer_ok: relative_invariant "observer_start c" "observer_step c" "observer_reach c" "observer_inv c"
  by (intro relative_invariant.intro reachable_invariant relative_invariant_axioms.intro)
    (blast intro: observer_inv_start observer_inv_step)+

lemmas observer_inv_always = observer_ok.both.always [THEN conjunct2]

subsection \<open>Properties\<close>

text \<open>C15. Every job that has returned has notified the scheduler once, no job notifies it twice, and nothing crashes as long
  as the scheduler is alive; the scheduler has counted the jobs of its list, which are those that were passed to \<open>AddJob\<close>.\<close>

theorem Observer_notified_once:
  assumes "observer_reach c x"
  shows "(\<forall>r. count (ob_updates x) r \<le> 1) \<and> ob_returned x \<subseteq># ob_updates x \<and> (scheduler_alive x 0 \<longrightarrow> \<not> crashed x) \<and>
    job_list x = [0..<length (job_list x)] \<and> job_count x = of_nat (length (job_list x)) \<and>
    (\<forall>r \<in># ob_updates x. r < length (job_list x))"
proof -
  have inv: "observer_inv c x" using assms by (rule observer_inv_always)
  then have old: "jobs_added x" "registered_once x" "job_pcs x" "notified_once x" "refs_ok x" by (simp_all add: observer_inv_def)
  let ?p = "s_pool (ob_session x)"
  have reach: "reach (observer_pool c) ?p" using observer.sound [OF assms] by (simp add: session_sound_def)
  note acc = observer.accounted [OF assms] and bounds = jobs_fit_bounds [OF old(1)]
  have ret: "count (ob_returned x) r \<le> 1" for r
    using started_once [OF reach, of r] bounds acc by simp
  have sub: "ob_returned x \<subseteq># ob_updates x"
  proof (rule mset_subset_eqI)
    fix r
    show "count (ob_returned x) r \<le> count (ob_updates x) r"
    proof (cases "r \<in># ob_returned x")
      case True
      then have "r \<in># ob_updates x" using old(4) by (simp add: notified_once_def)
      with ret [of r] show ?thesis by (metis One_nat_def Suc_leI count_greater_zero_iff le_trans)
    qed (simp add: not_in_iff)
  qed
  have "r < length (job_list x)" if "r \<in># ob_updates x" for r
  proof -
    from that old(4) consider "r \<in># ob_returned x" | w where "job_runs w r x" by (auto simp: notified_once_def)
    then show ?thesis
    proof cases
      case 1
      then have "r \<in># started_runs ?p" using acc by simp
      then have "r \<in># mset [0..<length (h_added ?p)]" using started_numbers [OF reach] bounds mset_subset_eqD by metis
      with bounds show ?thesis by simp
    next
      case 2
      with job_once(1) [OF assms inv] show ?thesis by blast
    qed
  qed
  moreover have "scheduler_alive x 0 \<longrightarrow> \<not> crashed x" using refs_okD(1,2) [OF old(5)] by blast
  ultimately show ?thesis using old(1,4) sub by (auto simp: jobs_fit_def notified_once_def)
qed

text \<open>C37. If a worker gives up the last reference, it runs \<^verbatim>\<open>~Scheduler\<close>, whose \<open>Stop\<close> waits for all workers to end: the
  destructor never returns.\<close>

theorem Observer_self_join:
  assumes "observer_reach c x" "destructor x = Some (Some w)"
  shows "s_life (ob_session x) \<noteq> Ended \<and> (\<forall>y. observer_step c x y \<longrightarrow> destructor y = Some (Some w))"
proof (intro conjI allI impI)
  have inv: "observer_inv c x" using assms(1) by (rule observer_inv_always)
  then have old: "job_pcs x" "refs_ok x" by (simp_all add: observer_inv_def)
  show "s_life (ob_session x) \<noteq> Ended"
  proof
    assume ended: "s_life (ob_session x) = Ended"
    obtain r where "job_runs w r x" using refs_okD(4) [OF old(2) assms(2)] by blast
    with ended_no_job [OF assms(1) ended] show False by blast
  qed
  have dead: "\<not> scheduler_alive x 0" using refs_okD(1) [OF old(2)] assms(2) by simp
  then have gone: "\<not> g_scheduler x" "\<not> held x v" for v using alive_iff [OF old(1)] by auto
  fix y assume "observer_step c x y"
  then show "destructor y = Some (Some w)"
  proof cases
    case observer_exit
    with refs_okD(3) [OF old(2)] gone(1) show ?thesis by simp
  next
    case (observer_release v i)
    with gone(2) [of v] show ?thesis by simp
  next
    case (observer_lock v r i)
    then show ?thesis using assms(2) by (simp add: Notify_lock_def split: option.split)
  qed (use assms(2) in \<open>simp_all add: AddJob_def\<close>)
qed

subsection \<open>Two runs\<close>

text \<open>One worker, one job.\<close>

definition observer_ex :: observer_cfg where
  "observer_ex = \<lparr>ob_workers = 1, ob_pending = 1024, ob_jobs = 1, ob_ids = (\<lambda>w. w + 100), ob_thread = 0\<rparr>"

lemma observer_ex_simps [simp]:
  "observer_pool observer_ex = one_cfg 1024" "ob_jobs observer_ex = 1"
  by (simp_all add: observer_ex_def)

definition observer_at ::
  "pool \<Rightarrow> session_life \<Rightarrow> nat \<Rightarrow> observer_main \<Rightarrow> job_pc \<Rightarrow> nat option option \<Rightarrow> bool \<Rightarrow> runnable_ref multiset \<Rightarrow> observer_test" where
  "observer_at p l n m pc des crash ups =
     \<lparr>ob_session = \<lparr>s_pool = p, s_life = l\<rparr>, job_list = [0..<n], job_count = of_nat n,
      jobs = (\<lambda>i. \<lparr>book_path = to_string (int i) @ ''_job'', observer_list = (if i < n then [0] else [])\<rparr>),
      g_scheduler = (m \<noteq> O_Exit), ob_main = m, ob_pc = (\<lambda>w. J_At 0)(0 := pc), destructor = des, crashed = crash,
      ob_updates = ups, ob_returned = {#}\<rparr>"

lemma observer_at_simps [simp]:
  "ob_session (observer_at p l n m pc des crash ups) = \<lparr>s_pool = p, s_life = l\<rparr>" "ob_main (observer_at p l n m pc des crash ups) = m"
  "ob_pc (observer_at p l n m pc des crash ups) 0 = pc" "destructor (observer_at p l n m pc des crash ups) = des"
  "crashed (observer_at p l n m pc des crash ups) = crash"
  "observer_list (jobs (observer_at p l n m pc des crash ups) r) = (if r < n then [0] else [])"
  "(observer_at p l n m pc des crash ups)\<lparr>ob_session := \<lparr>s_pool = p', s_life = l'\<rparr>\<rparr> = observer_at p' l' n m pc des crash ups"
  by (simp_all add: observer_at_def)

definition observer_busy :: pool where
  "observer_busy = one_pool SimpleThreadFactory_default 1024 [] (W_Run (Some (plain_task 0 EXECUTING))) (C_Ret None)
     [plain_task 0 WAITING] [plain_task 0 WAITING]"

lemma observer_run_call:
  assumes "observer_reach observer_ex (observer_at (s_pool s) (s_life s) 0 (O_Job 0) (J_At 0) None False {#})"
    and "control_call (one_cfg 1024) SimpleThreadFactory_default s t" "s_life s \<noteq> Working"
  shows "observer_reach observer_ex (observer_at (s_pool t) (s_life t) 0 (O_Job 0) (J_At 0) None False {#})"
  using reachable_step [OF assms(1) observer_call [of "observer_at (s_pool s) (s_life s) 0 (O_Job 0) (J_At 0) None False {#}" observer_ex t]]
    assms(2,3) by (cases s; cases t) simp

lemma observer_run_worker:
  assumes "observer_reach observer_ex (observer_at p l n m pc des False ups)" "worker_step p p'" "\<forall>q \<in> set (ws p). \<forall>t. q \<noteq> W_Run t"
  shows "observer_reach observer_ex (observer_at p' l n m pc des False ups)"
proof -
  have "\<not> job_ends p p'" using assms(3) by (auto simp: job_ends_def)
  then show ?thesis
    using reachable_step [OF assms(1) observer_worker [of "observer_at p l n m pc des False ups" "\<lparr>s_pool = p, s_life = l\<rparr>" p']] assms(2) by simp
qed

lemma observer_run_working:
  "observer_reach observer_ex (observer_at (one_pool SimpleThreadFactory_default 1024 [] W_Loop (C_Ret None) [] []) Working 0
     (O_Job 0) (J_At 0) None False {#})"
proof -
  let ?Q = "\<lambda>s. observer_reach observer_ex (observer_at (s_pool s) (s_life s) 0 (O_Job 0) (J_At 0) None False {#})"
  have "?Q (one_session (one_pool SimpleThreadFactory_default 1024 [] W_Loop (C_Ret None) [] []) Working)"
  proof (rule one_run_working)
    show "?Q (one_session (pool_init 1) Fresh)"
      by (rule reachable_init) (simp add: observer_start_def session_start_def observer_at_def Job_new_def fun_eq_iff)
    show "?Q s \<Longrightarrow> control_call (one_cfg 1024) SimpleThreadFactory_default s t \<Longrightarrow> s_life s \<noteq> Working \<Longrightarrow> ?Q t" for s t
      by (rule observer_run_call)
    show "?Q s \<Longrightarrow> worker_step (s_pool s) p \<Longrightarrow> \<forall>q \<in> set (ws (s_pool s)). q \<noteq> W_Wait \<and> (\<forall>t. q \<noteq> W_Run t) \<Longrightarrow> ?Q (s\<lparr>s_pool := p\<rparr>)" for s p
      using observer_run_worker [of "s_pool s"] by simp
  qed
  then show ?thesis by simp
qed

lemma observer_run_busy: "observer_reach observer_ex (observer_at observer_busy Working 1 (O_Job 1) (J_At 0) None False {#})"
proof -
  let ?p = "\<lambda>ts added. one_pool SimpleThreadFactory_default 1024 ts W_Loop (C_Ret None) added []"
  let ?t = "plain_task 0 WAITING"
  have "AddJob 0 (observer_at (?p [] []) Working 0 (O_Job 0) (J_At 0) None False {#}) =
      observer_at (?p [] []) Working 1 (O_Adding 0) (J_At 0) None False {#}"
    by (simp add: AddJob_def observer_at_def Job_RegisterObserver_def fun_eq_iff)
  with observer_job [of "observer_at (?p [] []) Working 0 (O_Job 0) (J_At 0) None False {#}" 0 observer_ex]
  have adding: "observer_reach observer_ex (observer_at (?p [] []) Working 1 (O_Adding 0) (J_At 0) None False {#})"
    using reachable_step [OF observer_run_working] by simp
  have "add_call (one_cfg 1024) 0 0 0 Add_done (?p [] []) (?p [?t] [?t])" using one_add [where added = "[]"] by simp
  with observer_add [of "observer_at (?p [] []) Working 1 (O_Adding 0) (J_At 0) None False {#}" 0 "\<lparr>s_pool = ?p [] [], s_life = Working\<rparr>" observer_ex Add_done]
  have "observer_step observer_ex (observer_at (?p [] []) Working 1 (O_Adding 0) (J_At 0) None False {#})
      (observer_at (?p [?t] [?t]) Working 1 (O_Job 1) (J_At 0) None False {#})"
    by (simp add: AddJob_added_def) (simp add: observer_at_def)
  then have "observer_reach observer_ex (observer_at (?p [?t] [?t]) Working 1 (O_Job 1) (J_At 0) None False {#})"
    by (rule reachable_step [OF adding])
  then show ?thesis
    using observer_run_worker [OF _ one_take [where added = "[?t]" and removed = "[]"]]
    by (simp add: observer_busy_def) (simp add: ex_pool_def)
qed

lemma busy_runs: "runs_task 0 0 observer_busy" "length (ws observer_busy) = 1"
  by (simp_all add: observer_busy_def runs_task_def ex_pool_def plain_task_def)

text \<open>The scheduler is destroyed by the main thread while the worker is on the way to its observer.\<close>

theorem Observer_can_crash:
  "\<exists>x. observer_reach observer_ex x \<and> crashed x \<and> ob_main x = O_Exit"
proof -
  let ?x = "observer_at observer_busy Working 1 (O_Job 1) (J_At 0) None False {#}"
  let ?y = "observer_at observer_busy Working 1 O_Exit (J_At 0) (Some None) False {#}"
  have "unref None (?x\<lparr>g_scheduler := False, ob_main := O_Exit\<rparr>) = ?y"
    using busy_runs(2) by (simp add: unref_def scheduler_alive_def observer_at_def)
  with observer_exit [of ?x observer_ex] have y: "observer_reach observer_ex ?y" using reachable_step [OF observer_run_busy] by simp
  have "crashed (Notify_lock 0 0 0 ?y) \<and> ob_main (Notify_lock 0 0 0 ?y) = O_Exit"
    using busy_runs(2) by (simp add: Notify_lock_def lock_weak_def scheduler_alive_def observer_at_def)
  moreover have "observer_step observer_ex ?y (Notify_lock 0 0 0 ?y)"
    using busy_runs(1) by (intro observer_lock) (simp_all add: worker_free_def)
  ultimately show ?thesis using reachable_step [OF y] by blast
qed

lemma observer_run_held: "observer_reach observer_ex (observer_at observer_busy Working 1 (O_Job 1) (J_Held 0) None False {#0#})"
proof -
  let ?x = "observer_at observer_busy Working 1 (O_Job 1) (J_At 0) None False {#}"
  have "Notify_lock 0 0 0 ?x = observer_at observer_busy Working 1 (O_Job 1) (J_Held 0) None False {#0#}"
    by (simp add: Notify_lock_def lock_weak_def scheduler_alive_def observer_at_def)
  moreover have "observer_step observer_ex ?x (Notify_lock 0 0 0 ?x)"
    using busy_runs(1) by (intro observer_lock) (simp_all add: worker_free_def)
  ultimately show ?thesis using reachable_step [OF observer_run_busy] by simp
qed

lemma observer_run_last: "observer_reach observer_ex (observer_at observer_busy Working 1 O_Exit (J_At 1) (Some (Some 0)) False {#0#})"
proof -
  let ?x = "observer_at observer_busy Working 1 (O_Job 1) (J_Held 0) None False {#0#}"
  let ?y = "observer_at observer_busy Working 1 O_Exit (J_Held 0) None False {#0#}"
  have "unref None (?x\<lparr>g_scheduler := False, ob_main := O_Exit\<rparr>) = ?y"
    using busy_runs(2) by (simp add: unref_def scheduler_alive_def observer_at_def)
  with observer_exit [of ?x observer_ex] have y: "observer_reach observer_ex ?y" using reachable_step [OF observer_run_held] by simp
  have "Notify_release 0 0 ?y = observer_at observer_busy Working 1 O_Exit (J_At 1) (Some (Some 0)) False {#0#}"
    using busy_runs(2) by (simp add: Notify_release_def unref_def scheduler_alive_def observer_at_def)
  with observer_release [of ?y 0 0 observer_ex] show ?thesis using reachable_step [OF y] by simp
qed

theorem Observer_notified_once_witness:
  "let x = observer_at observer_busy Working 1 (O_Job 1) (J_Held 0) None False {#0#}
   in scheduler_alive x 0 \<and> \<not> crashed x \<and> count (ob_updates x) 0 \<le> 1 \<and> ob_updates x = {#0#}"
  using Observer_notified_once [OF observer_run_held] by (simp add: Let_def) (simp add: scheduler_alive_def observer_at_def)

theorem Observer_self_join_witness:
  "let x = observer_at observer_busy Working 1 O_Exit (J_At 1) (Some (Some 0)) False {#0#}
   in observer_reach observer_ex x \<and> s_life (ob_session x) \<noteq> Ended \<and>
      {y. observer_step observer_ex x y} \<subseteq> {y. destructor y = Some (Some 0)}"
  using Observer_self_join [OF observer_run_last] observer_run_last by (auto simp: Let_def)

end
