(* ===== verification/Splitter_Test.thy ===== *)
theory Splitter_Test
  imports Splitter_System Session_Run
begin

text \<open>
  The splitter test (\<^verbatim>\<open>src/splitter_unittest.cc\<close>): a \<^verbatim>\<open>SplitterJobScheduler\<close> with its pool, from the constructor
  (\<open>Init\<close>) to the destructor. The main thread creates one job per letter, adds it, calls \<^verbatim>\<open>WaitAllJobDone\<close>, and leaves the
  scope of its \<^verbatim>\<open>shared_ptr\<close>. A worker that runs a job splits the book, locks the scheduler through the weak pointer of
  the job, runs \<^verbatim>\<open>OnCompletedJob\<close>, and lets go of the scheduler; whoever lets go of it last runs the destructor.

  The counter, the sections on it and the waiting are those of \<open>Scheduler\<close>, the jobs those of \<open>Splitter\<close>. \<open>sc_throws\<close> says for
  which jobs the third-party splitter throws, \<open>sc_api\<close> what it does otherwise. Client 0 of the pool is the main thread, and
  later the thread that runs the destructor. \<open>st_completed\<close> and \<open>st_returned\<close> are history.

  \<^verbatim>\<open>WaitAllJobDone\<close> waits without holding the mutex of the monitor, which POSIX leaves undefined; it is taken as a wait that
  neither needs nor takes the mutex.
\<close>

subsection \<open>The test\<close>

datatype split_main =
    M_Job nat       \<comment> \<open>setting up, or at the head of the loop\<close>
  | M_Adding nat    \<comment> \<open>in \<^verbatim>\<open>AddSplitterJob\<close>, before or in \<^verbatim>\<open>thread_manager_->Add(job)\<close>\<close>
  | M_Count nat     \<comment> \<open>before the section at its end\<close>
  | M_Wait          \<comment> \<open>in \<^verbatim>\<open>WaitAllJobDone\<close>\<close>
  | M_Exit          \<comment> \<open>\<^verbatim>\<open>splitter_job_scheduler\<close> is out of scope\<close>
  | M_Threw exn

datatype split_pc =
    S_Split
  | S_At nat        \<comment> \<open>before the observer with this index\<close>
  | S_Held nat      \<comment> \<open>holding it, before the section of \<^verbatim>\<open>OnCompletedJob\<close>\<close>
  | S_Done nat      \<comment> \<open>after that section\<close>

record split_test =
  st_session :: session
  st_jobs :: "runnable_ref \<Rightarrow> SplitterJob"
  st_sched :: scheduler
  st_main :: split_main
  st_pc :: "nat \<Rightarrow> split_pc"
  st_destructor :: "nat option option"   \<comment> \<open>who runs the destructor: the main thread, or a worker\<close>
  st_crashed :: bool
  st_completed :: "runnable_ref multiset"
  st_returned :: "runnable_ref multiset"

record 'e split_cfg =
  sc_workers :: size_t
  sc_pending :: size_t
  sc_prefixes :: string
  sc_api :: "'e epub_api"
  sc_throws :: "runnable_ref \<Rightarrow> bool"
  sc_ids :: "thread_ref \<Rightarrow> pthread_t"
  sc_main :: pthread_t

abbreviation split_pool :: "'e split_cfg \<Rightarrow> pool_cfg" where
  "split_pool c \<equiv> session_cfg (sc_workers c) (sc_pending c) (sc_ids c) (sc_main c)"

abbreviation split_jobs :: "'e split_cfg \<Rightarrow> nat" where
  "split_jobs c \<equiv> length (sc_prefixes c)"

definition input_epub_path :: "'e split_cfg \<Rightarrow> nat \<Rightarrow> string" where
  "input_epub_path c r = ''./test_data/'' @ [sc_prefixes c ! r] @ ''.epub''"

definition split_start :: "'e split_cfg \<Rightarrow> split_test \<Rightarrow> bool" where
  "split_start c x \<longleftrightarrow> session_start (st_session x) \<and> st_jobs x = (\<lambda>_. ObservableSplitterJob_new) \<and>
     st_sched x = SplitterJobScheduler_new 0 1 \<and> st_main x = M_Job 0 \<and> st_pc x = (\<lambda>_. S_Split) \<and>
     st_destructor x = None \<and> \<not> st_crashed x \<and> st_completed x = {#} \<and> st_returned x = {#}"

text \<open>The scheduler is observer 0.\<close>

fun holds :: "split_pc \<Rightarrow> bool" where
  "holds (S_Held i) = True"
| "holds (S_Done i) = True"
| "holds p = False"

definition split_alive :: "split_test \<Rightarrow> observer \<Rightarrow> bool" where
  "split_alive x ob \<longleftrightarrow> ob = 0 \<and>
     (st_main x \<noteq> M_Exit \<or> list_ex (\<lambda>w. holds (st_pc x w)) [0..<length (ws (s_pool (st_session x)))])"

text \<open>The body of the loop up to \<^verbatim>\<open>thread_manager_->Add(job)\<close>: \<^verbatim>\<open>CreateSplitterJob\<close> with the default factory, \<^verbatim>\<open>SetBookPath\<close>, and
  the first lines of \<^verbatim>\<open>AddSplitterJob\<close>.\<close>

definition CreateSplitterJob :: SplitterJob where
  "CreateSplitterJob = CreateJob"

definition SplitterTest_job :: "'e split_cfg \<Rightarrow> runnable_ref \<Rightarrow> split_test \<Rightarrow> split_test" where
  "SplitterTest_job c r x = x\<lparr>st_main := M_Adding r,
     st_jobs := (st_jobs x)(r := RegisterObserver (split_alive x) 0 (SetBookPath (input_epub_path c r) CreateSplitterJob))\<rparr>"

definition SplitterTest_added :: "nat \<Rightarrow> add_event \<Rightarrow> split_main" where
  "SplitterTest_added j ev = (case ev of Add_pending \<Rightarrow> M_Adding j | Add_done \<Rightarrow> M_Count j | Add_threw e \<Rightarrow> M_Threw e)"

definition SplitterTest_count :: "nat \<Rightarrow> split_test \<Rightarrow> split_test" where
  "SplitterTest_count j x = x\<lparr>st_sched := AddSplitterJob_count (st_sched x), st_main := M_Job (Suc j)\<rparr>"

text \<open>A reference is given up: the last one starts the destructor.\<close>

definition release :: "nat option \<Rightarrow> split_test \<Rightarrow> split_test" where
  "release who x = (if split_alive x 0 then x else x\<lparr>st_destructor := Some who\<rparr>)"

text \<open>\<^verbatim>\<open>Run\<close> of the job \<open>r\<close> by worker \<open>w\<close>: \<^verbatim>\<open>Split\<close>, through a pointer that must not be null, and the loop over the observers.\<close>

definition Run_split :: "'e split_cfg \<Rightarrow> nat \<Rightarrow> runnable_ref \<Rightarrow> split_test \<Rightarrow> split_test" where
  "Run_split c w r x =
     (let job = st_jobs x r in
      if \<not> has_splitter job then x\<lparr>st_crashed := True\<rparr>
      else x\<lparr>st_pc := (st_pc x)(w := S_At 0), st_jobs := (st_jobs x)(r := job\<lparr>output_paths :=
        snd (EpubSectionSplitter_Split (sc_api c) (book_path job) (output_paths job))\<rparr>)\<rparr>)"

definition Run_lock :: "nat \<Rightarrow> runnable_ref \<Rightarrow> nat \<Rightarrow> split_test \<Rightarrow> split_test" where
  "Run_lock w r i x =
     (case weak_lock (split_alive x) (observer_list (st_jobs x r) ! i) of
        None \<Rightarrow> x\<lparr>st_crashed := True\<rparr>
      | Some _ \<Rightarrow> x\<lparr>st_pc := (st_pc x)(w := S_Held i)\<rparr>)"

definition Run_complete :: "nat \<Rightarrow> runnable_ref \<Rightarrow> nat \<Rightarrow> split_test \<Rightarrow> split_test" where
  "Run_complete w r i x = x\<lparr>st_sched := OnCompletedJob (st_sched x), st_pc := (st_pc x)(w := S_Done i),
     st_completed := add_mset r (st_completed x)\<rparr>"

definition Run_release :: "nat \<Rightarrow> nat \<Rightarrow> split_test \<Rightarrow> split_test" where
  "Run_release w i x = release (Some w) (x\<lparr>st_pc := (st_pc x)(w := S_At (Suc i))\<rparr>)"

text \<open>A worker that runs the destructor goes on with its job when that has returned.\<close>

definition not_destroying :: "nat \<Rightarrow> split_test \<Rightarrow> bool" where
  "not_destroying w x \<longleftrightarrow> (st_destructor x = Some (Some w) \<longrightarrow> s_life (st_session x) = Ended)"

abbreviation split_runs :: "split_test \<Rightarrow> nat \<Rightarrow> runnable_ref \<Rightarrow> bool" where
  "split_runs x w r \<equiv> runs_task w r (s_pool (st_session x))"

abbreviation split_waiter :: "split_test \<Rightarrow> wait_pc" where
  "split_waiter x \<equiv> waiters (st_sched x) ! 0"

text \<open>All steps but unnotified wake-ups, then those.\<close>

inductive split_step :: "'e split_cfg \<Rightarrow> split_test \<Rightarrow> split_test \<Rightarrow> bool" for c where
  split_call:
    "\<lbrakk>\<not> st_crashed x; control_call (split_pool c) SimpleThreadFactory_default (st_session x) s;
      s_life (st_session x) = Working \<longrightarrow> st_destructor x \<noteq> None\<rbrakk> \<Longrightarrow>
     split_step c x (x\<lparr>st_session := s\<rparr>)"
| split_job:
    "\<lbrakk>\<not> st_crashed x; st_main x = M_Job j; j < split_jobs c; s_life (st_session x) = Working\<rbrakk> \<Longrightarrow>
     split_step c x (SplitterTest_job c j x)"
| split_add:
    "\<lbrakk>\<not> st_crashed x; st_main x = M_Adding j; s_life (st_session x) = Working; st_session x = s;
      add_call (split_pool c) 0 j 0 ev (s_pool s) p; \<not> add_waiting (cs (s_pool s) ! 0);
      sched = (st_sched x)\<lparr>jobs_added := jobs_added (st_sched x) + (if ev = Add_done then 1 else 0)\<rparr>\<rbrakk> \<Longrightarrow>
     split_step c x (x\<lparr>st_session := s\<lparr>s_pool := p\<rparr>, st_main := SplitterTest_added j ev, st_sched := sched\<rparr>)"
| split_count: "\<lbrakk>\<not> st_crashed x; st_main x = M_Count j\<rbrakk> \<Longrightarrow> split_step c x (SplitterTest_count j x)"
| split_wait:
    "\<lbrakk>\<not> st_crashed x; st_main x = M_Job (split_jobs c); s_life (st_session x) = Working\<rbrakk> \<Longrightarrow>
     split_step c x (x\<lparr>st_main := M_Wait\<rparr>)"
| split_waits:
    "\<lbrakk>\<not> st_crashed x; st_main x = M_Wait; waiter_step (st_sched x) sched; split_waiter x \<noteq> Wt_Sleeping\<rbrakk> \<Longrightarrow>
     split_step c x (x\<lparr>st_sched := sched\<rparr>)"
| split_exit:
    "\<lbrakk>\<not> st_crashed x; st_main x = M_Wait; split_waiter x = Wt_Returned\<rbrakk> \<Longrightarrow>
     split_step c x (release None (x\<lparr>st_main := M_Exit\<rparr>))"
| split_worker:
    "\<lbrakk>\<not> st_crashed x; st_session x = s; work (s_pool s) p; \<not> job_ends (s_pool s) p\<rbrakk> \<Longrightarrow>
     split_step c x (x\<lparr>st_session := s\<lparr>s_pool := p\<rparr>\<rparr>)"
| split_split:
    "\<lbrakk>\<not> st_crashed x; split_runs x w r; st_pc x w = S_Split; \<not> sc_throws c r\<rbrakk> \<Longrightarrow> split_step c x (Run_split c w r x)"
| split_throws:
    "\<lbrakk>\<not> st_crashed x; task_ends w t (s_pool s) p; st_session x = s; st_pc x w = S_Split; sc_throws c (task_runnable t);
      sched = (st_sched x)\<lparr>jobs_lost := jobs_lost (st_sched x) + 1\<rparr>\<rbrakk> \<Longrightarrow>
     split_step c x (x\<lparr>st_session := s\<lparr>s_pool := p\<rparr>, st_sched := sched, st_returned := add_mset (task_runnable t) (st_returned x)\<rparr>)"
| split_lock:
    "\<lbrakk>\<not> st_crashed x; split_runs x w r; st_pc x w = S_At i; i < length (observer_list (st_jobs x r)); not_destroying w x\<rbrakk> \<Longrightarrow>
     split_step c x (Run_lock w r i x)"
| split_complete:
    "\<lbrakk>\<not> st_crashed x; split_runs x w r; st_pc x w = S_Held i\<rbrakk> \<Longrightarrow> split_step c x (Run_complete w r i x)"
| split_release: "\<lbrakk>\<not> st_crashed x; st_pc x w = S_Done i\<rbrakk> \<Longrightarrow> split_step c x (Run_release w i x)"
| split_return:
    "\<lbrakk>\<not> st_crashed x; task_ends w t (s_pool s) p; st_session x = s;
      st_pc x w = S_At (length (observer_list (st_jobs x (task_runnable t)))); not_destroying w x\<rbrakk> \<Longrightarrow>
     split_step c x (x\<lparr>st_session := s\<lparr>s_pool := p\<rparr>, st_pc := (st_pc x)(w := S_Split),
       st_returned := add_mset (task_runnable t) (st_returned x)\<rparr>)"

inductive split_wakes :: "'e split_cfg \<Rightarrow> split_test \<Rightarrow> split_test \<Rightarrow> bool" for c where
  wakes_main:
    "\<lbrakk>st_main x = M_Wait; waiter_step (st_sched x) sched; split_waiter x = Wt_Sleeping\<rbrakk> \<Longrightarrow>
     split_wakes c x (x\<lparr>st_sched := sched\<rparr>)"
| wakes_worker:
    "\<lbrakk>st_session x = s; worker_step (s_pool s) p; wakes_up (s_pool s) p\<rbrakk> \<Longrightarrow> split_wakes c x (x\<lparr>st_session := s\<lparr>s_pool := p\<rparr>\<rparr>)"
| wakes_call:
    "\<lbrakk>st_session x = s; mgr_waiting (cs (s_pool s) ! 0);
      p = (s_pool s)\<lparr>cs := (cs (s_pool s))[0 := wake_mgr (cs (s_pool s) ! 0)]\<rparr>\<rbrakk> \<Longrightarrow>
     split_wakes c x (x\<lparr>st_session := s\<lparr>s_pool := p\<rparr>\<rparr>)"
| wakes_add:
    "\<lbrakk>st_main x = M_Adding j; s_life (st_session x) = Working; st_session x = s;
      add_call (split_pool c) 0 j 0 Add_pending (s_pool s) p; add_waiting (cs (s_pool s) ! 0)\<rbrakk> \<Longrightarrow>
     split_wakes c x (x\<lparr>st_session := s\<lparr>s_pool := p\<rparr>\<rparr>)"

abbreviation split_reach :: "'e split_cfg \<Rightarrow> split_test \<Rightarrow> bool" where
  "split_reach c \<equiv> reachable (split_start c) (\<lambda>x y. split_step c x y \<or> split_wakes c x y)"

lemma release_simps [simp]:
  "st_session (release who x) = st_session x" "st_jobs (release who x) = st_jobs x" "st_sched (release who x) = st_sched x"
  "st_main (release who x) = st_main x" "st_pc (release who x) = st_pc x" "st_crashed (release who x) = st_crashed x"
  "st_completed (release who x) = st_completed x" "st_returned (release who x) = st_returned x"
  by (simp_all add: release_def)

lemma Run_session [simp]:
  "st_session (Run_split c w r x) = st_session x" "st_returned (Run_split c w r x) = st_returned x"
  "st_session (Run_lock w r i x) = st_session x" "st_returned (Run_lock w r i x) = st_returned x"
  by (simp_all add: Run_split_def Run_lock_def Let_def split: option.split)

lemmas split_test_defs = SplitterTest_job_def SplitterTest_count_def Run_complete_def Run_release_def

lemma split_session_move:
  assumes "split_step c x y \<or> split_wakes c x y"
  shows "\<exists>d. session_move (split_pool c) SimpleThreadFactory_default d (st_session x) (st_session y) \<and> st_returned y = st_returned x + d"
  using assms
proof (elim disjE)
  assume "split_step c x y"
  then show ?thesis
  proof (induction rule: split_step.induct)
    case (split_call x s)
    from move_call [OF split_call(2)] show ?case by auto
  next
    case (split_add x j s ev p sched)
    from move_add [of s] split_add show ?case by auto
  next
    case (split_worker x s p)
    from move_worker [of s p] split_worker show ?case by (auto simp: work_def)
  next
    case (split_throws x w t s p sched)
    from move_returns [of w t s p] split_throws show ?case by auto
  next
    case (split_return x w t s p)
    from move_returns [of w t s p] split_return show ?case by auto
  qed (auto simp: split_test_defs intro: move_none)
next
  assume "split_wakes c x y"
  then show ?thesis
  proof (induction rule: split_wakes.induct)
    case (wakes_worker x s p)
    from move_worker [of s p] wakes_worker wakes_up_not_ends show ?case by auto
  next
    case (wakes_call x s p)
    from move_wakes [of s p] wakes_call show ?case by auto
  next
    case (wakes_add x j s p)
    from move_add [of s] wakes_add show ?case by auto
  qed (auto intro: move_none)
qed

interpretation split: session_client "sc_workers c" "sc_pending c" "sc_ids c" "sc_main c" SimpleThreadFactory_default
    "split_start c" "\<lambda>x y. split_step c x y \<or> split_wakes c x y" st_session st_returned
  by unfold_locales (simp add: split_start_def, erule split_session_move)

subsection \<open>The invariant\<close>

text \<open>A job before and after \<^verbatim>\<open>Split\<close>.\<close>

definition job_new :: "'e split_cfg \<Rightarrow> runnable_ref \<Rightarrow> SplitterJob" where
  "job_new c r = \<lparr>observer_list = [0], book_path = input_epub_path c r, output_paths = [], has_splitter = True\<rparr>"

definition job_split :: "'e split_cfg \<Rightarrow> runnable_ref \<Rightarrow> SplitterJob" where
  "job_split c r = (job_new c r)\<lparr>output_paths := snd (EpubSectionSplitter_Split (sc_api c) (input_epub_path c r) [])\<rparr>"

text \<open>The main thread has added these tasks and counted \<open>n\<close> jobs.\<close>

definition main_fit :: "'e split_cfg \<Rightarrow> Task list \<Rightarrow> nat \<Rightarrow> split_main \<Rightarrow> bool" where
  "main_fit c ts n m \<longleftrightarrow> list_all undying ts \<and> map task_runnable ts = [0..<length ts] \<and>
     (case m of M_Job j \<Rightarrow> length ts = j \<and> n = j \<and> j \<le> split_jobs c
        | M_Adding j \<Rightarrow> length ts = j \<and> n = j \<and> j < split_jobs c
        | M_Count j \<Rightarrow> length ts = Suc j \<and> n = j \<and> j < split_jobs c
        | M_Threw e \<Rightarrow> False
        | _ \<Rightarrow> length ts = split_jobs c \<and> n = split_jobs c)"

fun created :: "'e split_cfg \<Rightarrow> split_main \<Rightarrow> nat" where
  "created c (M_Job j) = j"
| "created c (M_Adding j) = Suc j"
| "created c (M_Count j) = Suc j"
| "created c m = split_jobs c"

text \<open>What the positions of the workers say, given which worker runs which job.\<close>

type_synonym running = "nat \<Rightarrow> runnable_ref \<Rightarrow> bool"

fun completed_pc :: "split_pc \<Rightarrow> bool" where
  "completed_pc (S_At i) = (0 < i)"
| "completed_pc (S_Done i) = True"
| "completed_pc p = False"

definition pcs_ok :: "'e split_cfg \<Rightarrow> running \<Rightarrow> (nat \<Rightarrow> split_pc) \<Rightarrow> bool" where
  "pcs_ok c R pc \<longleftrightarrow> (\<forall>w. pc w \<in> {S_Split, S_At 0, S_Held 0, S_Done 0, S_At 1} \<and>
     (pc w \<noteq> S_Split \<longrightarrow> (\<exists>r. R w r \<and> \<not> sc_throws c r)))"

definition reached :: "'e split_cfg \<Rightarrow> running \<Rightarrow> (nat \<Rightarrow> split_pc) \<Rightarrow> runnable_ref multiset \<Rightarrow> (split_pc \<Rightarrow> bool) \<Rightarrow> runnable_ref \<Rightarrow> bool" where
  "reached c R pc ret P r \<longleftrightarrow> (r \<in># ret \<and> \<not> sc_throws c r) \<or> (\<exists>w. R w r \<and> P (pc w))"

definition jobs_ok :: "'e split_cfg \<Rightarrow> running \<Rightarrow> (nat \<Rightarrow> split_pc) \<Rightarrow> runnable_ref multiset \<Rightarrow> (runnable_ref \<Rightarrow> SplitterJob) \<Rightarrow> nat \<Rightarrow> bool" where
  "jobs_ok c R pc ret js n \<longleftrightarrow>
     (\<forall>r < n. js r = (if reached c R pc ret (\<lambda>p. p \<noteq> S_Split) r then job_split c r else job_new c r))"

definition done_ok :: "'e split_cfg \<Rightarrow> running \<Rightarrow> (nat \<Rightarrow> split_pc) \<Rightarrow> runnable_ref multiset \<Rightarrow> runnable_ref multiset \<Rightarrow> bool" where
  "done_ok c R pc ret fin \<longleftrightarrow> (\<forall>r. count fin r \<le> 1) \<and> (\<forall>r. r \<in># fin \<longleftrightarrow> reached c R pc ret completed_pc r)"

definition counter_ok :: "'e split_cfg \<Rightarrow> split_main \<Rightarrow> scheduler \<Rightarrow> runnable_ref multiset \<Rightarrow> runnable_ref multiset \<Rightarrow> bool" where
  "counter_ok c m s fin ret \<longleftrightarrow>
     pending_job_count s = of_nat (jobs_counted s) - of_nat (jobs_done s) \<and> jobs_done s = size fin \<and>
     jobs_lost s = size (filter_mset (sc_throws c) ret) \<and> length (waiters s) = 1 \<and>
     (waiters s ! 0 \<noteq> Wt_Idle \<longrightarrow> m \<in> {M_Wait, M_Exit}) \<and>
     (waiters s ! 0 = Wt_Returned \<longrightarrow> pending_job_count s = 0) \<and> (m = M_Exit \<longrightarrow> waiters s ! 0 = Wt_Returned)"

definition owner_ok :: "split_test \<Rightarrow> bool" where
  "owner_ok x \<longleftrightarrow> (st_destructor x = None \<longleftrightarrow> split_alive x 0) \<and> \<not> st_crashed x \<and>
     (\<forall>w. st_destructor x = Some (Some w) \<longrightarrow> (\<exists>r. split_runs x w r) \<and> st_pc x w = S_At 1)"

definition life_fits :: "split_test \<Rightarrow> bool" where
  "life_fits x \<longleftrightarrow> (s_life (st_session x) \<in> {Stopping_down, Ended} \<longrightarrow> st_destructor x \<noteq> None) \<and>
     (st_main x \<in> {M_Wait, M_Exit} \<longrightarrow> s_life (st_session x) \<in> {Working, Stopping_down, Ended}) \<and>
     (s_life (st_session x) = Working \<longrightarrow> (\<exists>e. cs (s_pool (st_session x)) ! 0 = C_Ret e))"

definition split_inv :: "'e split_cfg \<Rightarrow> split_test \<Rightarrow> bool" where
  "split_inv c x \<longleftrightarrow>
     main_fit c (h_added (s_pool (st_session x))) (jobs_counted (st_sched x)) (st_main x) \<and>
     pcs_ok c (split_runs x) (st_pc x) \<and>
     jobs_ok c (split_runs x) (st_pc x) (st_returned x) (st_jobs x) (created c (st_main x)) \<and>
     done_ok c (split_runs x) (st_pc x) (st_returned x) (st_completed x) \<and>
     counter_ok c (st_main x) (st_sched x) (st_completed x) (st_returned x) \<and> owner_ok x \<and> life_fits x"

lemma split_invD:
  assumes "split_inv c x"
  shows "main_fit c (h_added (s_pool (st_session x))) (jobs_counted (st_sched x)) (st_main x)"
    "pcs_ok c (split_runs x) (st_pc x)"
    "jobs_ok c (split_runs x) (st_pc x) (st_returned x) (st_jobs x) (created c (st_main x))"
    "done_ok c (split_runs x) (st_pc x) (st_returned x) (st_completed x)"
    "counter_ok c (st_main x) (st_sched x) (st_completed x) (st_returned x)" "owner_ok x" "life_fits x"
  using assms unfolding split_inv_def by blast+

lemma split_invI:
  assumes "main_fit c (h_added (s_pool (st_session x))) (jobs_counted (st_sched x)) (st_main x)"
    "pcs_ok c (split_runs x) (st_pc x)"
    "jobs_ok c (split_runs x) (st_pc x) (st_returned x) (st_jobs x) (created c (st_main x))"
    "done_ok c (split_runs x) (st_pc x) (st_returned x) (st_completed x)"
    "counter_ok c (st_main x) (st_sched x) (st_completed x) (st_returned x)" "owner_ok x" "life_fits x"
  shows "split_inv c x"
  using assms unfolding split_inv_def by blast

lemma fit_steps:
  "main_fit c ts n (M_Job j) \<Longrightarrow> j < split_jobs c \<Longrightarrow> main_fit c ts n (M_Adding j)"
  "main_fit c ts n (M_Adding j) \<Longrightarrow> task_runnable t = j \<Longrightarrow> undying t \<Longrightarrow> main_fit c (ts @ [t]) n (M_Count j)"
  "main_fit c ts n (M_Count j) \<Longrightarrow> main_fit c ts (n + 1) (M_Job (Suc j))"
  "main_fit c ts n (M_Job (split_jobs c)) \<Longrightarrow> main_fit c ts n M_Wait"
  "main_fit c ts n M_Wait \<Longrightarrow> main_fit c ts n M_Exit"
  by (auto simp: main_fit_def)

lemma fit_numbers: "main_fit c ts n m \<Longrightarrow> map task_runnable ts = [0..<length ts]"
  by (simp add: main_fit_def)

lemma fit_created: "main_fit c ts n m \<Longrightarrow> length ts \<le> created c m \<and> created c m \<le> split_jobs c"
  by (cases m) (simp_all add: main_fit_def)

lemma fit_all: "main_fit c ts n m \<Longrightarrow> m \<in> {M_Wait, M_Exit} \<Longrightarrow> length ts = split_jobs c \<and> n = split_jobs c \<and> created c m = split_jobs c"
  by (auto simp: main_fit_def)

lemma counter_okD:
  assumes "counter_ok c m s fin ret"
  shows "pending_job_count s = of_nat (jobs_counted s) - of_nat (jobs_done s)" "jobs_done s = size fin"
    "jobs_lost s = size (filter_mset (sc_throws c) ret)" "length (waiters s) = 1"
    "waiters s ! 0 \<noteq> Wt_Idle \<Longrightarrow> m \<in> {M_Wait, M_Exit}" "waiters s ! 0 = Wt_Returned \<Longrightarrow> pending_job_count s = 0"
    "m = M_Exit \<Longrightarrow> waiters s ! 0 = Wt_Returned"
  using assms unfolding counter_ok_def by blast+

lemma counter_ok_cong:
  assumes "counter_ok c m s fin ret" "jobs_lost s' = size (filter_mset (sc_throws c) ret')"
    and "pending_job_count s' = pending_job_count s" "jobs_counted s' = jobs_counted s" "jobs_done s' = jobs_done s" "waiters s' = waiters s"
  shows "counter_ok c m s' fin ret'"
  using assms(1,2) unfolding counter_ok_def assms(3-6) by blast

lemma split_inv_start: "split_start c x \<Longrightarrow> split_inv c x"
  by (simp add: split_start_def split_inv_def main_fit_def pcs_ok_def jobs_ok_def done_ok_def counter_ok_def owner_ok_def
      life_fits_def reached_def split_alive_def session_start_def pool_init_def runs_task_def SplitterJobScheduler_new_def)

lemma alive_cases:
  assumes "pcs_ok c (split_runs x) (st_pc x)"
  shows "split_alive x ob \<longleftrightarrow> ob = 0 \<and> (st_main x \<noteq> M_Exit \<or> (\<exists>w. holds (st_pc x w)))"
proof -
  have "w < length (ws (s_pool (st_session x)))" if h: "holds (st_pc x w)" for w
  proof -
    have "st_pc x w \<noteq> S_Split" using h by auto
    then obtain r where "split_runs x w r" using assms by (auto simp: pcs_ok_def)
    then show ?thesis by (simp add: runs_task_def)
  qed
  then show ?thesis by (auto simp: split_alive_def list_ex_iff)
qed

subsection \<open>Positions and jobs\<close>

text \<open>Worker \<open>w\<close> runs \<open>r\<close>, and nothing else does.\<close>

definition solo :: "running \<Rightarrow> runnable_ref multiset \<Rightarrow> nat \<Rightarrow> runnable_ref \<Rightarrow> bool" where
  "solo R ret w r \<longleftrightarrow> R w r \<and> r \<notin># ret \<and> (\<forall>r'. R w r' \<longrightarrow> r' = r) \<and> (\<forall>v. R v r \<longrightarrow> v = w)"

lemma reached_move:
  assumes "solo R ret w r"
  shows "reached c R (pc(w := q)) ret P r' \<longleftrightarrow> (if r' = r then P q else reached c R pc ret P r')"
proof (cases "r' = r")
  case True
  have "(\<exists>v. R v r \<and> P ((pc(w := q)) v)) \<longleftrightarrow> P q" using assms by (metis fun_upd_same solo_def)
  with True assms show ?thesis by (simp add: reached_def solo_def)
next
  case False
  have "R v r' \<and> P ((pc(w := q)) v) \<longleftrightarrow> R v r' \<and> P (pc v)" for v using assms False by (cases "v = w") (auto simp: solo_def)
  with False show ?thesis by (simp add: reached_def)
qed

lemma reached_solo: "solo R ret w r \<Longrightarrow> reached c R pc ret P r \<longleftrightarrow> P (pc w)"
  unfolding solo_def reached_def by auto

text \<open>A worker that takes a task is at the beginning of its job.\<close>

lemma reached_new:
  assumes "\<And>v r. R v r \<Longrightarrow> R' v r" "\<And>v r. R' v r \<Longrightarrow> R v r \<or> pc v = S_Split" "\<not> P S_Split"
  shows "reached c R' pc ret P = reached c R pc ret P"
proof
  fix r
  have "R' v r \<and> P (pc v) \<longleftrightarrow> R v r \<and> P (pc v)" for v using assms(1) [of v r] assms(2) [of v r] assms(3) by auto
  then show "reached c R' pc ret P r = reached c R pc ret P r" by (simp add: reached_def)
qed

lemma reached_keep:
  assumes "solo R ret w r" "P q = P (pc w)"
  shows "reached c R (pc(w := q)) ret P = reached c R pc ret P"
proof
  fix r'
  show "reached c R (pc(w := q)) ret P r' = reached c R pc ret P r'"
    using assms(2) reached_move [OF assms(1), of c pc q P r'] reached_solo [OF assms(1), of c pc P] by (cases "r' = r") simp_all
qed

text \<open>Worker \<open>w\<close> returns from \<open>r\<close>.\<close>

lemma reached_return:
  assumes "solo R ret w r" "\<And>v r. R' v r \<longleftrightarrow> v \<noteq> w \<and> R v r" "\<not> sc_throws c r \<longleftrightarrow> P (pc w)"
  shows "reached c R' (pc(w := S_Split)) (add_mset r ret) P r' = reached c R pc ret P r'"
proof (cases "r' = r")
  case True
  have "\<not> R' v r" for v using assms(1,2) by (auto simp: solo_def)
  then have "reached c R' (pc(w := S_Split)) (add_mset r ret) P r \<longleftrightarrow> \<not> sc_throws c r" by (simp add: reached_def)
  with True reached_solo [OF assms(1), of c pc P] assms(3) show ?thesis by simp
next
  case False
  have "\<not> R w r'" using assms(1) False by (auto simp: solo_def)
  then have "R' v r' \<and> P ((pc(w := S_Split)) v) \<longleftrightarrow> R v r' \<and> P (pc v)" for v
    using assms(2) [of v r'] by (cases "v = w") simp_all
  with False show ?thesis by (simp add: reached_def)
qed

lemma pcs_move:
  "pcs_ok c R pc \<Longrightarrow> R w r \<Longrightarrow> \<not> sc_throws c r \<Longrightarrow> q \<in> {S_At 0, S_Held 0, S_Done 0, S_At 1} \<Longrightarrow> pcs_ok c R (pc(w := q))"
  by (auto simp: pcs_ok_def)

lemma pcs_new: "pcs_ok c R pc \<Longrightarrow> (\<And>v r. R v r \<Longrightarrow> R' v r) \<Longrightarrow> pcs_ok c R' pc"
  unfolding pcs_ok_def by metis

lemma pcs_return: "pcs_ok c R pc \<Longrightarrow> (\<And>v r. R' v r \<longleftrightarrow> v \<noteq> w \<and> R v r) \<Longrightarrow> pcs_ok c R' (pc(w := S_Split))"
  unfolding pcs_ok_def by auto

lemma pcs_values: "pcs_ok c R pc \<Longrightarrow> pc w \<in> {S_Split, S_At 0, S_Held 0, S_Done 0, S_At 1}"
  unfolding pcs_ok_def by blast

lemma pcs_not_throws: "pcs_ok c R pc \<Longrightarrow> solo R ret w r \<Longrightarrow> pc w \<noteq> S_Split \<Longrightarrow> \<not> sc_throws c r"
  unfolding pcs_ok_def solo_def by metis

lemma jobs_move:
  assumes "jobs_ok c R pc ret js n" "solo R ret w r" "pc w \<noteq> S_Split" "q \<noteq> S_Split"
  shows "jobs_ok c R (pc(w := q)) ret js n"
  using assms(1,3,4) reached_keep [OF assms(2), of "\<lambda>p. p \<noteq> S_Split" q pc c] by (simp add: jobs_ok_def)

lemma jobs_write:
  assumes "jobs_ok c R pc ret js n" "solo R ret w r" "q \<noteq> S_Split"
  shows "jobs_ok c R (pc(w := q)) ret (js(r := job_split c r)) n"
proof -
  have "reached c R (pc(w := q)) ret (\<lambda>p. p \<noteq> S_Split) r' \<longleftrightarrow>
      (if r' = r then q \<noteq> S_Split else reached c R pc ret (\<lambda>p. p \<noteq> S_Split) r')" for r'
    by (rule reached_move [OF assms(2)])
  with assms(1,3) show ?thesis by (simp add: jobs_ok_def)
qed

lemma job_of:
  assumes "jobs_ok c R pc ret js n" "solo R ret w r" "r < n"
  shows "js r = (if pc w \<noteq> S_Split then job_split c r else job_new c r)"
proof -
  have "reached c R pc ret (\<lambda>p. p \<noteq> S_Split) r \<longleftrightarrow> pc w \<noteq> S_Split" by (rule reached_solo [OF assms(2)])
  with assms(1,3) show ?thesis by (simp add: jobs_ok_def)
qed

lemma done_move:
  assumes "done_ok c R pc ret fin" "solo R ret w r" "completed_pc q = completed_pc (pc w)"
  shows "done_ok c R (pc(w := q)) ret fin"
  using assms(1) reached_keep [where P = completed_pc and q = q and pc = pc and c = c, OF assms(2,3)] by (simp add: done_ok_def)

lemma done_complete:
  assumes "done_ok c R pc ret fin" "solo R ret w r" "\<not> completed_pc (pc w)" "completed_pc q"
  shows "done_ok c R (pc(w := q)) ret (add_mset r fin)"
proof -
  have "r \<notin># fin" using assms(1,3) reached_solo [OF assms(2), of c pc completed_pc] by (simp add: done_ok_def)
  then have "count fin r = 0" by (simp add: count_eq_zero_iff)
  then have "\<forall>r'. count (add_mset r fin) r' \<le> 1" using assms(1) by (simp add: done_ok_def)
  moreover have "r' \<in># add_mset r fin \<longleftrightarrow> reached c R (pc(w := q)) ret completed_pc r'" for r'
    using assms(1,4) reached_move [OF assms(2), of c pc q completed_pc r'] by (auto simp: done_ok_def)
  ultimately show ?thesis unfolding done_ok_def by blast
qed

subsection \<open>Preservation\<close>

lemma split_solo:
  assumes "split_reach c x" "split_inv c x" "split_runs x w r"
  shows "solo (split_runs x) (st_returned x) w r" "r < created c (st_main x)" "r < split_jobs c"
proof -
  note fit = split_invD(1) [OF assms(2)]
  note once = split.runs_once [OF assms(1) fit_numbers [OF fit] assms(3)]
  have "split_runs x w r' \<longrightarrow> r' = r" for r' using assms(3) by (auto simp: runs_task_def)
  then show "solo (split_runs x) (st_returned x) w r" using assms(3) once(2,3) unfolding solo_def by blast
  show "r < created c (st_main x)" "r < split_jobs c" using once(1) fit_created [OF fit] by simp_all
qed

text \<open>All jobs were counted and the counter is 0: every job has completed.\<close>

lemma completed_numbers:
  assumes "split_reach c x" "split_inv c x"
  shows "st_completed x \<subseteq># mset [0..<length (h_added (s_pool (st_session x)))]"
proof (rule mset_subset_eqI)
  fix r
  let ?ts = "h_added (s_pool (st_session x))"
  note fit = fit_numbers [OF split_invD(1) [OF assms(2)]]
  have once: "count (st_completed x) r \<le> 1" "r \<in># st_completed x \<longleftrightarrow> reached c (split_runs x) (st_pc x) (st_returned x) completed_pc r"
    using split_invD(4) [OF assms(2)] by (simp_all add: done_ok_def)
  show "count (st_completed x) r \<le> count (mset [0..<length ?ts]) r"
  proof (cases "r \<in># st_completed x")
    case True
    then consider "r \<in># st_returned x" | w where "split_runs x w r" using once(2) by (auto simp: reached_def)
    then have "r < length ?ts"
    proof cases
      case 1
      then have "r \<in># mset [0..<length ?ts]" using split.numbered(1) [OF assms(1) fit] by (meson mset_subset_eqD union_iff)
      then show ?thesis by simp
    qed (use split.runs_once(1) [OF assms(1) fit] in blast)
    then have "r \<in># mset [0..<length ?ts]" by simp
    then have "1 \<le> count (mset [0..<length ?ts]) r" by (metis One_nat_def Suc_leI count_greater_zero_iff)
    with once(1) show ?thesis by linarith
  qed (simp add: not_in_iff)
qed

lemma all_completed:
  assumes "split_reach c x" "split_inv c x" "st_main x \<in> {M_Wait, M_Exit}" "pending_job_count (st_sched x) = 0" "split_jobs c < 2 ^ 64"
  shows "st_completed x = mset [0..<split_jobs c]"
proof -
  note len = fit_all [OF split_invD(1) [OF assms(2)] assms(3)]
  have sub: "st_completed x \<subseteq># mset [0..<split_jobs c]" using completed_numbers [OF assms(1,2)] len by simp
  then have le: "size (st_completed x) \<le> split_jobs c" using size_mset_mono [OF sub] by simp
  have "(of_nat (split_jobs c) :: size_t) = of_nat (size (st_completed x))"
    using counter_okD(1,2) [OF split_invD(5) [OF assms(2)]] assms(4) len by simp
  then have "unat (of_nat (split_jobs c) :: size_t) = unat (of_nat (size (st_completed x)) :: size_t)" by simp
  then have "split_jobs c = size (st_completed x)" using le assms(5) by (simp add: unat_of_nat)
  with subset_mset_full [OF sub] show ?thesis by simp
qed

lemma all_completed_pc:
  assumes "split_reach c x" "split_inv c x" "st_main x = M_Exit" "split_jobs c < 2 ^ 64" "split_runs x w r"
  shows "completed_pc (st_pc x w)"
proof -
  note solo = split_solo [OF assms(1,2,5)]
  have "pending_job_count (st_sched x) = 0" using counter_okD(6,7) [OF split_invD(5) [OF assms(2)]] assms(3) by simp
  then have "st_completed x = mset [0..<split_jobs c]" using all_completed [OF assms(1,2)] assms(3,4) by simp
  then have "r \<in># st_completed x" using solo(3) by simp
  then have "reached c (split_runs x) (st_pc x) (st_returned x) completed_pc r"
    using split_invD(4) [OF assms(2)] by (simp add: done_ok_def)
  then show ?thesis unfolding reached_solo [OF solo(1)] .
qed

text \<open>Steps that leave the jobs and the positions of the workers alone.\<close>

lemma split_inv_frame:
  assumes inv: "split_inv c x" and keep: "keeps_running (ws (s_pool (st_session x))) (ws (s_pool (st_session y)))"
    and same: "st_pc y = st_pc x" "st_returned y = st_returned x" "st_completed y = st_completed x" "st_jobs y = st_jobs x"
      "st_crashed y = st_crashed x" "st_destructor y = st_destructor x" "created c (st_main y) = created c (st_main x)"
      "st_main y = M_Exit \<longleftrightarrow> st_main x = M_Exit"
    and fit: "main_fit c (h_added (s_pool (st_session y))) (jobs_counted (st_sched y)) (st_main y)"
    and counter: "counter_ok c (st_main y) (st_sched y) (st_completed x) (st_returned x)" and life: "life_fits y"
  shows "split_inv c y"
proof -
  note old = split_invD [OF inv]
  have run: "split_runs x w r \<Longrightarrow> split_runs y w r" for w r using keep by (auto simp: runs_task_def keeps_running_def)
  have new: "split_runs y w r \<Longrightarrow> split_runs x w r \<or> st_pc x w = S_Split" for w r
  proof -
    assume r: "split_runs y w r"
    show "split_runs x w r \<or> st_pc x w = S_Split"
    proof (cases "st_pc x w = S_Split")
      case False
      then obtain r' where r': "split_runs x w r'" using old(2) by (auto simp: pcs_ok_def)
      with run have "split_runs y w r'" by blast
      then have "r' = r" using r by (auto simp: runs_task_def)
      with r' show ?thesis by simp
    qed simp
  qed
  have pcs: "pcs_ok c (split_runs y) (st_pc x)" by (rule pcs_new [OF old(2)]) (rule run)
  have reached: "reached c (split_runs y) (st_pc x) ret P = reached c (split_runs x) (st_pc x) ret P" if "\<not> P S_Split" for ret P
    by (rule reached_new [where P = P]) (use run new that in blast)+
  have "split_alive y 0 = split_alive x 0"
    using alive_cases [OF old(2)] alive_cases [of c y] pcs same(1,8) by simp
  then have "owner_ok y" using old(6) run same(1,5,6) unfolding owner_ok_def by metis
  moreover have "jobs_ok c (split_runs y) (st_pc y) (st_returned y) (st_jobs y) (created c (st_main y))"
    using old(3) reached same by (simp add: jobs_ok_def)
  moreover have "done_ok c (split_runs y) (st_pc y) (st_returned y) (st_completed y)"
    using old(4) reached same by (simp add: done_ok_def)
  ultimately show ?thesis using fit counter life pcs same(1-3) by (intro split_invI) simp_all
qed

lemma split_inv_session:
  assumes "split_inv c x" "keeps_running (ws (s_pool (st_session x))) (ws (s_pool s))"
    and "h_added (s_pool s) = h_added (s_pool (st_session x))" "life_fits (x\<lparr>st_session := s\<rparr>)"
  shows "split_inv c (x\<lparr>st_session := s\<rparr>)"
  by (rule split_inv_frame [OF assms(1)]) (use assms split_invD(1,5) [OF assms(1)] in simp_all)

lemma split_inv_call:
  assumes "control_call (split_pool c) SimpleThreadFactory_default (st_session x) s"
    and "s_life (st_session x) = Working \<longrightarrow> st_destructor x \<noteq> None"
    and "split_inv c x" "split_reach c x" "split_reach c (x\<lparr>st_session := s\<rparr>)"
  shows "split_inv c (x\<lparr>st_session := s\<rparr>)"
proof -
  have one: "length (cs (s_pool (st_session x))) = 1" using split.sound [OF assms(4)] by (rule sound_one_client)
  note keeps = control_call_keeps [OF assms(1) one]
  have nf: "\<nexists>e. s_life s = Failed e" using sound_not_failed [OF split.sound [OF assms(5)]] by simp
  note life = control_call_life [OF assms(1) nf]
  have "s_life s = Working \<longrightarrow> (\<exists>e. cs (s_pool s) ! 0 = C_Ret e)"
    using assms(1)
  proof (induction rule: control_call.induct)
    case (call_stop x p e c)
    then show ?case by auto
  next
    case (call_continue x p)
    then show ?case by (cases "cs p ! 0") auto
  qed simp_all
  moreover have before: "s_life s \<in> {Stopping_down, Ended} \<longrightarrow> s_life (st_session x) \<in> {Working, Stopping_down}"
    and forth: "s_life (st_session x) \<in> {Working, Stopping_down, Ended} \<longrightarrow> s_life s \<in> {Stopping_down, Ended}"
    using life by auto
  have old: "s_life (st_session x) \<in> {Stopping_down, Ended} \<longrightarrow> st_destructor x \<noteq> None"
    "st_main x \<in> {M_Wait, M_Exit} \<longrightarrow> s_life (st_session x) \<in> {Working, Stopping_down, Ended}"
    using split_invD(7) [OF assms(3)] unfolding life_fits_def by blast+
  have "s_life s \<in> {Stopping_down, Ended} \<longrightarrow> st_destructor x \<noteq> None" using before old(1) assms(2) by blast
  moreover have "st_main x \<in> {M_Wait, M_Exit} \<longrightarrow> s_life s \<in> {Working, Stopping_down, Ended}" using forth old(2) by blast
  ultimately have "life_fits (x\<lparr>st_session := s\<rparr>)" by (simp add: life_fits_def)
  with keeps show ?thesis by (intro split_inv_session [OF assms(3)]) simp_all
qed

lemma split_inv_worker:
  assumes "st_session x = s" "worker_step (s_pool s) p" "\<not> job_ends (s_pool s) p" "split_inv c x" "split_reach c x"
  shows "split_inv c (x\<lparr>st_session := s\<lparr>s_pool := p\<rparr>\<rparr>)"
proof -
  have one: "length (cs (s_pool s)) = 1" using split.sound [OF assms(5)] sound_one_client assms(1) by simp
  have "cs (s_pool s) ! 0 = C_Ret e \<Longrightarrow> cs p ! 0 = C_Ret e" for e
    using worker_pcs [OF assms(2)] one by (metis add_waiting.simps(2) less_numeral_extra(1) mgr_waiting.simps(3) wake_add.simps(2))
  then have "life_fits (x\<lparr>st_session := s\<lparr>s_pool := p\<rparr>\<rparr>)"
    using split_invD(7) [OF assms(4)] assms(1) unfolding life_fits_def by auto
  then show ?thesis
    using worker_keeps_running [OF assms(2,3)] worker_added [OF assms(2)] assms(1) by (intro split_inv_session [OF assms(4)]) simp_all
qed

text \<open>The main thread.\<close>

lemma split_add_done:
  assumes "split_inv c x" "split_reach c x" "st_main x = M_Adding j" "s_life (st_session x) = Working"
    and "add_call (split_pool c) 0 j 0 ev (s_pool (st_session x)) p" "split_jobs c \<le> unat (sc_pending c)"
  shows "ev = Add_done"
proof -
  note sound = split.sound [OF assms(2)]
  obtain e where e: "cs (s_pool (st_session x)) ! 0 = C_Ret e"
    using split_invD(7) [OF assms(1)] assms(4) unfolding life_fits_def by blast
  have "length (h_added (s_pool (st_session x))) < unat (sc_pending c)"
    using split_invD(1) [OF assms(1)] assms(3,6) by (simp add: main_fit_def)
  from room_add_returns [OF few_added_room [OF sound assms(4) this] e assms(5)] show ?thesis .
qed

lemma split_inv_add:
  assumes "st_main x = M_Adding j" "s_life (st_session x) = Working" "st_session x = s"
    and "add_call (split_pool c) 0 j 0 Add_done (s_pool s) p" "split_inv c x" "split_reach c x"
    and sched: "sched = (st_sched x)\<lparr>jobs_added := n\<rparr>"
  shows "split_inv c (x\<lparr>st_session := s\<lparr>s_pool := p\<rparr>, st_main := M_Count j, st_sched := sched\<rparr>)" (is "split_inv c ?y")
proof (rule split_inv_frame [OF assms(5)])
  note old = split_invD [OF assms(5)]
  obtain t where t: "h_added p = h_added (s_pool s) @ [t]" "task_runnable t = j" "undying t"
    using add_call_added [OF assms(4)] by blast
  then show "main_fit c (h_added (s_pool (st_session ?y))) (jobs_counted (st_sched ?y)) (st_main ?y)"
    using old(1) assms(1,3) sched by (simp add: fit_steps)
  show "keeps_running (ws (s_pool (st_session x))) (ws (s_pool (st_session ?y)))"
    using task_keeps_running [OF add_call_step [OF assms(4)]] assms(3) by simp
  show "counter_ok c (st_main ?y) (st_sched ?y) (st_completed x) (st_returned x)"
    using old(5) assms(1) sched by (simp add: counter_ok_def)
  show "life_fits ?y"
    using old(7) assms(2,3) add_call_pc [OF assms(4)] by (simp add: life_fits_def)
qed (use assms(1) in simp_all)

lemma split_inv_job:
  assumes "st_main x = M_Job j" "j < split_jobs c" "split_inv c x" "split_reach c x"
  shows "split_inv c (SplitterTest_job c j x)" (is "split_inv c ?y")
proof (rule split_invI)
  note old = split_invD [OF assms(3)]
  have len: "length (h_added (s_pool (st_session x))) = j" using old(1) assms(1) by (simp add: main_fit_def)
  have fresh: "\<not> split_runs x w j" "j \<notin># st_returned x" for w
    using split.runs_once(1) [OF assms(4) fit_numbers [OF old(1)]] len
      split.numbered(1) [OF assms(4) fit_numbers [OF old(1)]] by (fastforce, metis atLeastLessThan_iff mset_subset_eqD set_mset_mset set_upt union_iff less_irrefl)
  have "split_alive x 0" using alive_cases [OF old(2)] assms(1) by simp
  then have j: "RegisterObserver (split_alive x) 0 (SetBookPath (input_epub_path c j) CreateSplitterJob) = job_new c j"
    by (simp add: RegisterObserver_def SetBookPath_def CreateSplitterJob_def CreateJob_def SetSplitterStrategy_def
        ObservableSplitterJob_new_def job_new_def)
  have "\<not> reached c (split_runs x) (st_pc x) (st_returned x) (\<lambda>p. p \<noteq> S_Split) j"
    using fresh by (simp add: reached_def)
  then show "jobs_ok c (split_runs ?y) (st_pc ?y) (st_returned ?y) (st_jobs ?y) (created c (st_main ?y))"
    using old(3) assms(1) j by (simp add: jobs_ok_def SplitterTest_job_def less_Suc_eq)
  show "main_fit c (h_added (s_pool (st_session ?y))) (jobs_counted (st_sched ?y)) (st_main ?y)"
    using fit_steps(1) old(1) assms(1,2) by (simp add: SplitterTest_job_def)
  show "owner_ok ?y" using old(6) assms(1) by (simp add: owner_ok_def SplitterTest_job_def split_alive_def)
qed (use split_invD [OF assms(3)] assms(1) in \<open>simp_all add: SplitterTest_job_def counter_ok_def life_fits_def\<close>)

lemma split_inv_count:
  assumes "st_main x = M_Count j" "split_inv c x"
  shows "split_inv c (SplitterTest_count j x)"
proof (rule split_inv_frame [OF assms(2)])
  note old = split_invD [OF assms(2)]
  have idle: "split_waiter x = Wt_Idle" using counter_okD(5) [OF old(5)] assms(1) by auto
  then show "counter_ok c (st_main (SplitterTest_count j x)) (st_sched (SplitterTest_count j x)) (st_completed x) (st_returned x)"
    using old(5) assms(1) by (simp add: counter_ok_def SplitterTest_count_def AddSplitterJob_count_def)
  show "main_fit c (h_added (s_pool (st_session (SplitterTest_count j x)))) (jobs_counted (st_sched (SplitterTest_count j x)))
      (st_main (SplitterTest_count j x))"
    using fit_steps(3) old(1) assms(1) by (simp add: SplitterTest_count_def AddSplitterJob_count_def)
qed (use split_invD [OF assms(2)] assms(1) in \<open>simp_all add: SplitterTest_count_def life_fits_def\<close>)

lemma waiter_moves:
  assumes "waiter_step s s'" "counter_ok c M_Wait s fin ret"
  shows "counter_ok c M_Wait s' fin ret \<and> jobs_counted s' = jobs_counted s"
  using assms by (induction rule: waiter_step.induct) (auto simp: counter_ok_def)

lemma split_inv_waits:
  assumes "st_main x = M_Wait" "waiter_step (st_sched x) sched" "split_inv c x"
  shows "split_inv c (x\<lparr>st_sched := sched\<rparr>)"
proof (rule split_inv_frame [OF assms(3)])
  note old = split_invD [OF assms(3)]
  have "counter_ok c M_Wait sched (st_completed x) (st_returned x) \<and> jobs_counted sched = jobs_counted (st_sched x)"
    by (rule waiter_moves [OF assms(2)]) (use old(5) assms(1) in simp)
  then show "counter_ok c (st_main (x\<lparr>st_sched := sched\<rparr>)) (st_sched (x\<lparr>st_sched := sched\<rparr>)) (st_completed x) (st_returned x)"
    "main_fit c (h_added (s_pool (st_session (x\<lparr>st_sched := sched\<rparr>)))) (jobs_counted (st_sched (x\<lparr>st_sched := sched\<rparr>)))
       (st_main (x\<lparr>st_sched := sched\<rparr>))"
    using old(1) assms(1) by simp_all
qed (use split_invD [OF assms(3)] in \<open>simp_all add: life_fits_def\<close>)

text \<open>A reference is given up.\<close>

lemma release_inv:
  assumes "main_fit c (h_added (s_pool (st_session x))) (jobs_counted (st_sched x)) (st_main x)"
    "pcs_ok c (split_runs x) (st_pc x)"
    "jobs_ok c (split_runs x) (st_pc x) (st_returned x) (st_jobs x) (created c (st_main x))"
    "done_ok c (split_runs x) (st_pc x) (st_returned x) (st_completed x)"
    "counter_ok c (st_main x) (st_sched x) (st_completed x) (st_returned x)" "life_fits x"
    and "\<not> st_crashed x" "st_destructor x = None" "\<And>w. who = Some w \<Longrightarrow> (\<exists>r. split_runs x w r) \<and> st_pc x w = S_At 1"
  shows "split_inv c (release who x)"
proof (rule split_invI)
  have same: "split_alive (release who x) 0 = split_alive x 0" by (simp add: split_alive_def)
  show "owner_ok (release who x)"
  proof (cases "split_alive x 0")
    case True
    with assms(7,8) same show ?thesis by (simp add: owner_ok_def release_def)
  next
    case False
    then have "st_destructor (release who x) = Some who" by (simp add: release_def)
    with False assms(7,9) same show ?thesis by (simp add: owner_ok_def)
  qed
  show "life_fits (release who x)" using assms(6,8) by (auto simp: life_fits_def release_def)
qed (use assms(1-5) in simp_all)

lemma split_inv_exit:
  assumes "st_main x = M_Wait" "split_waiter x = Wt_Returned" "split_inv c x"
  shows "split_inv c (release None (x\<lparr>st_main := M_Exit\<rparr>))"
proof -
  note old = split_invD [OF assms(3)]
  have "split_alive x 0" using alive_cases [OF old(2)] assms(1) by simp
  then have "st_destructor x = None" "\<not> st_crashed x" using old(6) by (simp_all add: owner_ok_def)
  moreover have "counter_ok c M_Exit (st_sched x) (st_completed x) (st_returned x)"
    using counter_okD [OF old(5)] assms(2) unfolding counter_ok_def by blast
  moreover have "life_fits (x\<lparr>st_main := M_Exit\<rparr>)" using old(7) assms(1) by (simp add: life_fits_def)
  ultimately show ?thesis using old fit_steps(5) assms(1,2) by (intro release_inv) simp_all
qed

text \<open>A worker inside its job.\<close>

lemma running_not_dead:
  assumes "split_reach c x" "split_inv c x" "split_runs x w r" "\<not> completed_pc (st_pc x w)" "split_jobs c < 2 ^ 64"
  shows "st_main x \<noteq> M_Exit" "split_alive x 0" "st_destructor x = None"
proof -
  show "st_main x \<noteq> M_Exit" using all_completed_pc [OF assms(1,2) _ assms(5,3)] assms(4) by blast
  then show "split_alive x 0" using alive_cases [OF split_invD(2) [OF assms(2)]] by simp
  then show "st_destructor x = None" using split_invD(6) [OF assms(2)] by (simp add: owner_ok_def)
qed

text \<open>Worker \<open>w\<close> moves to the position \<open>q\<close>.\<close>

lemma split_inv_move:
  assumes inv: "split_inv c x" and solo: "solo (split_runs x) (st_returned x) w r" "\<not> sc_throws c r"
    and q: "q \<in> {S_At 0, S_Held 0, S_Done 0, S_At 1}"
    and y: "st_session y = st_session x" "st_returned y = st_returned x" "st_main y = st_main x" "\<not> st_crashed y"
      "st_pc y = (st_pc x)(w := q)" "jobs_counted (st_sched y) = jobs_counted (st_sched x)" "st_destructor x = None" "st_destructor y = None"
    and alive: "split_alive y 0"
    and parts: "jobs_ok c (split_runs x) (st_pc y) (st_returned x) (st_jobs y) (created c (st_main x))"
      "done_ok c (split_runs x) (st_pc y) (st_returned x) (st_completed y)"
      "counter_ok c (st_main x) (st_sched y) (st_completed y) (st_returned x)"
  shows "split_inv c y"
proof (rule split_invI)
  note old = split_invD [OF inv]
  have run: "split_runs x w r" using solo(1) by (simp add: solo_def)
  show "pcs_ok c (split_runs y) (st_pc y)" using pcs_move [OF old(2) run solo(2) q] y by simp
  show "owner_ok y" using alive y(4,8) by (simp add: owner_ok_def)
  show "life_fits y" using old(7) y(1,3,7) by (auto simp: life_fits_def)
qed (use split_invD [OF inv] y parts in simp_all)

lemma split_inv_split:
  assumes "split_runs x w r" "st_pc x w = S_Split" "\<not> sc_throws c r" "split_inv c x" "split_reach c x" "split_jobs c < 2 ^ 64"
  shows "split_inv c (Run_split c w r x)"
proof -
  note old = split_invD [OF assms(4)] and solo = split_solo [OF assms(5,4,1)]
  have "\<not> completed_pc (st_pc x w)" using assms(2) by simp
  note live = running_not_dead [OF assms(5,4,1) this assms(6)]
  have job: "st_jobs x r = job_new c r" using job_of [OF old(3) solo(1,2)] assms(2) by simp
  let ?y = "x\<lparr>st_pc := (st_pc x)(w := S_At 0), st_jobs := (st_jobs x)(r := job_split c r)\<rparr>"
  have y: "Run_split c w r x = ?y" using job by (simp add: Run_split_def job_new_def job_split_def Let_def)
  have "jobs_ok c (split_runs x) ((st_pc x)(w := S_At 0)) (st_returned x) ((st_jobs x)(r := job_split c r)) (created c (st_main x))"
    by (rule jobs_write [OF old(3) solo(1)]) simp
  moreover have "done_ok c (split_runs x) ((st_pc x)(w := S_At 0)) (st_returned x) (st_completed x)"
    by (rule done_move [OF old(4) solo(1)]) (simp add: assms(2))
  moreover have "split_alive ?y 0" using live(1) by (simp add: split_alive_def)
  moreover have "\<not> st_crashed x" using old(6) by (simp add: owner_ok_def)
  ultimately show ?thesis unfolding y
    using live(3) old(5) assms(3) by (intro split_inv_move [OF assms(4) solo(1), where q = "S_At 0"]) simp_all
qed

lemma split_inv_lock:
  assumes "split_runs x w r" "st_pc x w = S_At i" "i < length (observer_list (st_jobs x r))" "split_inv c x" "split_reach c x"
    and "split_jobs c < 2 ^ 64"
  shows "split_inv c (Run_lock w r i x)"
proof -
  note old = split_invD [OF assms(4)] and solo = split_solo [OF assms(5,4,1)]
  have job: "st_jobs x r = job_split c r" using job_of [OF old(3) solo(1,2)] assms(2) by simp
  then have i: "i = 0" using assms(3) by (simp add: job_split_def job_new_def)
  then have "\<not> completed_pc (st_pc x w)" using assms(2) by simp
  note live = running_not_dead [OF assms(5,4,1) this assms(6)]
  let ?y = "x\<lparr>st_pc := (st_pc x)(w := S_Held 0)\<rparr>"
  have y: "Run_lock w r i x = ?y" using job live(2) i by (simp add: Run_lock_def weak_lock_def job_split_def job_new_def)
  have "jobs_ok c (split_runs x) ((st_pc x)(w := S_Held 0)) (st_returned x) (st_jobs x) (created c (st_main x))"
    by (rule jobs_move [OF old(3) solo(1)]) (simp_all add: assms(2))
  moreover have "done_ok c (split_runs x) ((st_pc x)(w := S_Held 0)) (st_returned x) (st_completed x)"
    by (rule done_move [OF old(4) solo(1)]) (simp add: assms(2) i)
  moreover have "split_alive ?y 0" using live(1) by (simp add: split_alive_def)
  moreover have "\<not> st_crashed x" using old(6) by (simp add: owner_ok_def)
  moreover have "\<not> sc_throws c r" using pcs_not_throws [OF old(2) solo(1)] assms(2) by simp
  ultimately show ?thesis unfolding y
    using live(3) old(5) by (intro split_inv_move [OF assms(4) solo(1), where q = "S_Held 0"]) simp_all
qed

lemma completed_counter:
  assumes "counter_ok c m s fin ret" "m \<noteq> M_Exit" "waiters s ! 0 \<noteq> Wt_Returned"
  shows "counter_ok c m (OnCompletedJob s) (add_mset r fin) ret"
proof -
  obtain q where q: "waiters s = [q]" using counter_okD(4) [OF assms(1)] by (auto simp: length_Suc_conv)
  with assms show ?thesis by (cases q) (auto simp: counter_ok_def OnCompletedJob_def)
qed

lemma not_returned:
  assumes "split_reach c x" "split_inv c x" "split_runs x w r" "\<not> completed_pc (st_pc x w)" "split_jobs c < 2 ^ 64"
  shows "split_waiter x \<noteq> Wt_Returned"
proof
  note old = split_invD [OF assms(2)] and solo = split_solo [OF assms(1-3)]
  assume ret: "split_waiter x = Wt_Returned"
  then have "st_main x \<in> {M_Wait, M_Exit}" "pending_job_count (st_sched x) = 0" using counter_okD(5,6) [OF old(5)] by auto
  from all_completed [OF assms(1,2) this assms(5)] have "r \<in># st_completed x" using solo(3) by simp
  then have "reached c (split_runs x) (st_pc x) (st_returned x) completed_pc r" using old(4) by (simp add: done_ok_def)
  with assms(4) show False unfolding reached_solo [OF solo(1)] by simp
qed

lemma split_inv_complete:
  assumes "split_runs x w r" "st_pc x w = S_Held i" "split_inv c x" "split_reach c x" "split_jobs c < 2 ^ 64"
  shows "split_inv c (Run_complete w r i x)"
proof -
  note old = split_invD [OF assms(3)] and solo = split_solo [OF assms(4,3,1)]
  have i: "i = 0" using pcs_values [OF old(2), of w] assms(2) by simp
  have nc: "\<not> completed_pc (st_pc x w)" using assms(2) by simp
  note live = running_not_dead [OF assms(4,3,1) nc assms(5)]
  let ?y = "Run_complete w r 0 x"
  have "jobs_ok c (split_runs x) ((st_pc x)(w := S_Done 0)) (st_returned x) (st_jobs x) (created c (st_main x))"
    by (rule jobs_move [OF old(3) solo(1)]) (simp_all add: assms(2))
  moreover have "done_ok c (split_runs x) ((st_pc x)(w := S_Done 0)) (st_returned x) (add_mset r (st_completed x))"
    by (rule done_complete [OF old(4) solo(1) nc]) simp
  moreover have "split_alive ?y 0" using live(1) by (simp add: split_alive_def Run_complete_def)
  moreover have "\<not> st_crashed x" using old(6) by (simp add: owner_ok_def)
  moreover have "\<not> sc_throws c r" using pcs_not_throws [OF old(2) solo(1)] assms(2) by simp
  moreover have "counter_ok c (st_main x) (OnCompletedJob (st_sched x)) (add_mset r (st_completed x)) (st_returned x)"
    by (rule completed_counter [OF old(5) live(1) not_returned [OF assms(4,3,1) nc assms(5)]])
  ultimately show ?thesis unfolding i
    using live(3) by (intro split_inv_move [OF assms(3) solo(1), where q = "S_Done 0"]) (simp_all add: Run_complete_def OnCompletedJob_def)
qed

lemma split_inv_release:
  assumes "st_pc x w = S_Done i" "split_inv c x" "split_reach c x"
  shows "split_inv c (Run_release w i x)"
proof -
  note old = split_invD [OF assms(2)]
  have i: "i = 0" using pcs_values [OF old(2), of w] assms(1) by simp
  have "st_pc x w \<noteq> S_Split" using assms(1) by simp
  then obtain r where run: "split_runs x w r" using old(2) unfolding pcs_ok_def by blast
  note solo = split_solo [OF assms(3,2) run]
  have "split_alive x 0" using alive_cases [OF old(2)] assms(1) by (metis holds.simps(2))
  then have none: "st_destructor x = None" "\<not> st_crashed x" using old(6) by (simp_all add: owner_ok_def)
  let ?y = "x\<lparr>st_pc := (st_pc x)(w := S_At 1)\<rparr>"
  have "pcs_ok c (split_runs x) ((st_pc x)(w := S_At 1))"
    using pcs_move [OF old(2) run] pcs_not_throws [OF old(2) solo(1)] assms(1) by simp
  moreover have "jobs_ok c (split_runs x) ((st_pc x)(w := S_At 1)) (st_returned x) (st_jobs x) (created c (st_main x))"
    by (rule jobs_move [OF old(3) solo(1)]) (simp_all add: assms(1))
  moreover have "done_ok c (split_runs x) ((st_pc x)(w := S_At 1)) (st_returned x) (st_completed x)"
    by (rule done_move [OF old(4) solo(1)]) (simp add: assms(1))
  moreover have "life_fits ?y" using old(7) by (simp add: life_fits_def)
  ultimately have "split_inv c (release (Some w) ?y)"
    using old(1,5) none run by (intro release_inv) auto
  then show ?thesis by (simp add: Run_release_def i)
qed

text \<open>A worker returns from its job.\<close>

lemma task_ends_solo:
  assumes "task_ends w t (s_pool s) p" "st_session x = s" "split_reach c x" "split_inv c x"
  shows "solo (split_runs x) (st_returned x) w (task_runnable t)" "split_runs x w (task_runnable t)"
    "runs_task v r p \<longleftrightarrow> v \<noteq> w \<and> split_runs x v r"
proof -
  show "split_runs x w (task_runnable t)" using assms(1,2) by (auto simp: task_ends_def runs_task_def)
  from split_solo(1) [OF assms(3,4) this] show "solo (split_runs x) (st_returned x) w (task_runnable t)" .
  show "runs_task v r p \<longleftrightarrow> v \<noteq> w \<and> split_runs x v r"
    using assms(1,2) by (cases "v = w") (auto simp: task_ends_def runs_task_def)
qed

lemma split_inv_ends:
  assumes ends: "task_ends w t (s_pool s) p" "st_session x = s" and inv: "split_inv c x" "split_reach c x"
    and pc: "st_pc x w = (if sc_throws c (task_runnable t) then S_Split else S_At 1)" "st_destructor x \<noteq> Some (Some w)"
    and y: "st_session y = s\<lparr>s_pool := p\<rparr>" "st_pc y = (st_pc x)(w := S_Split)" "st_returned y = add_mset (task_runnable t) (st_returned x)"
      "st_main y = st_main x" "st_jobs y = st_jobs x" "st_completed y = st_completed x" "st_destructor y = st_destructor x"
      "st_crashed y = st_crashed x" "jobs_counted (st_sched y) = jobs_counted (st_sched x)"
    and counter: "counter_ok c (st_main x) (st_sched y) (st_completed x) (st_returned y)"
  shows "split_inv c y"
proof (rule split_invI)
  note old = split_invD [OF inv(1)] and solo = task_ends_solo [OF ends inv(2,1)]
  let ?r = "task_runnable t"
  have run: "split_runs y v r \<longleftrightarrow> v \<noteq> w \<and> split_runs x v r" for v r using solo(3) y(1) by simp
  have reached: "reached c (split_runs y) (st_pc y) (st_returned y) P r = reached c (split_runs x) (st_pc x) (st_returned x) P r"
    if "\<not> P S_Split" "P (S_At 1)" for P r
    unfolding y(2,3) using that pc(1) by (intro reached_return [OF solo(1) run]) simp
  show "jobs_ok c (split_runs y) (st_pc y) (st_returned y) (st_jobs y) (created c (st_main y))"
    using old(3) reached [of "\<lambda>p. p \<noteq> S_Split"] y(4,5) by (simp add: jobs_ok_def)
  show "done_ok c (split_runs y) (st_pc y) (st_returned y) (st_completed y)"
    using old(4) reached [of completed_pc] y(6) by (simp add: done_ok_def)
  show pcs: "pcs_ok c (split_runs y) (st_pc y)" unfolding y(2) by (rule pcs_return [OF old(2) run])
  have "holds (st_pc y v) = holds (st_pc x v)" for v using pc(1) y(2) by simp
  then have "split_alive y 0 = split_alive x 0" using alive_cases [OF old(2)] alive_cases [OF pcs] y(4) by simp
  moreover have "\<forall>v. st_destructor x = Some (Some v) \<longrightarrow> (\<exists>r. split_runs y v r) \<and> st_pc y v = S_At 1"
    using old(6) pc(2) run y(2) unfolding owner_ok_def by (metis fun_upd_other)
  ultimately show "owner_ok y" using old(6) y(7,8) unfolding owner_ok_def by simp
  show "life_fits y" using old(7) y(1,4,7) ends task_ends_runs [OF ends(1)] by (simp add: life_fits_def)
qed (use split_invD [OF inv(1)] y counter task_ends_runs [OF ends(1)] ends(2) in simp_all)

lemma split_inv_throws:
  assumes "task_ends w t (s_pool s) p" "st_session x = s" "st_pc x w = S_Split" "sc_throws c (task_runnable t)"
    and "split_inv c x" "split_reach c x" "split_jobs c < 2 ^ 64" "sched = (st_sched x)\<lparr>jobs_lost := jobs_lost (st_sched x) + 1\<rparr>"
  shows "split_inv c (x\<lparr>st_session := s\<lparr>s_pool := p\<rparr>, st_sched := sched, st_returned := add_mset (task_runnable t) (st_returned x)\<rparr>)"
    (is "split_inv c ?y")
proof (rule split_inv_ends [OF assms(1,2,5,6)])
  note run = task_ends_solo(2) [OF assms(1,2,6,5)]
  have "\<not> completed_pc (st_pc x w)" using assms(3) by simp
  from running_not_dead(3) [OF assms(6,5) run this assms(7)] show "st_destructor x \<noteq> Some (Some w)" by simp
  show "st_pc ?y = (st_pc x)(w := S_Split)" using assms(3) by (auto simp: fun_upd_idem)
  show "counter_ok c (st_main x) (st_sched ?y) (st_completed x) (st_returned ?y)"
    by (rule counter_ok_cong [OF split_invD(5) [OF assms(5)]])
      (use counter_okD(3) [OF split_invD(5) [OF assms(5)]] assms(4,8) in simp_all)
qed (use assms(3,4,8) in simp_all)

lemma split_ended_no_job: "split_reach c x \<Longrightarrow> s_life (st_session x) = Ended \<Longrightarrow> \<not> split_runs x w r"
proof
  assume "split_reach c x" "s_life (st_session x) = Ended" "split_runs x w r"
  then have "\<forall>p \<in> set (ws (s_pool (st_session x))). p = W_Done True" using ended_workers [OF split.sound] by blast
  moreover obtain t where "w < length (ws (s_pool (st_session x)))" "ws (s_pool (st_session x)) ! w = W_Run (Some t)"
    using \<open>split_runs x w r\<close> by (auto simp: runs_task_def)
  then have "W_Run (Some t) \<in> set (ws (s_pool (st_session x)))" by (metis nth_mem)
  ultimately show False by blast
qed

lemma split_inv_return:
  assumes "task_ends w t (s_pool s) p" "st_session x = s"
    and "st_pc x w = S_At (length (observer_list (st_jobs x (task_runnable t))))" "not_destroying w x"
    and "split_inv c x" "split_reach c x"
  shows "split_inv c (x\<lparr>st_session := s\<lparr>s_pool := p\<rparr>, st_pc := (st_pc x)(w := S_Split),
       st_returned := add_mset (task_runnable t) (st_returned x)\<rparr>)" (is "split_inv c ?y")
proof (rule split_inv_ends [OF assms(1,2,5,6)])
  note old = split_invD [OF assms(5)] and solo = task_ends_solo(1,2) [OF assms(1,2,6,5)]
  let ?r = "task_runnable t"
  have "st_jobs x ?r = job_split c ?r"
    using job_of [OF old(3) solo(1)] split_solo(2) [OF assms(6,5) solo(2)] assms(3) by simp
  then have at: "st_pc x w = S_At 1" using assms(3) by (simp add: job_split_def job_new_def)
  moreover have nt: "\<not> sc_throws c ?r" using pcs_not_throws [OF old(2) solo(1)] at by simp
  ultimately show "st_pc x w = (if sc_throws c ?r then S_Split else S_At 1)" by simp
  show "st_destructor x \<noteq> Some (Some w)"
    using assms(4) split_ended_no_job [OF assms(6) _ ] solo(2) by (auto simp: not_destroying_def)
  show "counter_ok c (st_main x) (st_sched ?y) (st_completed x) (st_returned ?y)"
    by (rule counter_ok_cong [OF old(5)]) (use counter_okD(3) [OF old(5)] nt in simp_all)
qed simp_all

lemma jobs_small: "split_jobs c \<le> unat (sc_pending c) \<Longrightarrow> split_jobs c < 2 ^ 64"
proof -
  have "unat (sc_pending c) < 2 ^ 64" using unsigned_less [of "sc_pending c"] by simp
  then show "split_jobs c \<le> unat (sc_pending c) \<Longrightarrow> ?thesis" by linarith
qed

lemma split_inv_step:
  assumes "split_step c x y" "split_inv c x" "split_reach c x" "split_reach c y" "split_jobs c \<le> unat (sc_pending c)"
  shows "split_inv c y"
proof -
  have small: "split_jobs c < 2 ^ 64" using assms(5) by (rule jobs_small)
  show ?thesis using assms(1-4)
  proof (induction rule: split_step.induct)
    case (split_call x s)
    then show ?case by (intro split_inv_call)
  next
    case (split_job x j)
    then show ?case by (intro split_inv_job)
  next
    case (split_add x j s ev p sched)
    have "ev = Add_done" by (rule split_add_done [OF split_add(8,9,2,3) _ assms(5)]) (use split_add(4,5) in simp)
    with split_add split_inv_add [of x j s c p sched] show ?case by (simp add: SplitterTest_added_def)
  next
    case (split_count x j)
    then show ?case by (intro split_inv_count)
  next
    case (split_wait x)
    show ?case
    proof (rule split_inv_frame [OF split_wait(4)])
      note old = split_invD [OF split_wait(4)]
      have "split_waiter x = Wt_Idle" using counter_okD(5) [OF old(5)] split_wait(2) by auto
      then show "counter_ok c (st_main (x\<lparr>st_main := M_Wait\<rparr>)) (st_sched (x\<lparr>st_main := M_Wait\<rparr>)) (st_completed x) (st_returned x)"
        using old(5) by (simp add: counter_ok_def)
      show "life_fits (x\<lparr>st_main := M_Wait\<rparr>)" using old(7) split_wait(3) by (simp add: life_fits_def)
      show "main_fit c (h_added (s_pool (st_session (x\<lparr>st_main := M_Wait\<rparr>)))) (jobs_counted (st_sched (x\<lparr>st_main := M_Wait\<rparr>)))
          (st_main (x\<lparr>st_main := M_Wait\<rparr>))" using old(1) fit_steps(4) split_wait(2) by simp
    qed (use split_wait(2) in simp_all)
  next
    case (split_waits x sched)
    then show ?case by (intro split_inv_waits)
  next
    case (split_exit x)
    then show ?case by (intro split_inv_exit)
  next
    case (split_worker x s p)
    then show ?case by (intro split_inv_worker) (simp_all add: work_def)
  next
    case (split_split x w r)
    then show ?case using small by (intro split_inv_split)
  next
    case (split_throws x w t s p sched)
    then show ?case using small by (intro split_inv_throws)
  next
    case (split_lock x w r i)
    then show ?case using small by (intro split_inv_lock)
  next
    case (split_complete x w r i)
    then show ?case using small by (intro split_inv_complete)
  next
    case (split_release x w i)
    then show ?case by (intro split_inv_release)
  next
    case (split_return x w t s p)
    then show ?case by (intro split_inv_return)
  qed
qed

lemma split_inv_wakes: "split_wakes c x y \<Longrightarrow> split_inv c x \<Longrightarrow> split_reach c x \<Longrightarrow> split_inv c y"
proof (induction rule: split_wakes.induct)
  case (wakes_main x sched)
  then show ?case by (intro split_inv_waits)
next
  case (wakes_worker x s p)
  then show ?case using wakes_up_not_ends by (intro split_inv_worker)
next
  case (wakes_call x s p)
  have "cs (s_pool s) ! 0 \<noteq> C_Ret e" for e using wakes_call(2) by auto
  then have "life_fits (x\<lparr>st_session := s\<lparr>s_pool := p\<rparr>\<rparr>)"
    using split_invD(7) [OF wakes_call(4)] wakes_call(1) by (auto simp: life_fits_def)
  then show ?case using wakes_call(1,3) by (intro split_inv_session [OF wakes_call(4)]) simp_all
next
  case (wakes_add x j s p)
  then have False using split_invD(7) [OF wakes_add(6)] by (auto simp: life_fits_def)
  then show ?case ..
qed

interpretation split_ok: relative_invariant "split_start c" "\<lambda>x y. split_step c x y \<or> split_wakes c x y" "split_reach c"
    "\<lambda>x. split_jobs c \<le> unat (sc_pending c) \<longrightarrow> split_inv c x"
proof (intro relative_invariant.intro reachable_invariant relative_invariant_axioms.intro)
  show "split_start c x \<Longrightarrow> split_jobs c \<le> unat (sc_pending c) \<longrightarrow> split_inv c x" for x by (blast intro: split_inv_start)
  show "split_reach c x \<Longrightarrow> split_reach c y \<Longrightarrow> split_jobs c \<le> unat (sc_pending c) \<longrightarrow> split_inv c x \<Longrightarrow>
      split_step c x y \<or> split_wakes c x y \<Longrightarrow> split_jobs c \<le> unat (sc_pending c) \<longrightarrow> split_inv c y" for x y
    using split_inv_step split_inv_wakes by blast
qed

lemma split_always: "split_reach c x \<Longrightarrow> split_jobs c \<le> unat (sc_pending c) \<Longrightarrow> split_inv c x"
  using split_ok.both.always by blast

end
