(* ===== verification/Splitter_Run.thy ===== *)
theory Splitter_Run
  imports Splitter_Test
begin

text \<open>
  How runs of the splitter test end, and what holds on the way. \<open>split_rank\<close> goes down with every step that is not an unnotified
  wake-up, and \<open>split_stuck\<close> says where a run that cannot go on stands. The runs at the end are those of one worker with one job.
\<close>

subsection \<open>How the test ends\<close>

definition split_main_rank :: "'e split_cfg \<Rightarrow> split_main \<Rightarrow> nat" where
  "split_main_rank c m = (case m of M_Job j \<Rightarrow> 4 * (split_jobs c - j) + 2 | M_Adding j \<Rightarrow> 4 * (split_jobs c - j) + 1
     | M_Count j \<Rightarrow> 4 * (split_jobs c - j) | M_Wait \<Rightarrow> 1 | _ \<Rightarrow> 0)"

fun pc_rank :: "split_pc \<Rightarrow> nat" where
  "pc_rank S_Split = 4"
| "pc_rank (S_At i) = (if i = 0 then 3 else 0)"
| "pc_rank (S_Held i) = 2"
| "pc_rank (S_Done i) = 1"

fun waiter_rank :: "wait_pc \<Rightarrow> nat" where
  "waiter_rank Wt_Idle = 3"
| "waiter_rank Wt_Test = 2"
| "waiter_rank Wt_Wait = 1"
| "waiter_rank p = 0"

definition split_rank :: "'e split_cfg \<Rightarrow> split_test \<Rightarrow> nat \<times> nat \<times> nat" where
  "split_rank c x =
     (session_rank (sc_workers c) (st_session x) + split_main_rank c (st_main x),
      5 * work_left (s_pool (st_session x)) + (\<Sum>w < length (ws (s_pool (st_session x))). pc_rank (st_pc x w)),
      of_bool (at_check (cs (s_pool (st_session x)) ! 0)) + waiter_rank (split_waiter x))"

lemma rank_move:
  assumes "split_runs x w r" "pc_rank q < pc_rank (st_pc x w)"
    and "st_session y = st_session x" "st_pc y = (st_pc x)(w := q)" "st_main y = st_main x"
  shows "(split_rank c y, split_rank c x) \<in> rank_less"
  using assms sum_upd [of w "length (ws (s_pool (st_session x)))" pc_rank "st_pc x" q]
  by (simp add: split_rank_def runs_task_def)

lemma running_list:
  assumes "split_reach c x" "split_inv c x" "split_runs x w r" "st_pc x w \<noteq> S_Split"
  shows "observer_list (st_jobs x r) = [0]"
  using job_of [OF split_invD(3) [OF assms(2)] split_solo(1,2) [OF assms(1-3)]] assms(4)
  by (simp add: job_split_def job_new_def)

lemma split_rank_decreases:
  assumes "split_step c x y" "split_reach c x" "split_inv c x" "split_jobs c \<le> unat (sc_pending c)"
  shows "(split_rank c y, split_rank c x) \<in> rank_less"
  using assms(1-3)
proof (induction rule: split_step.induct)
  case (split_call x s)
  have "session_inv (sc_workers c) (st_session x)" using split.sound [OF split_call(4)] by (simp add: session_sound_def)
  from control_call_rank [OF split_call(2) this] show ?case by (auto simp: split_rank_def work_left_def)
next
  case (split_job x j)
  then show ?case by (simp add: split_rank_def SplitterTest_job_def split_main_rank_def)
next
  case (split_add x j s ev p sched)
  have "ev = Add_done" by (rule split_add_done [OF split_add(9,8,2,3) _ assms(4)]) (use split_add(4,5) in simp)
  moreover have "j < split_jobs c" using split_invD(1) [OF split_add(9)] split_add(2) by (simp add: main_fit_def)
  ultimately show ?case using split_add(2-4) by (simp add: split_rank_def SplitterTest_added_def split_main_rank_def)
next
  case (split_count x j)
  then have "j < split_jobs c" using split_invD(1) [OF split_count(4)] by (simp add: main_fit_def)
  then have "4 * (split_jobs c - Suc j) + 2 < 4 * (split_jobs c - j)" by arith
  with split_count(2) show ?case by (simp add: split_rank_def SplitterTest_count_def split_main_rank_def)
next
  case (split_wait x)
  then show ?case by (simp add: split_rank_def split_main_rank_def)
next
  case (split_waits x sched)
  have one: "length (waiters (st_sched x)) = 1" using counter_okD(4) [OF split_invD(5) [OF split_waits(6)]] .
  have "waiter_rank (waiters sched ! 0) < waiter_rank (split_waiter x)"
    using split_waits(3,4) one by (cases rule: waiter_step.cases) (auto split: if_splits)
  then show ?case by (simp add: split_rank_def)
next
  case (split_exit x)
  then show ?case by (simp add: split_rank_def split_main_rank_def)
next
  case (split_worker x s p)
  have "worker_step (s_pool (st_session x)) p" using split_worker(2,3) by (simp add: work_def)
  with worker_rank [OF this sound_one_client [OF split.sound [OF split_worker(5)]]] ws_grow_worker [OF this]
    work_decreases [OF split_worker(3)] split_worker(2) show ?case by (simp add: split_rank_def)
next
  case (split_split x w r)
  have "st_jobs x r = job_new c r"
    using job_of [OF split_invD(3) [OF split_split(6)] split_solo(1,2) [OF split_split(5,6,2)]] split_split(3) by simp
  then show ?case using split_split(3)
    by (intro rank_move [OF split_split(2), of "S_At 0"]) (simp_all add: Run_split_def job_new_def Let_def)
next
  case (split_throws x w t s p sched)
  then show ?case using task_ends_work [OF split_throws(2)] by (simp add: split_rank_def task_ends_def)
next
  case (split_lock x w r i)
  have obs: "observer_list (st_jobs x r) = [0]" using split_lock(3) by (intro running_list [OF split_lock(6,7,2)]) simp
  then have i: "i = 0" using split_lock(4) by simp
  then have "\<not> completed_pc (st_pc x w)" using split_lock(3) by simp
  from running_not_dead(2) [OF split_lock(6,7,2) this jobs_small [OF assms(4)]] show ?case
    using split_lock(3) obs i by (intro rank_move [OF split_lock(2), of "S_Held 0"]) (simp_all add: Run_lock_def weak_lock_def)
next
  case (split_complete x w r i)
  then show ?case by (intro rank_move [OF split_complete(2), of "S_Done i"]) (simp_all add: Run_complete_def)
next
  case (split_release x w i)
  have "st_pc x w \<noteq> S_Split" using split_release(2) by simp
  then obtain r where "split_runs x w r" using split_invD(2) [OF split_release(4)] unfolding pcs_ok_def by blast
  with split_release(2) show ?case by (intro rank_move [where x = x and w = w and r = r and q = "S_At (Suc i)"]) (simp_all add: Run_release_def)
next
  case (split_return x w t s p)
  have run: "split_runs x w (task_runnable t)" using split_return(2,3) by (auto simp: runs_task_def task_ends_def)
  have "st_pc x w \<noteq> S_Split" using split_return(4) by simp
  then have "st_pc x w = S_At 1" using running_list [OF split_return(6,7) run] split_return(4) by simp
  moreover have "cs p = cs (s_pool s)" "w < length (ws (s_pool s))" using split_return(2) by (auto simp: task_ends_def)
  ultimately show ?case
    using sum_upd [of w "length (ws p)" pc_rank "st_pc x" S_Split] task_ends_work [OF split_return(2)] split_return(3)
    by (simp add: split_rank_def)
qed

text \<open>A worker inside its job can go on, unless it runs the destructor.\<close>

lemma job_goes_on:
  assumes "split_runs x w r" "split_inv c x" "split_reach c x" "st_destructor x \<noteq> Some (Some w)"
  shows "\<exists>y. split_step c x y"
proof -
  let ?p = "s_pool (st_session x)"
  note old = split_invD [OF assms(2)]
  have ok: "\<not> st_crashed x" "not_destroying w x" using old(6) assms(4) by (simp_all add: owner_ok_def not_destroying_def)
  obtain t where t: "w < length (ws ?p)" "ws ?p ! w = W_Run (Some t)" "task_runnable t = r" using assms(1) by (auto simp: runs_task_def)
  then have ends: "task_ends w t ?p (?p\<lparr>ws := (ws ?p)[w := W_Loop]\<rparr>)" by (simp add: task_ends_def)
  have obs: "st_pc x w \<noteq> S_Split \<Longrightarrow> observer_list (st_jobs x r) = [0]" by (rule running_list [OF assms(3,2,1)])
  consider "st_pc x w = S_Split" | "st_pc x w = S_At 0" | "st_pc x w = S_Held 0" | "st_pc x w = S_Done 0" | "st_pc x w = S_At 1"
    using pcs_values [OF old(2), of w] by blast
  then show ?thesis
  proof cases
    case 1
    then show ?thesis using split_step.split_split [OF ok(1) assms(1) 1] split_throws [OF ok(1) ends refl 1 _ refl] t(3) by blast
  next
    case 2
    with split_lock [OF ok(1) assms(1) 2 _ ok(2)] obs show ?thesis by auto
  next
    case 3
    from split_complete [OF ok(1) assms(1) 3] show ?thesis by blast
  next
    case 4
    from split_release [OF ok(1) 4] show ?thesis by blast
  next
    case 5
    with split_return [OF ok(1) ends refl _ ok(2)] obs t(3) show ?thesis by auto
  qed
qed

lemma split_no_work:
  assumes "split_inv c x" "split_reach c x" "\<And>w. st_destructor x \<noteq> Some (Some w)" "\<nexists>y. split_step c x y"
  shows "\<nexists>p. work (s_pool (st_session x)) p"
proof
  assume "\<exists>p. work (s_pool (st_session x)) p"
  then obtain p where p: "work (s_pool (st_session x)) p" by blast
  have ok: "\<not> st_crashed x" using split_invD(6) [OF assms(1)] by (simp add: owner_ok_def)
  show False
  proof (cases "job_ends (s_pool (st_session x)) p")
    case True
    then obtain w t where "w < length (ws (s_pool (st_session x)))" "ws (s_pool (st_session x)) ! w = W_Run (Some t)"
      by (auto simp: job_ends_def)
    then have "split_runs x w (task_runnable t)" by (simp add: runs_task_def)
    with job_goes_on assms show False by blast
  next
    case False
    with split_worker [OF ok refl p] assms(4) show False by blast
  qed
qed

text \<open>A worker that runs the destructor waits for itself.\<close>

lemma worker_destroys:
  assumes "split_inv c x" "split_reach c x" "st_destructor x = Some (Some w)"
  shows "s_life (st_session x) \<noteq> Ended" "st_main x = M_Exit" "st_pc x w = S_At 1" "\<exists>r. split_runs x w r"
proof -
  note old = split_invD [OF assms(1)]
  have own: "\<not> split_alive x 0" "\<exists>r. split_runs x w r" "st_pc x w = S_At 1" using old(6) assms(3) by (auto simp: owner_ok_def)
  then show "st_pc x w = S_At 1" "\<exists>r. split_runs x w r" by blast+
  show "st_main x = M_Exit" using own(1) alive_cases [OF old(2)] by blast
  show "s_life (st_session x) \<noteq> Ended" using split_ended_no_job [OF assms(2)] own(2) by blast
qed

lemma exit_completed:
  assumes "split_inv c x" "split_reach c x" "st_main x = M_Exit" "split_jobs c < 2 ^ 64"
  shows "st_completed x = mset [0..<split_jobs c]"
  using all_completed [OF assms(2,1) _ _ assms(4)] counter_okD(6,7) [OF split_invD(5) [OF assms(1)]] assms(3) by simp

text \<open>All the jobs have returned, and the main thread still waits.\<close>

definition left_waiting :: "'e split_cfg \<Rightarrow> split_test \<Rightarrow> bool" where
  "left_waiting c x \<longleftrightarrow> st_main x = M_Wait \<and> split_waiter x = Wt_Sleeping \<and> s_life (st_session x) = Working \<and>
     st_returned x = mset [0..<split_jobs c] \<and> pending_job_count (st_sched x) = of_nat (length (filter (sc_throws c) [0..<split_jobs c]))"

lemma waiting_stuck:
  assumes "split_inv c x" "split_reach c x" "st_main x = M_Wait" "s_life (st_session x) = Working" "split_waiter x = Wt_Sleeping"
    and still: "\<nexists>p. work (s_pool (st_session x)) p" and "sc_workers c \<noteq> 0"
  shows "left_waiting c x"
proof -
  let ?p = "s_pool (st_session x)"
  note sound = split.sound [OF assms(2)] and old = split_invD [OF assms(1)]
  note fit = fit_all [OF old(1), unfolded assms(3), simplified]
  have reach: "reach (split_pool c) ?p" using sound by (simp add: session_sound_def)
  have "at_rest 0 ?p"
    using sound session_ws by (intro quiescent [OF _ _ _ _ still, of "split_pool c"]) (auto simp: session_sound_def)
  then have "tasks (mgr ?p) = []" using working_workers [OF sound assms(4)] assms(7) by (simp add: at_rest_def)
  from all_started [OF fifo.always [OF reach] served.always [OF reach] _ this] old(1)
  have "length (h_started ?p) = split_jobs c" using fit by (simp add: main_fit_def)
  moreover have "runs (ws ?p) = {#}" using no_work [OF still] by (rule runs_not_busy)
  ultimately have size: "size (st_returned x) = split_jobs c" using arg_cong [OF split.accounted [OF assms(2)], of size] by simp
  have "st_returned x \<subseteq># mset [0..<split_jobs c]"
    using split.numbered(1) [OF assms(2) fit_numbers [OF old(1)]] fit by (metis mset_subset_eq_add_left subset_mset.order_trans)
  from subset_mset_full [OF this] have ret: "st_returned x = mset [0..<split_jobs c]" using size by simp
  have idle: "\<forall>q \<in> set (ws ?p). \<not> busy q" using no_work [OF still] .
  have "\<not> split_runs x w r" for w r
  proof
    assume "split_runs x w r"
    then obtain t where "W_Run (Some t) \<in> set (ws ?p)" by (metis nth_mem runs_task_def)
    with idle show False by auto
  qed
  then have fin: "r \<in># st_completed x \<longleftrightarrow> r < split_jobs c \<and> \<not> sc_throws c r" for r
    using old(4) by (simp add: done_ok_def reached_def ret)
  have "st_completed x = mset (filter (\<lambda>r. \<not> sc_throws c r) [0..<split_jobs c])"
  proof (rule multiset_eqI)
    fix r
    have "count (st_completed x) r \<le> 1" using old(4) by (simp add: done_ok_def)
    then have "count (st_completed x) r = of_bool (r \<in># st_completed x)"
      by (metis One_nat_def Suc_leI count_greater_zero_iff le_antisym not_in_iff of_bool_eq(1,2))
    then show "count (st_completed x) r = count (mset (filter (\<lambda>r. \<not> sc_throws c r) [0..<split_jobs c])) r"
      by (simp add: fin distinct_count_atmost_1 count_mset count_list_eq_length_filter)
  qed
  then have "jobs_done (st_sched x) = length (filter (\<lambda>r. \<not> sc_throws c r) [0..<split_jobs c])"
    unfolding counter_okD(2) [OF old(5)] by (simp only: size_mset)
  moreover have "split_jobs c = length (filter (sc_throws c) [0..<split_jobs c]) + length (filter (\<lambda>r. \<not> sc_throws c r) [0..<split_jobs c])"
    using sum_length_filter_compl [of "sc_throws c" "[0..<split_jobs c]"] by simp
  ultimately have "pending_job_count (st_sched x) = of_nat (length (filter (sc_throws c) [0..<split_jobs c]))"
    using counter_okD(1) [OF old(5)] fit by (metis add_diff_cancel_right' of_nat_add)
  with ret assms(3-5) show ?thesis by (simp add: left_waiting_def)
qed

lemma working_continues:
  assumes "split_inv c x" "split_reach c x" "s_life (st_session x) = Working" "st_main x \<noteq> M_Exit"
    and "split_jobs c \<le> unat (sc_pending c)" "\<nexists>y. split_step c x y"
  shows "st_main x = M_Wait \<and> split_waiter x = Wt_Sleeping"
proof -
  let ?s = "st_session x"
  note old = split_invD [OF assms(1)] and sound = split.sound [OF assms(2)]
  have ok: "\<not> st_crashed x" using old(6) by (simp add: owner_ok_def)
  show ?thesis
  proof (cases "st_main x")
    case (M_Job j)
    then have "j \<le> split_jobs c" using old(1) by (simp add: main_fit_def)
    then show ?thesis using split_job [OF ok M_Job, of c] split_wait [OF ok, of c] M_Job assms(3,6) by (cases "j = split_jobs c") auto
  next
    case (M_Adding j)
    obtain e where e: "cs (s_pool ?s) ! 0 = C_Ret e" using old(7) assms(3) unfolding life_fits_def by blast
    have "length (h_added (s_pool ?s)) < unat (sc_pending c)" using old(1) M_Adding assms(5) by (simp add: main_fit_def)
    from room_add_possible [OF few_added_room [OF sound assms(3) this] e] sound_one_client [OF sound]
    obtain p where "add_call (split_pool c) 0 j 0 Add_done (s_pool ?s) p" by auto
    from split_add [OF ok M_Adding assms(3) refl this _ refl] e assms(6) show ?thesis by auto
  next
    case (M_Count j)
    with split_count [OF ok] assms(6) show ?thesis by blast
  next
    case M_Wait
    have one: "length (waiters (st_sched x)) = 1" using counter_okD(4) [OF old(5)] .
    have "split_waiter x \<in> {Wt_Idle, Wt_Test, Wt_Wait} \<Longrightarrow> \<exists>s. waiter_step (st_sched x) s"
      using wait_call [of 0 "st_sched x"] wait_test [of 0 "st_sched x"] wait_block [of 0 "st_sched x"] one by auto
    then show ?thesis
      using split_waits [OF ok M_Wait] split_exit [OF ok M_Wait] M_Wait assms(6) by (cases "split_waiter x") auto
  next
    case (M_Threw e)
    with old(1) show ?thesis by (simp add: main_fit_def)
  qed (use assms(4) in simp)
qed

lemma split_stuck:
  assumes "split_inv c x" "split_reach c x" "sc_workers c \<noteq> 0" "split_jobs c \<le> unat (sc_pending c)" "\<nexists>y. split_step c x y"
  shows "(st_main x = M_Exit \<and>
       (st_destructor x = Some None \<and> s_life (st_session x) = Ended \<or>
        (\<exists>w. st_destructor x = Some (Some w)) \<and> s_life (st_session x) \<noteq> Ended)) \<or> left_waiting c x"
proof (cases "\<exists>w. st_destructor x = Some (Some w)")
  case True
  with worker_destroys(1,2) [OF assms(1,2)] show ?thesis by blast
next
  case False
  note old = split_invD [OF assms(1)] and sound = split.sound [OF assms(2)]
  have ok: "\<not> st_crashed x" using old(6) by (simp add: owner_ok_def)
  have still: "\<nexists>p. work (s_pool (st_session x)) p" using split_no_work [OF assms(1,2) _ assms(5)] False by blast
  have call: "st_destructor x \<noteq> None \<or> s_life (st_session x) \<noteq> Working \<Longrightarrow>
      \<not> control_call (split_pool c) SimpleThreadFactory_default (st_session x) s" for s
    using split_call [OF ok] assms(5) by blast
  have "s_life (st_session x) \<in> {Working, Ended}" using session_progress [OF sound _ still] call by blast
  moreover have "st_destructor x = None" if work: "s_life (st_session x) = Working"
  proof -
    obtain e where e: "cs (s_pool (st_session x)) ! 0 = C_Ret e" using old(7) work unfolding life_fits_def by blast
    from call_stop [OF work refl e refl] call show ?thesis by blast
  qed
  moreover have "st_main x \<noteq> M_Exit" if "st_destructor x = None"
  proof
    assume "st_main x = M_Exit"
    with that old(6) alive_cases [OF old(2)] obtain w where h: "holds (st_pc x w)" by (auto simp: owner_ok_def)
    then have "st_pc x w \<noteq> S_Split" by auto
    then obtain r where "split_runs x w r" using old(2) unfolding pcs_ok_def by blast
    from job_goes_on [OF this assms(1,2)] that assms(5) show False by simp
  qed
  moreover have "st_main x = M_Exit" if "st_destructor x \<noteq> None"
    using that old(6) alive_cases [OF old(2)] by (auto simp: owner_ok_def)
  moreover have "st_destructor x \<noteq> None" if "s_life (st_session x) = Ended"
    using that old(7) by (simp add: life_fits_def)
  ultimately consider "s_life (st_session x) = Working" "st_main x \<noteq> M_Exit" | "s_life (st_session x) = Ended" "st_main x = M_Exit" "st_destructor x \<noteq> None"
    by blast
  then show ?thesis
  proof cases
    case 1
    with working_continues [OF assms(1,2) 1 assms(4,5)] waiting_stuck [OF assms(1,2) _ 1(1) _ still assms(3)] show ?thesis by blast
  next
    case 2
    then show ?thesis using False by (metis option.exhaust)
  qed
qed

lemma split_steps: "(split_step c)\<^sup>*\<^sup>* x y \<Longrightarrow> split_reach c x \<Longrightarrow> split_reach c y"
  by (induction rule: rtranclp_induct) (auto intro: reachable_step)

subsection \<open>Properties\<close>

text \<open>C5. The splitter test runs into one of three ends, for any number of jobs and any number of workers but 0, as long as the jobs
  fit the queue, and in every interleaving. From every state it can reach, with any unnotified wake-ups before, the rest of the run is
  finite. At its end the test has left the scope of the scheduler after every job had completed once, and the destructor of
  the scheduler has returned in the main thread, or a worker runs it and it has not returned; or the main thread sleeps in
  \<^verbatim>\<open>WaitAllJobDone\<close> although every job has returned, and the counter is the number of jobs whose splitter threw.\<close>

theorem SplitterTest_ends:
  assumes "split_reach c x" and "sc_workers c \<noteq> 0" "split_jobs c \<le> unat (sc_pending c)"
  shows "(\<nexists>f. f 0 = x \<and> (\<forall>n. split_step c (f n) (f (Suc n)))) \<and>
    (\<forall>y. (split_step c)\<^sup>*\<^sup>* x y \<and> (\<nexists>z. split_step c y z) \<longrightarrow>
       st_main y = M_Exit \<and> st_completed y = mset [0..<split_jobs c] \<and>
         (st_destructor y = Some None \<and> s_life (st_session y) = Ended \<or>
          (\<exists>w. st_destructor y = Some (Some w)) \<and> s_life (st_session y) \<noteq> Ended) \<or>
       st_main y = M_Wait \<and> split_waiter y = Wt_Sleeping \<and> s_life (st_session y) = Working \<and>
         st_returned y = mset [0..<split_jobs c] \<and>
         pending_job_count (st_sched y) = of_nat (length (filter (sc_throws c) [0..<split_jobs c])))"
proof (intro conjI notI allI impI)
  assume "\<exists>f. f 0 = x \<and> (\<forall>n. split_step c (f n) (f (Suc n)))"
  then obtain f where f: "f 0 = x" "\<forall>n. split_step c (f n) (f (Suc n))" by blast
  have "\<not> (\<forall>n. split_step c (f n) (f (Suc n)))"
  proof (rule rank_ends [where P = "split_reach c" and rank = "split_rank c" and r = rank_less])
    show "split_reach c (f 0)" using f(1) assms(1) by simp
    show "split_reach c t \<and> (split_rank c t, split_rank c s) \<in> rank_less" if "split_reach c s" "split_step c s t" for s t
      using reachable_step [OF that(1)] split_rank_decreases [OF that(2,1) split_always [OF that(1) assms(3)] assms(3)] that(2) by blast
  qed auto
  with f(2) show False by blast
next
  fix y assume "(split_step c)\<^sup>*\<^sup>* x y \<and> (\<nexists>z. split_step c y z)"
  then have reach: "split_reach c y" and stuck: "\<nexists>z. split_step c y z" using split_steps assms(1) by blast+
  note inv = split_always [OF reach assms(3)]
  show "st_main y = M_Exit \<and> st_completed y = mset [0..<split_jobs c] \<and>
         (st_destructor y = Some None \<and> s_life (st_session y) = Ended \<or>
          (\<exists>w. st_destructor y = Some (Some w)) \<and> s_life (st_session y) \<noteq> Ended) \<or>
       st_main y = M_Wait \<and> split_waiter y = Wt_Sleeping \<and> s_life (st_session y) = Working \<and>
         st_returned y = mset [0..<split_jobs c] \<and>
         pending_job_count (st_sched y) = of_nat (length (filter (sc_throws c) [0..<split_jobs c]))"
    using split_stuck [OF inv reach assms(2,3) stuck] exit_completed [OF inv reach _ jobs_small [OF assms(3)]]
    unfolding left_waiting_def by blast
qed

text \<open>C6. As long as the jobs fit the queue, no weak or null pointer is dereferenced, \<open>Add\<close> never throws, and no job completes twice.
  Every job whose splitter does not throw has, once it returned, split its own book into its \<^verbatim>\<open>output_paths_\<close>, and
  \<^verbatim>\<open>WaitAllJobDone\<close> returns only when the counter is 0 and every job has completed, hence none threw.\<close>

theorem SplitterTest_waits:
  assumes "split_reach c x" "split_jobs c \<le> unat (sc_pending c)"
  shows "\<not> st_crashed x \<and> (\<nexists>e. st_main x = M_Threw e) \<and> (\<forall>r. count (st_completed x) r \<le> 1) \<and>
    (\<forall>r \<in># st_returned x. sc_throws c r \<or> r \<in># st_completed x) \<and>
    (\<forall>r \<in># st_completed x. \<not> sc_throws c r \<and> r < split_jobs c \<and>
       output_paths (st_jobs x r) = snd (EpubSectionSplitter_Split (sc_api c) (input_epub_path c r) [])) \<and>
    (st_main x = M_Exit \<longrightarrow> pending_job_count (st_sched x) = 0 \<and> st_completed x = mset [0..<split_jobs c])"
proof (intro conjI ballI allI impI)
  note inv = split_always [OF assms] and small = jobs_small [OF assms(2)]
  note old = split_invD [OF inv]
  show "\<not> st_crashed x" using old(6) by (simp add: owner_ok_def)
  show "\<nexists>e. st_main x = M_Threw e" using old(1) by (auto simp: main_fit_def)
  show "count (st_completed x) r \<le> 1" for r using old(4) by (simp add: done_ok_def)
  show "sc_throws c r \<or> r \<in># st_completed x" if "r \<in># st_returned x" for r
    using that old(4) by (auto simp: done_ok_def reached_def)
  fix r assume r: "r \<in># st_completed x"
  have "reached c (split_runs x) (st_pc x) (st_returned x) completed_pc r" using r old(4) by (simp add: done_ok_def)
  then have after: "reached c (split_runs x) (st_pc x) (st_returned x) (\<lambda>p. p \<noteq> S_Split) r" unfolding reached_def by auto
  show "\<not> sc_throws c r" using after split_solo(1) [OF assms(1) inv] pcs_not_throws [OF old(2)] unfolding reached_def by blast
  have "r \<in># mset [0..<length (h_added (s_pool (st_session x)))]" using completed_numbers [OF assms(1) inv] r by (meson mset_subset_eqD)
  then have "r < created c (st_main x)" "r < split_jobs c" using fit_created [OF old(1)] by simp_all
  then show "r < split_jobs c" "output_paths (st_jobs x r) = snd (EpubSectionSplitter_Split (sc_api c) (input_epub_path c r) [])"
    using old(3) after by (simp_all add: jobs_ok_def job_split_def)
next
  note inv = split_always [OF assms] and small = jobs_small [OF assms(2)]
  assume exit: "st_main x = M_Exit"
  show "pending_job_count (st_sched x) = 0" using counter_okD(6,7) [OF split_invD(5) [OF inv]] exit by simp
  show "st_completed x = mset [0..<split_jobs c]" using exit_completed [OF inv assms(1) exit small] .
qed

text \<open>Two ways to hang. Once every job has completed, a main thread that sleeps in \<^verbatim>\<open>WaitAllJobDone\<close> is not notified again;
  and a worker that runs the destructor keeps doing so.\<close>

lemma asleep_step:
  assumes "split_step c x y" "split_inv c x" "split_reach c x" "split_jobs c < 2 ^ 64"
    and "st_main x = M_Wait" "split_waiter x = Wt_Sleeping" "pending_job_count (st_sched x) = 0"
  shows "st_main y = M_Wait \<and> split_waiter y = Wt_Sleeping \<and> pending_job_count (st_sched y) = 0"
  using assms(1)
proof cases
  case (split_complete w r i)
  note solo = split_solo [OF assms(3,2) split_complete(3)] and old = split_invD [OF assms(2)]
  have "r \<in># st_completed x" using all_completed [OF assms(3,2) _ assms(7,4)] assms(5) solo(3) by simp
  then have "completed_pc (st_pc x w)" using old(4) reached_solo [OF solo(1), of c "st_pc x" completed_pc] by (simp add: done_ok_def)
  with split_complete(4) show ?thesis by simp
qed (use assms(5-7) in \<open>auto simp: Run_split_def Run_lock_def Run_release_def Let_def split: option.split\<close>)

lemma destroying_step:
  assumes "split_step c x y \<or> split_wakes c x y" "split_inv c x" "split_reach c x" "st_destructor x = Some (Some w)"
  shows "st_destructor y = Some (Some w)"
proof -
  note exit = worker_destroys(2) [OF assms(2-4)]
  have "\<not> holds (st_pc x v)" for v
    using split_invD(6) [OF assms(2)] alive_cases [OF split_invD(2) [OF assms(2)]] assms(4) by (auto simp: owner_ok_def)
  then have none: "st_pc x v \<noteq> S_Done i" for v i by (metis holds.simps(2))
  from assms(1) show ?thesis
  proof
    assume "split_step c x y"
    then show ?thesis
    proof cases
      case split_exit
      with exit show ?thesis by simp
    next
      case (split_release v i)
      with none show ?thesis by blast
    qed (use assms(4) in \<open>simp_all add: SplitterTest_job_def SplitterTest_count_def Run_split_def Run_lock_def Run_complete_def Let_def split: option.split\<close>)
  next
    assume "split_wakes c x y"
    then show ?thesis by cases (use assms(4) in simp_all)
  qed
qed

text \<open>The two ways to hang: from there on, nothing but an unnotified wake-up ends the first, and nothing at all the second.\<close>

lemma hangs_for_ever:
  assumes "split_reach c x" "split_jobs c \<le> unat (sc_pending c)"
  shows "(st_main x = M_Wait \<and> split_waiter x = Wt_Sleeping \<and> pending_job_count (st_sched x) = 0 \<longrightarrow>
      {y. (split_step c)\<^sup>*\<^sup>* x y} \<subseteq> {y. st_main y = M_Wait \<and> split_waiter y = Wt_Sleeping}) \<and>
    (st_destructor x = Some (Some w) \<longrightarrow>
      {y. (\<lambda>x y. split_step c x y \<or> split_wakes c x y)\<^sup>*\<^sup>* x y} \<subseteq> {y. st_destructor y = Some (Some w) \<and> s_life (st_session y) \<noteq> Ended})"
proof (intro conjI impI subsetI CollectI; elim CollectE)
  fix y assume "(split_step c)\<^sup>*\<^sup>* x y" "st_main x = M_Wait \<and> split_waiter x = Wt_Sleeping \<and> pending_job_count (st_sched x) = 0"
  then have "split_reach c y \<and> st_main y = M_Wait \<and> split_waiter y = Wt_Sleeping \<and> pending_job_count (st_sched y) = 0"
  proof (induction rule: rtranclp_induct)
    case (step y z)
    then show ?case using asleep_step [OF step(2) split_always [OF _ assms(2)] _ jobs_small [OF assms(2)]]
      by (auto intro: reachable_step)
  qed (use assms(1) in simp)
  then show "st_main y = M_Wait" "split_waiter y = Wt_Sleeping" by simp_all
next
  fix y assume "(\<lambda>x y. split_step c x y \<or> split_wakes c x y)\<^sup>*\<^sup>* x y" "st_destructor x = Some (Some w)"
  then have "split_reach c y \<and> st_destructor y = Some (Some w)"
  proof (induction rule: rtranclp_induct)
    case (step y z)
    then show ?case using destroying_step [OF step(2) split_always [OF _ assms(2)]] by (blast intro: reachable_step)
  qed (use assms(1) in simp)
  then show "st_destructor y = Some (Some w)" "s_life (st_session y) \<noteq> Ended"
    using worker_destroys(1) split_always assms(2) by blast+
qed

subsection \<open>Runs\<close>

text \<open>One worker, one job with two sections.\<close>

definition split_ex :: "unit split_cfg" where
  "split_ex = \<lparr>sc_workers = 1, sc_pending = 1024, sc_prefixes = ''a'', sc_api = toy_epub, sc_throws = (\<lambda>_. False),
     sc_ids = (\<lambda>w. w + 100), sc_main = 0\<rparr>"

lemma split_ex_simps [simp]:
  "split_pool split_ex = one_cfg 1024" "split_jobs split_ex = 1" "sc_pending split_ex = 1024" "sc_workers split_ex = 1"
  "sc_throws split_ex = (\<lambda>_. False)" "sc_api split_ex = toy_epub" "sc_ids split_ex = (\<lambda>w. w + 100)" "sc_main split_ex = 0"
  by (simp_all add: split_ex_def)

definition split_at ::
  "pool \<Rightarrow> session_life \<Rightarrow> split_main \<Rightarrow> nat \<Rightarrow> nat \<Rightarrow> nat \<Rightarrow> wait_pc \<Rightarrow> SplitterJob \<Rightarrow> split_pc \<Rightarrow> nat option option \<Rightarrow>
   runnable_ref multiset \<Rightarrow> split_test" where
  "split_at p l m a n d wt job pc des fin =
     \<lparr>st_session = \<lparr>s_pool = p, s_life = l\<rparr>, st_jobs = (\<lambda>_. ObservableSplitterJob_new)(0 := job),
      st_sched = \<lparr>pending_job_count = of_nat n - of_nat d, adders = [], waiters = [wt], jobs_added = a,
        jobs_counted = n, jobs_done = d, jobs_lost = 0\<rparr>,
      st_main = m, st_pc = (\<lambda>_. S_Split)(0 := pc), st_destructor = des, st_crashed = False, st_completed = fin, st_returned = {#}\<rparr>"

lemma split_at_simps [simp]:
  "st_session (split_at p l m a n d wt job pc des fin) = \<lparr>s_pool = p, s_life = l\<rparr>"
  "st_main (split_at p l m a n d wt job pc des fin) = m" "st_jobs (split_at p l m a n d wt job pc des fin) 0 = job"
  "st_pc (split_at p l m a n d wt job pc des fin) 0 = pc" "st_destructor (split_at p l m a n d wt job pc des fin) = des"
  "\<not> st_crashed (split_at p l m a n d wt job pc des fin)" "st_completed (split_at p l m a n d wt job pc des fin) = fin"
  "waiters (st_sched (split_at p l m a n d wt job pc des fin)) = [wt]"
  "pending_job_count (st_sched (split_at p l m a n d wt job pc des fin)) = of_nat n - of_nat d"
  "st_returned (split_at p l m a n d wt job pc des fin) = {#}"
  "(split_at p l m a n d wt job pc des fin)\<lparr>st_session := \<lparr>s_pool = p', s_life = l'\<rparr>\<rparr> = split_at p' l' m a n d wt job pc des fin"
  "(split_at p l m a n d wt job pc des fin)\<lparr>st_main := m'\<rparr> = split_at p l m' a n d wt job pc des fin"
  "(split_at p l m a n d wt job pc des fin)\<lparr>st_destructor := des'\<rparr> = split_at p l m a n d wt job pc des' fin"
  "(split_at p l m a n d wt job pc des fin)\<lparr>st_sched := (st_sched (split_at p l m a n d wt job pc des fin))\<lparr>waiters := [wt']\<rparr>\<rparr> =
    split_at p l m a n d wt' job pc des fin"
  by (simp_all add: split_at_def)

lemma split_at_alive: "length (ws p) = 1 \<Longrightarrow> split_alive (split_at p l m a n d wt job pc des fin) 0 \<longleftrightarrow> m \<noteq> M_Exit \<or> holds pc"
  by (simp add: split_alive_def)

definition split_busy :: pool where
  "split_busy = one_pool SimpleThreadFactory_default 1024 [] (W_Run (Some (plain_task 0 EXECUTING))) (C_Ret None)
     [plain_task 0 WAITING] [plain_task 0 WAITING]"

lemma split_busy_runs: "runs_task 0 0 split_busy" "length (ws split_busy) = 1"
  by (simp_all add: split_busy_def runs_task_def ex_pool_def plain_task_def)

lemma split_go: "split_reach c x \<Longrightarrow> split_step c x y \<Longrightarrow> split_reach c y"
  by (blast intro: reachable_step)

lemma split_at_worker:
  assumes "split_reach c (split_at p l m a n d wt job pc des fin)" "worker_step p p'" "\<forall>q \<in> set (ws p). \<forall>t. q \<noteq> W_Run t \<and> q \<noteq> W_Wait"
  shows "split_reach c (split_at p' l m a n d wt job pc des fin)"
proof -
  have "\<not> job_ends p p'" "work p p'" using assms(2,3) by (auto simp: job_ends_def work_def wakes_up_def)
  then show ?thesis
    using split_go [OF assms(1) split_worker [of "split_at p l m a n d wt job pc des fin" "\<lparr>s_pool = p, s_life = l\<rparr>" p']] by simp
qed

lemma split_run_working:
  "split_reach split_ex (split_at (one_pool SimpleThreadFactory_default 1024 [] W_Loop (C_Ret None) [] []) Working
     (M_Job 0) 0 0 0 Wt_Idle ObservableSplitterJob_new S_Split None {#})"
proof -
  let ?x = "\<lambda>s. split_at (s_pool s) (s_life s) (M_Job 0) 0 0 0 Wt_Idle ObservableSplitterJob_new S_Split None {#}"
  let ?Q = "\<lambda>s. split_reach split_ex (?x s)"
  have "?Q (one_session (one_pool SimpleThreadFactory_default 1024 [] W_Loop (C_Ret None) [] []) Working)"
  proof (rule one_run_working)
    show "?Q (one_session (pool_init 1) Fresh)"
      by (rule reachable_init) (simp add: split_start_def session_start_def split_at_def SplitterJobScheduler_new_def fun_eq_iff)
    show "?Q t" if "?Q s" "control_call (one_cfg 1024) SimpleThreadFactory_default s t" "s_life s \<noteq> Working" for s t
      using split_go [OF that(1) split_call [of "?x s" split_ex t]] that(2,3) by (cases s; cases t) simp
    show "?Q (s\<lparr>s_pool := p\<rparr>)" if "?Q s" "worker_step (s_pool s) p" "\<forall>q \<in> set (ws (s_pool s)). q \<noteq> W_Wait \<and> (\<forall>t. q \<noteq> W_Run t)" for s p
      using split_at_worker [OF that(1,2)] that(3) by simp
  qed
  then show ?thesis by simp
qed

lemma split_at_eqI:
  "st_session x = \<lparr>s_pool = p, s_life = l\<rparr> \<Longrightarrow> st_main x = m \<Longrightarrow> st_destructor x = des \<Longrightarrow> \<not> st_crashed x \<Longrightarrow> st_completed x = fin \<Longrightarrow>
   st_returned x = {#} \<Longrightarrow> st_jobs x = (\<lambda>_. ObservableSplitterJob_new)(0 := job) \<Longrightarrow> st_pc x = (\<lambda>_. S_Split)(0 := pc) \<Longrightarrow>
   st_sched x = \<lparr>pending_job_count = of_nat n - of_nat d, adders = [], waiters = [wt], jobs_added = a,
        jobs_counted = n, jobs_done = d, jobs_lost = 0\<rparr> \<Longrightarrow> x = split_at p l m a n d wt job pc des fin"
  by (simp add: split_at_def)

text \<open>The main thread has added its job and is about to test the counter; the worker has split the book and holds the scheduler.\<close>

lemma split_run_counted:
  "split_reach split_ex (split_at split_busy Working (M_Job 1) 1 1 0 Wt_Idle (job_new split_ex 0) S_Split None {#})"
proof -
  let ?p = "\<lambda>ts added. one_pool SimpleThreadFactory_default 1024 ts W_Loop (C_Ret None) added []"
  let ?t = "plain_task 0 WAITING"
  let ?x = "split_at (?p [] []) Working (M_Job 0) 0 0 0 Wt_Idle ObservableSplitterJob_new S_Split None {#}"
  let ?y = "split_at (?p [] []) Working (M_Adding 0) 0 0 0 Wt_Idle (job_new split_ex 0) S_Split None {#}"
  let ?z = "split_at (?p [?t] [?t]) Working (M_Count 0) 1 0 0 Wt_Idle (job_new split_ex 0) S_Split None {#}"
  have "SplitterTest_job split_ex 0 ?x = ?y"
    by (rule split_at_eqI) (simp_all add: SplitterTest_job_def RegisterObserver_def SetBookPath_def CreateSplitterJob_def
        CreateJob_def SetSplitterStrategy_def ObservableSplitterJob_new_def job_new_def, simp_all add: split_at_def ObservableSplitterJob_new_def)
  then have y: "split_reach split_ex ?y" using split_go [OF split_run_working split_job [of ?x 0 split_ex]] by simp
  have "add_call (one_cfg 1024) 0 0 0 Add_done (?p [] []) (?p [?t] [?t])" using one_add [where added = "[]"] by simp
  then have "split_step split_ex ?y (?y\<lparr>st_session := \<lparr>s_pool = ?p [] [], s_life = Working\<rparr>\<lparr>s_pool := ?p [?t] [?t]\<rparr>, st_main := SplitterTest_added 0 Add_done,
      st_sched := (st_sched ?y)\<lparr>jobs_added := jobs_added (st_sched ?y) + (if Add_done = Add_done then 1 else 0)\<rparr>\<rparr>)"
    by (intro split_step.split_add) (simp_all, simp add: ex_pool_def)
  moreover have "\<dots> = ?z" by (rule split_at_eqI) (simp_all add: SplitterTest_added_def, simp_all add: split_at_def)
  ultimately have z: "split_reach split_ex ?z" using split_go [OF y] by simp
  have "SplitterTest_count 0 ?z = split_at (?p [?t] [?t]) Working (M_Job 1) 1 1 0 Wt_Idle (job_new split_ex 0) S_Split None {#}"
    by (rule split_at_eqI) (simp_all add: SplitterTest_count_def AddSplitterJob_count_def, simp_all add: split_at_def)
  with split_go [OF z split_count [of ?z 0 split_ex]]
  have "split_reach split_ex (split_at (?p [?t] [?t]) Working (M_Job 1) 1 1 0 Wt_Idle (job_new split_ex 0) S_Split None {#})" by simp
  from split_at_worker [OF this one_take [where added = "[?t]" and removed = "[]"]] show ?thesis
    by (simp add: split_busy_def) (simp add: ex_pool_def)
qed

lemma split_at_wait:
  assumes "split_reach c (split_at p l M_Wait a n d wt job pc des fin)" "wt \<noteq> Wt_Sleeping"
    and "waiter_step (st_sched (split_at p l M_Wait a n d wt job pc des fin))
      ((st_sched (split_at p l M_Wait a n d wt job pc des fin))\<lparr>waiters := [wt']\<rparr>)"
  shows "split_reach c (split_at p l M_Wait a n d wt' job pc des fin)"
  using split_go [OF assms(1) split_waits [OF _ _ assms(3)]] assms(2) by simp

lemma split_run_held:
  "split_reach split_ex (split_at split_busy Working M_Wait 1 1 0 Wt_Test (job_split split_ex 0) (S_Held 0) None {#})"
proof -
  let ?x = "\<lambda>m wt job pc. split_at split_busy Working m 1 1 0 wt job pc None {#}"
  have "split_reach split_ex (?x M_Wait Wt_Idle (job_new split_ex 0) S_Split)"
    using split_go [OF split_run_counted split_wait] by simp
  then have start: "split_reach split_ex (?x M_Wait Wt_Test (job_new split_ex 0) S_Split)"
    by (rule split_at_wait) (use wait_call [of 0 "st_sched (?x M_Wait Wt_Idle (job_new split_ex 0) S_Split)"] in simp_all)
  have "Run_split split_ex 0 0 (?x M_Wait Wt_Test (job_new split_ex 0) S_Split) = ?x M_Wait Wt_Test (job_split split_ex 0) (S_At 0)"
    by (rule split_at_eqI) (simp_all add: Run_split_def job_new_def job_split_def, simp_all add: split_at_def)
  with split_go [OF start split_split [of _ 0 0]]
  have reach: "split_reach split_ex (?x M_Wait Wt_Test (job_split split_ex 0) (S_At 0))" using split_busy_runs by simp
  have lock: "Run_lock 0 0 0 (?x M_Wait Wt_Test (job_split split_ex 0) (S_At 0)) = ?x M_Wait Wt_Test (job_split split_ex 0) (S_Held 0)"
    by (rule split_at_eqI) (simp_all add: Run_lock_def weak_lock_def split_at_alive split_busy_runs job_new_def job_split_def, simp_all add: split_at_def)
  have "split_step split_ex (?x M_Wait Wt_Test (job_split split_ex 0) (S_At 0)) (Run_lock 0 0 0 (?x M_Wait Wt_Test (job_split split_ex 0) (S_At 0)))"
    by (rule split_lock) (simp_all add: split_busy_runs not_destroying_def job_split_def job_new_def)
  from split_go [OF reach this] show ?thesis unfolding lock .
qed

lemma split_at_complete:
  assumes "split_reach split_ex (split_at split_busy Working M_Wait 1 1 0 wt job (S_Held 0) None {#})" "wt \<noteq> Wt_Sleeping"
  shows "split_reach split_ex (split_at split_busy Working M_Wait 1 1 1 wt job (S_Done 0) None {#0#})"
proof -
  let ?x = "split_at split_busy Working M_Wait 1 1 0 wt job (S_Held 0) None {#}"
  have "Run_complete 0 0 0 ?x = split_at split_busy Working M_Wait 1 1 1 wt job (S_Done 0) None {#0#}"
    by (rule split_at_eqI)
      (simp_all add: Run_complete_def OnCompletedJob_def, simp_all add: split_at_def, cases wt, simp_all add: assms(2))
  with split_go [OF assms(1) split_complete [of ?x 0 0 0]] split_busy_runs show ?thesis by simp
qed

text \<open>The main thread finds the counter at 1, the job ends, and then the main thread goes to sleep.\<close>

lemma split_run_asleep:
  "split_reach split_ex (split_at split_busy Working M_Wait 1 1 1 Wt_Sleeping (job_split split_ex 0) (S_Done 0) None {#0#})"
proof -
  let ?x = "split_at split_busy Working M_Wait 1 1 0 Wt_Test (job_split split_ex 0) (S_Held 0) None {#}"
  let ?y = "split_at split_busy Working M_Wait 1 1 1 Wt_Wait (job_split split_ex 0) (S_Done 0) None {#0#}"
  have "split_reach split_ex (split_at split_busy Working M_Wait 1 1 0 Wt_Wait (job_split split_ex 0) (S_Held 0) None {#})"
    by (rule split_at_wait [OF split_run_held]) (use wait_test [of 0 "st_sched ?x"] in simp_all)
  then have "split_reach split_ex ?y" by (rule split_at_complete) simp
  then show ?thesis by (rule split_at_wait) (use wait_block [of 0 "st_sched ?y"] in simp_all)
qed

text \<open>The job ends first, and the main thread leaves while the worker still holds the scheduler.\<close>

lemma split_run_exit:
  "split_reach split_ex (split_at split_busy Working M_Exit 1 1 1 Wt_Returned (job_split split_ex 0) (S_Done 0) None {#0#})"
proof -
  let ?x = "\<lambda>m wt. split_at split_busy Working m 1 1 1 wt (job_split split_ex 0) (S_Done 0) None {#0#}"
  have "split_reach split_ex (?x M_Wait Wt_Test)" by (rule split_at_complete [OF split_run_held]) simp
  then have "split_reach split_ex (?x M_Wait Wt_Returned)"
    by (rule split_at_wait) (use wait_test [of 0 "st_sched (?x M_Wait Wt_Test)"] in simp_all)
  from split_go [OF this split_exit] show ?thesis by (simp add: release_def split_at_alive split_busy_runs)
qed

lemma split_run_destroying:
  "split_reach split_ex (split_at split_busy Working M_Exit 1 1 1 Wt_Returned (job_split split_ex 0) (S_At 1) (Some (Some 0)) {#0#})"
proof -
  let ?x = "split_at split_busy Working M_Exit 1 1 1 Wt_Returned (job_split split_ex 0) (S_Done 0) None {#0#}"
  let ?y = "\<lambda>des. split_at split_busy Working M_Exit 1 1 1 Wt_Returned (job_split split_ex 0) (S_At 1) des {#0#}"
  have "?x\<lparr>st_pc := (st_pc ?x)(0 := S_At (Suc 0))\<rparr> = ?y None"
    by (rule split_at_eqI) (simp_all, simp_all add: split_at_def)
  then have "Run_release 0 0 ?x = ?y (Some (Some 0))"
    by (simp add: Run_release_def release_def split_at_alive split_busy_runs)
  with split_go [OF split_run_exit split_release [of ?x 0 0]] show ?thesis by simp
qed

text \<open>The test itself: 26 jobs, and the default 4 workers and 1024 places.\<close>

definition splitter_basic :: "unit split_cfg" where
  "splitter_basic = \<lparr>sc_workers = 4, sc_pending = 1024, sc_prefixes = ''abcdefghijklmnopqrstuvwxyz'', sc_api = toy_epub,
     sc_throws = (\<lambda>_. False), sc_ids = (\<lambda>w. w + 100), sc_main = 0\<rparr>"

lemma splitter_basic_start:
  "split_start splitter_basic (split_at (pool_init 1) Fresh (M_Job 0) 0 0 0 Wt_Idle ObservableSplitterJob_new S_Split None {#})"
  by (simp add: split_start_def session_start_def split_at_def SplitterJobScheduler_new_def fun_eq_iff)

theorem SplitterTest_ends_witness:
  "let x = split_at (pool_init 1) Fresh (M_Job 0) 0 0 0 Wt_Idle ObservableSplitterJob_new S_Split None {#}
   in split_start splitter_basic x \<and>
      {y. (split_step splitter_basic)\<^sup>*\<^sup>* x y \<and> (\<nexists>z. split_step splitter_basic y z)} \<subseteq>
        {y. st_main y = M_Exit \<and> st_completed y = mset [0..<26]} \<union> {y. st_main y = M_Wait \<and> st_returned y = mset [0..<26]}"
proof -
  have "split_jobs splitter_basic = 26" "unat (sc_pending splitter_basic) = 1024" "sc_workers splitter_basic \<noteq> 0"
    by (simp_all add: splitter_basic_def)
  with SplitterTest_ends [OF reachable_init [where init = "split_start splitter_basic", OF splitter_basic_start]] splitter_basic_start show ?thesis
    by (auto simp: Let_def simp del: upt_rec_numeral)
qed

theorem SplitterTest_waits_witness:
  "let x = split_at split_busy Working M_Exit 1 1 1 Wt_Returned (job_split split_ex 0) (S_Done 0) None {#0#}
   in split_reach split_ex x \<and> pending_job_count (st_sched x) = 0 \<and> st_completed x = {#0#} \<and>
      output_paths (st_jobs x 0) = [(''./test_data/a.epub_0_.epub'', OK), (''./test_data/a.epub_1_.epub'', ERROR)]"
proof -
  have "snd (EpubSectionSplitter_Split toy_epub (input_epub_path split_ex 0) []) =
      [(''./test_data/a.epub_0_.epub'', OK), (''./test_data/a.epub_1_.epub'', ERROR)]" by code_simp
  with SplitterTest_waits [OF split_run_exit] split_run_exit show ?thesis by (simp add: Let_def)
qed

text \<open>C38. \<^verbatim>\<open>WaitAllJobDone\<close> can miss the last \<^verbatim>\<open>NotifyAll\<close>: a main thread that sleeps there when the counter is 0 sleeps for ever,
  unless it wakes up unnotified. And \<^verbatim>\<open>~SplitterJobScheduler\<close> never returns when a worker gives up the last reference: it
  runs \<open>Stop\<close>, which waits for the worker itself. Both states are reached, already with one worker and one job.\<close>

theorem SplitterTest_hangs:
  assumes "split_reach c x" "split_jobs c \<le> unat (sc_pending c)"
  shows "(st_main x = M_Wait \<and> split_waiter x = Wt_Sleeping \<and> pending_job_count (st_sched x) = 0 \<longrightarrow>
      {y. (split_step c)\<^sup>*\<^sup>* x y} \<subseteq> {y. st_main y = M_Wait \<and> split_waiter y = Wt_Sleeping}) \<and>
    (st_destructor x = Some (Some w) \<longrightarrow>
      {y. (\<lambda>x y. split_step c x y \<or> split_wakes c x y)\<^sup>*\<^sup>* x y} \<subseteq> {y. st_destructor y = Some (Some w) \<and> s_life (st_session y) \<noteq> Ended}) \<and>
    (\<exists>y. split_reach split_ex y \<and> st_main y = M_Wait \<and> split_waiter y = Wt_Sleeping \<and> pending_job_count (st_sched y) = 0) \<and>
    (\<exists>y. split_reach split_ex y \<and> st_destructor y = Some (Some 0))"
proof -
  have "\<exists>y. split_reach split_ex y \<and> st_main y = M_Wait \<and> split_waiter y = Wt_Sleeping \<and> pending_job_count (st_sched y) = 0"
    by (rule exI, rule conjI, rule split_run_asleep) simp
  moreover have "\<exists>y. split_reach split_ex y \<and> st_destructor y = Some (Some 0)"
    by (rule exI, rule conjI, rule split_run_destroying) simp
  ultimately show ?thesis using hangs_for_ever [OF assms] by blast
qed

theorem SplitterTest_hangs_witness:
  "let x = split_at split_busy Working M_Wait 1 1 1 Wt_Sleeping (job_split split_ex 0) (S_Done 0) None {#0#};
       z = split_at split_busy Working M_Exit 1 1 1 Wt_Returned (job_split split_ex 0) (S_At 1) (Some (Some 0)) {#0#}
   in split_reach split_ex x \<and> split_reach split_ex z \<and>
      {y. (split_step split_ex)\<^sup>*\<^sup>* x y} \<subseteq> {y. st_main y = M_Wait \<and> split_waiter y = Wt_Sleeping} \<and>
      {y. (\<lambda>x y. split_step split_ex x y \<or> split_wakes split_ex x y)\<^sup>*\<^sup>* z y} \<subseteq> {y. st_destructor y = Some (Some 0)}"
  using SplitterTest_hangs [OF split_run_asleep] SplitterTest_hangs [OF split_run_destroying, of 0] split_run_asleep split_run_destroying
  by (auto simp: Let_def)

end
