(* ===== verification/Factory_Test.thy ===== *)
theory Factory_Test
  imports Thread_Factory Monitor Test_Measures
begin

text \<open>
  Two tests of \<^verbatim>\<open>src/threads/simple_thread_factory_unittest.cc\<close>: \<^verbatim>\<open>HelloWorldTaskTest\<close>, which makes, starts and joins one
  thread, and \<^verbatim>\<open>MonitorTimeoutTest\<close>, a loop of timed waits on a monitor that no other thread uses.
\<close>

subsection \<open>HelloWorldTaskTest\<close>

text \<open>The factory is a parameter; the test uses the default one.\<close>

record hello_cfg =
  hc_factory :: SimpleThreadFactory
  hc_priority_min :: "int \<Rightarrow> int"
  hc_priority_max :: "int \<Rightarrow> int"
  hc_create :: "pthread_attr \<Rightarrow> int \<times> pthread_t"
  hc_join :: "pthread_t \<Rightarrow> int"

datatype hello_main = H_Start | H_Join | H_Returned | H_Failed fault

record hello =
  hw_life :: life
  hw_main :: hello_main

definition hello_start :: "hello_cfg \<Rightarrow> hello \<Rightarrow> bool" where
  "hello_start c h \<longleftrightarrow> hw_main h = H_Start \<and>
     (\<exists>addr r call th. NewThread (hc_priority_min c) (hc_priority_max c) (hc_factory c) addr r = Inr (th, call) \<and>
        hw_life h = \<lparr>l_th = th, l_created = 0, l_begun = 0, l_runs = 0, l_joined = 0\<rparr>)"

text \<open>\<^verbatim>\<open>pthread_join\<close> returns 0 only after the thread has ended.\<close>

definition thread_over :: "life \<Rightarrow> bool" where
  "thread_over l \<longleftrightarrow> l_begun l = l_created l \<and> state (l_th l) \<noteq> T_STARTED"

inductive hello_step :: "hello_cfg \<Rightarrow> hello \<Rightarrow> hello \<Rightarrow> bool" for c where
  hello_starts:
    "\<lbrakk>hw_main h = H_Start; hw_life h = l; SimpleThread_Start (hc_create c) (l_th l) = Inr (t', attr);
      n = (case attr of None \<Rightarrow> 0 | Some a \<Rightarrow> if fst (hc_create c a) = 0 then 1 else 0)\<rbrakk> \<Longrightarrow>
     hello_step c h \<lparr>hw_life = l\<lparr>l_th := t', l_created := l_created l + n\<rparr>, hw_main = H_Join\<rparr>"
| hello_fails:
    "\<lbrakk>hw_main h = H_Start; SimpleThread_Start (hc_create c) (l_th (hw_life h)) = Inl e\<rbrakk> \<Longrightarrow>
     hello_step c h (h\<lparr>hw_main := H_Failed e\<rparr>)"
| hello_joins:
    "\<lbrakk>hw_main h = H_Join; hw_life h = l; SimpleThread_Join (hc_join c) (l_th l) = (t', called);
      n = (if called \<and> hc_join c (pthread (l_th l)) = 0 then 1 else 0); n = 1 \<longrightarrow> thread_over l\<rbrakk> \<Longrightarrow>
     hello_step c h \<lparr>hw_life = l\<lparr>l_th := t', l_joined := l_joined l + n\<rparr>, hw_main = H_Returned\<rparr>"
| hello_begins:
    "\<lbrakk>hw_life h = l; l_begun l < l_created l; ThreadMain_begin (l_th l) = (t', r)\<rbrakk> \<Longrightarrow>
     hello_step c h (h\<lparr>hw_life := l\<lparr>l_th := t', l_begun := l_begun l + 1, l_runs := l_runs l + (if r = None then 0 else 1)\<rparr>\<rparr>)"
| hello_ends:
    "\<lbrakk>hw_life h = l; state (l_th l) = T_STARTED\<rbrakk> \<Longrightarrow>
     hello_step c h (h\<lparr>hw_life := l\<lparr>l_th := ThreadMain_end (l_th l)\<rparr>\<rparr>)"

abbreviation hello_reach :: "hello_cfg \<Rightarrow> hello \<Rightarrow> bool" where
  "hello_reach c \<equiv> reachable (hello_start c) (hello_step c)"

text \<open>The test is a use of a thread object: its steps are steps of \<open>life_step\<close>.\<close>

definition hello_inv :: "hello_cfg \<Rightarrow> hello \<Rightarrow> bool" where
  "hello_inv c h \<longleftrightarrow> (let l = hw_life h; th = l_th l in
     self th \<noteq> None \<and> l_created l \<le> 1 \<and> l_begun l \<le> l_created l \<and> l_runs l = l_begun l \<and>
     (f_detached (hc_factory c) \<longrightarrow> detached th \<and> l_joined l = 0) \<and>
     (if hw_main h \<in> {H_Join, H_Returned}
      then (if l_begun l = 0 then state th = T_STARTING else state th \<in> {T_STARTED, T_STOPPING})
      else state th = T_UNINITIALIZED \<and> l_created l = 0) \<and>
     (hw_main h = H_Returned \<longrightarrow> l_joined l \<le> 1) \<and> (hw_main h \<noteq> H_Returned \<longrightarrow> l_joined l = 0) \<and>
     (l_joined l = 1 \<longrightarrow> thread_over l))"

lemma NewThread_fresh:
  assumes "NewThread pmin pmax f addr r = Inr (th, call)"
  shows "self th = Some addr \<and> state th = T_UNINITIALIZED \<and> detached th = f_detached f \<and> runnable th = r \<and> call = (r, addr)"
  using assms by (auto simp: NewThread_def WeakRef_def SimpleThread_new_def bind_res_eq_Inr)

lemma hello_inv_start: "hello_start c h \<Longrightarrow> hello_inv c h"
  by (auto simp: hello_start_def hello_inv_def Let_def dest!: NewThread_fresh)

lemma hello_inv_step: "hello_step c h h' \<Longrightarrow> hello_inv c h \<Longrightarrow> hello_inv c h'"
proof (induction rule: hello_step.induct)
  case (hello_starts h l t' attr n)
  have "self t' = self (l_th l)"
    using hello_starts(3) by (auto simp: SimpleThread_Start_def bind_res_eq_Inr Let_def case_prod_beta split: if_splits)
  with SimpleThread_StartD [OF hello_starts(3)] hello_starts(1,2,4,5) show ?case
    by (auto simp: hello_inv_def Let_def thread_over_def split: option.splits)
next
  case (hello_fails h e)
  then show ?case by (simp add: hello_inv_def Let_def)
next
  case (hello_joins h l t' called n)
  have "self t' = self (l_th l)" using hello_joins(3) by (auto simp: SimpleThread_Join_def split: if_splits)
  with SimpleThread_JoinD [OF hello_joins(3)] hello_joins(1,2,4-6) show ?case
    by (auto simp: hello_inv_def Let_def thread_over_def split: if_splits)
next
  case (hello_begins h l t' r)
  then show ?case by (auto simp: hello_inv_def Let_def thread_over_def ThreadMain_begin_def split: if_splits)
next
  case (hello_ends h l)
  then show ?case by (auto simp: hello_inv_def Let_def thread_over_def ThreadMain_end_def split: if_splits)
qed

interpretation hello: inductive_invariant "hello_start c" "hello_step c" "hello_inv c"
  by unfold_locales (blast intro: hello_inv_start hello_inv_step)+

text \<open>Every step of the test but the failing one is a step of the life of its thread object.\<close>

lemma hello_life: "hello_step c h h' \<Longrightarrow> life_step\<^sup>=\<^sup>= (hw_life h) (hw_life h')"
proof (induction rule: hello_step.induct)
  case (hello_starts h l t' attr n)
  from life_start [OF hello_starts(3)] hello_starts(2,4) show ?case by simp
next
  case (hello_joins h l t' called n)
  from life_join [OF hello_joins(3)] hello_joins(2,4) show ?case by simp
next
  case (hello_begins h l t' r)
  from life_begin [OF hello_begins(2,3)] hello_begins(1) show ?case by simp
next
  case (hello_ends h l)
  from life_step.life_end [OF hello_ends(2)] hello_ends(1) show ?case by simp
qed simp

lemma hello_returned:
  assumes "hello_reach c h" "hw_main h = H_Returned" "\<nexists>h'. hello_step c h h'"
  shows "thread_over (hw_life h)"
proof -
  have inv: "hello_inv c h" using hello.always [OF assms(1)] .
  obtain t' r where "ThreadMain_begin (l_th (hw_life h)) = (t', r)" by (metis surj_pair)
  with hello_begins [OF refl _ this, of c] assms(3) have "\<not> l_begun (hw_life h) < l_created (hw_life h)" by blast
  then have "l_begun (hw_life h) = l_created (hw_life h)" using inv by (simp add: hello_inv_def Let_def)
  moreover have "state (l_th (hw_life h)) \<noteq> T_STARTED" using hello_ends [OF refl, of h c] assms(3) by blast
  ultimately show ?thesis by (simp add: thread_over_def)
qed

text \<open>\<^verbatim>\<open>Join\<close> waits only for a thread that is not detached. With a detached thread the test never calls \<^verbatim>\<open>pthread_join\<close>; if it
  does and the call succeeds, the task has run when the test returns. In both cases a thread that was created runs the task
  once before it is over.\<close>

theorem HelloWorld_join:
  assumes "hello_reach c h" "hw_main h = H_Returned"
  shows "(f_detached (hc_factory c) \<longrightarrow> l_joined (hw_life h) = 0) \<and>
    (l_joined (hw_life h) = 1 \<longrightarrow> l_runs (hw_life h) = l_created (hw_life h) \<and> state (l_th (hw_life h)) \<noteq> T_STARTED) \<and>
    l_runs (hw_life h) \<le> 1 \<and> ((\<nexists>h'. hello_step c h h') \<longrightarrow> l_runs (hw_life h) = l_created (hw_life h))"
  using hello.always [OF assms(1)] hello_returned [OF assms]
  by (auto simp: hello_inv_def Let_def thread_over_def)

text \<open>The default factory makes detached threads: the test returns although the task has not run.\<close>

definition hello_ex :: hello_cfg where
  "hello_ex = \<lparr>hc_factory = SimpleThreadFactory_default, hc_priority_min = (\<lambda>_. 1), hc_priority_max = (\<lambda>_. 99),
     hc_create = (\<lambda>_. (0, 77)), hc_join = (\<lambda>_. 0)\<rparr>"

theorem HelloWorld_join_witness:
  "let l = \<lparr>l_th = (SimpleThread_new 2 43 1 True 9)\<lparr>self := Some 4, state := T_STARTING, pthread := 77\<rparr>,
     l_created = 1, l_begun = 0, l_runs = 0, l_joined = 0\<rparr>
   in hello_reach hello_ex \<lparr>hw_life = l, hw_main = H_Returned\<rparr> \<and> \<not> thread_over l \<and> l_joined l = 0"
proof -
  let ?t = "(SimpleThread_new 2 43 1 True 9)\<lparr>self := Some 4\<rparr>"
  let ?l = "\<lambda>t n. \<lparr>l_th = t, l_created = n, l_begun = 0, l_runs = 0, l_joined = 0\<rparr>"
  let ?s = "?t\<lparr>state := T_STARTING, pthread := 77\<rparr>"
  have "ToNativePriority (\<lambda>_. 1) (\<lambda>_. 99) ROUND_ROBIN NORMAL = Inr (1 + 14 * priority_value NORMAL)"
    using ToNativePriority_levels [of "\<lambda>_. 1" ROUND_ROBIN "\<lambda>_. 99" 14 NORMAL] by fastforce
  then have "NewThread (\<lambda>_. 1) (\<lambda>_. 99) SimpleThreadFactory_default 4 9 = Inr (?t, (9, 4))"
    by (simp add: NewThread_def SimpleThreadFactory_default_def SimpleThreadFactory_new_def WeakRef_def SCHED_RR_def)
  then have "hello_start hello_ex \<lparr>hw_life = ?l ?t 0, hw_main = H_Start\<rparr>"
    unfolding hello_start_def by (intro conjI exI [of _ 4] exI [of _ 9] exI) (simp_all add: hello_ex_def)
  then have 0: "hello_reach hello_ex \<lparr>hw_life = ?l ?t 0, hw_main = H_Start\<rparr>" by (rule reachable_init)
  have "hello_step hello_ex \<lparr>hw_life = ?l ?t 0, hw_main = H_Start\<rparr> \<lparr>hw_life = ?l ?s 1, hw_main = H_Join\<rparr>"
    using hello_starts [of "\<lparr>hw_life = ?l ?t 0, hw_main = H_Start\<rparr>" "?l ?t 0" hello_ex]
    by (simp add: hello_ex_def SimpleThread_Start_def SimpleThread_new_def mul32_def kMB_def)
  with 0 have 1: "hello_reach hello_ex \<lparr>hw_life = ?l ?s 1, hw_main = H_Join\<rparr>" by (rule reachable_step)
  have "hello_step hello_ex \<lparr>hw_life = ?l ?s 1, hw_main = H_Join\<rparr> \<lparr>hw_life = ?l ?s 1, hw_main = H_Returned\<rparr>"
    using hello_joins [of "\<lparr>hw_life = ?l ?s 1, hw_main = H_Join\<rparr>" "?l ?s 1" hello_ex ?s False 0]
    by (simp add: hello_ex_def SimpleThread_Join_def SimpleThread_new_def)
  with 1 have 2: "hello_reach hello_ex \<lparr>hw_life = ?l ?s 1, hw_main = H_Returned\<rparr>" by (rule reachable_step)
  from HelloWorld_join [OF 2] 2 show ?thesis
    by (simp add: thread_over_def hello_ex_def SimpleThreadFactory_default_def SimpleThreadFactory_new_def)
qed

subsection \<open>MonitorTimeoutTest\<close>

text \<open>The loop, one clock reading per call of \<open>Wait\<close>. \<^verbatim>\<open>TimedOutException\<close> is caught, everything else leaves the test.\<close>

fun MonitorTimeout_loop ::
  "('t, 'm) pthread_mutex_api \<Rightarrow> ('t, 'm, 'c) pthread_cond_api \<Rightarrow> 't \<Rightarrow> int64 \<Rightarrow> clock_reading list \<Rightarrow>
     'c Monitor_Impl \<Rightarrow> 'm mutex_store \<Rightarrow> ('c Monitor_Impl \<times> 'm mutex_store) call" where
  "MonitorTimeout_loop api capi t timeout [] impl store = Returns (impl, store)"
| "MonitorTimeout_loop api capi t timeout (rt # rts) impl store =
     bind_call (Synchronized_new (Mutex_vtable api rt) t impl store) (\<lambda>(g, store1).
     bind_call (Monitor_Wait capi rt t timeout impl store1) (\<lambda>(e, impl2, store2).
     bind_call (call_of_res (Synchronized_delete (Mutex_vtable api rt) t impl2 g store2)) (\<lambda>store3.
       case e of None \<Rightarrow> MonitorTimeout_loop api capi t timeout rts impl2 store3
       | Some (TimedOutException m) \<Rightarrow> MonitorTimeout_loop api capi t timeout rts impl2 store3
       | Some e' \<Rightarrow> Fails (Thrown e'))))"

text \<open>\<open>a\<close> is the address of the mutex of \<^verbatim>\<open>monitor\<close>, \<open>reading i\<close> what the clock says in the \<open>i\<close>-th call of \<open>Wait\<close>.\<close>

definition MonitorTimeoutTest ::
  "('t, 'm) pthread_mutex_api \<Rightarrow> ('t, 'm, 'c) pthread_cond_api \<Rightarrow> 't \<Rightarrow> addr \<Rightarrow> size_t \<Rightarrow> int64 \<Rightarrow>
     clock_reading \<Rightarrow> (nat \<Rightarrow> clock_reading) \<Rightarrow> clock_reading \<Rightarrow> 'm mutex_store \<Rightarrow> (bool \<times> 'm mutex_store) call" where
  "MonitorTimeoutTest api capi t a count timeout start_rt reading end_rt store =
     bind_call (call_of_res (Monitor_new api capi a store)) (\<lambda>(monitor, store1).
     bind_call (call_of_res (CurrentTime start_rt)) (\<lambda>start_time.
     bind_call (MonitorTimeout_loop api capi t timeout (map reading [0..<unat count]) monitor store1) (\<lambda>(monitor', store2).
     bind_call (call_of_res (CurrentTime end_rt)) (\<lambda>end_time.
     bind_call (call_of_res (MonitorTimeoutTest_success count timeout start_time end_time)) (\<lambda>success.
     bind_call (call_of_res (Monitor_delete api capi monitor' store2)) (\<lambda>store3. Returns (success, store3)))))))"

text \<open>Documented behaviour of the library for a mutex and a condition variable that only the thread \<open>t\<close> uses: nothing
  fails, and a wait with a deadline ends, notified or not.\<close>

definition private_monitor ::
  "('t, 'm) pthread_mutex_api \<Rightarrow> ('t, 'm, 'c) pthread_cond_api \<Rightarrow> ('m \<Rightarrow> 't option) \<Rightarrow> 't \<Rightarrow> bool" where
  "private_monitor api capi held_by t \<longleftrightarrow>
     fst (pthread_mutex_init api PTHREAD_MUTEX_DEFAULT) = 0 \<and> held_by (snd (pthread_mutex_init api PTHREAD_MUTEX_DEFAULT)) = None \<and>
     fst (pthread_cond_init capi) = 0 \<and> (\<forall>c. pthread_cond_destroy capi c = 0) \<and>
     (\<forall>m. held_by m = None \<longrightarrow> pthread_mutex_destroy api m = 0 \<and>
        (\<exists>m'. pthread_mutex_lock api t m = Returns (0, m') \<and> held_by m' = Some t)) \<and>
     (\<forall>m. held_by m = Some t \<longrightarrow> held_by (snd (pthread_mutex_unlock api t m)) = None \<and>
        (\<forall>ts c. \<exists>ret c' m'. pthread_cond_timedwait capi t ts c m = Returns (ret, c', m') \<and>
           ret \<in> {0, ETIMEDOUT} \<and> held_by m' = Some t))"

definition free_monitor :: "('m \<Rightarrow> 't option) \<Rightarrow> addr \<Rightarrow> 'm mutex_store \<Rightarrow> 'c Monitor_Impl \<Rightarrow> 'm mutex_store \<Rightarrow> bool" where
  "free_monitor held_by a base impl store \<longleftrightarrow>
     (\<exists>c m. impl = \<lparr>owned_mutex = Some a, mon_mutex = Some a, pthread_cond = Some c, cond_initialized = True\<rparr> \<and>
        held_by m = None \<and> store = base(a \<mapsto> \<lparr>pthread_mutex = m, initialized = True\<rparr>))"

lemma free_monitorI:
  "held_by m = None \<Longrightarrow> free_monitor held_by a base
     \<lparr>owned_mutex = Some a, mon_mutex = Some a, pthread_cond = Some c, cond_initialized = True\<rparr>
     (base(a \<mapsto> \<lparr>pthread_mutex = m, initialized = True\<rparr>))"
  unfolding free_monitor_def by blast

lemma MonitorTimeout_turn:
  assumes "private_monitor api capi held_by t" "free_monitor held_by a base impl store" "timeout \<noteq> 0"
    and "CurrentTime rt = Inr now" "in_int64 (now + timeout)"
  shows "\<exists>impl' store'. free_monitor held_by a base impl' store' \<and>
    MonitorTimeout_loop api capi t timeout (rt # rts) impl store = MonitorTimeout_loop api capi t timeout rts impl' store'"
proof -
  from assms(2) obtain c m where s: "impl = \<lparr>owned_mutex = Some a, mon_mutex = Some a, pthread_cond = Some c, cond_initialized = True\<rparr>"
    "held_by m = None" "store = base(a \<mapsto> \<lparr>pthread_mutex = m, initialized = True\<rparr>)" by (auto simp: free_monitor_def)
  obtain m1 where lock: "pthread_mutex_lock api t m = Returns (0, m1)" "held_by m1 = Some t"
    using assms(1) s(2) unfolding private_monitor_def by blast
  obtain ret c' m2 where wait: "pthread_cond_timedwait capi t (ToTimespec (now + timeout)) c m1 = Returns (ret, c', m2)"
    "ret \<in> {0, ETIMEDOUT}" "held_by m2 = Some t" using assms(1) lock(2) unfolding private_monitor_def by blast
  define m3 where "m3 = snd (pthread_mutex_unlock api t m2)"
  have free: "held_by m3 = None" using assms(1) wait(3) unfolding private_monitor_def m3_def by blast
  let ?impl = "impl\<lparr>pthread_cond := Some c'\<rparr>" and ?store = "base(a \<mapsto> \<lparr>pthread_mutex = m3, initialized = True\<rparr>)"
  have "MonitorTimeout_loop api capi t timeout (rt # rts) impl store = MonitorTimeout_loop api capi t timeout rts ?impl ?store"
    using wait(1,2) lock(1) assms(3-5)
    by (auto simp: s(1,3) Synchronized_new_def Synchronized_delete_def GetMutex_def deref_def Guard_new_def Guard_delete_def
        Mutex_vtable_def Mutex_Lock_def Mutex_Unlock_def Monitor_Wait_def WaitForTimeRelative_def WaitForTime_def cond_call_def
        Mutex_GetUnderlyingImpl_def add64_def checked64_def wait_outcome_def TimedOut_default_def m3_def ETIMEDOUT_def)
  moreover have "free_monitor held_by a base ?impl ?store" using free_monitorI [where held_by = held_by, OF free] by (simp add: s(1))
  ultimately show ?thesis by blast
qed

lemma MonitorTimeout_loop_returns:
  assumes "private_monitor api capi held_by t" "timeout \<noteq> 0"
    and "free_monitor held_by a base impl store" "\<forall>rt \<in> set rts. \<exists>now. CurrentTime rt = Inr now \<and> in_int64 (now + timeout)"
  shows "\<exists>impl' store'. MonitorTimeout_loop api capi t timeout rts impl store = Returns (impl', store') \<and>
    free_monitor held_by a base impl' store'"
  using assms(3,4)
proof (induction rts arbitrary: impl store)
  case (Cons rt rts)
  then obtain now where "CurrentTime rt = Inr now" "in_int64 (now + timeout)" by auto
  from MonitorTimeout_turn [OF assms(1) Cons.prems(1) assms(2) this, of rts] Cons show ?case by (metis list.set_intros(2))
qed (simp add: assms)

text \<open>\<^verbatim>\<open>MonitorTimeoutTest\<close> returns, for any number of waits, each of which may be notified or time out; its result is the verdict
  on the times read before and after the loop, and its monitor is gone. It passes exactly if the waits took at
  least the expected time and less than a fifth more.\<close>

theorem MonitorTimeoutTest_returns:
  assumes "private_monitor api capi held_by t" "store a = None"
    and "\<forall>i < unat count. \<exists>now. CurrentTime (reading i) = Inr now \<and> in_int64 (now + timeout)"
    and "CurrentTime start_rt = Inr start" "CurrentTime end_rt = Inr stop" "0 \<le> stop - start" "stop - start < 2 ^ 51"
    and "m = int (unat (count * word_of_int timeout))" "0 < m" "m < 2 ^ 51"
  shows "MonitorTimeoutTest api capi t a count timeout start_rt reading end_rt store =
    Returns (m \<le> stop - start \<and> 5 * (stop - start - m) < m, store)"
proof -
  obtain c where c: "pthread_cond_init capi = (0, c)" using assms(1) by (metis private_monitor_def prod.collapse)
  obtain pm where pm: "pthread_mutex_init api PTHREAD_MUTEX_DEFAULT = (0, pm)" "held_by pm = None"
    using assms(1) by (metis private_monitor_def prod.collapse)
  let ?impl = "\<lparr>owned_mutex = Some a, mon_mutex = Some a, pthread_cond = Some c, cond_initialized = True\<rparr>"
  let ?store = "store(a \<mapsto> \<lparr>pthread_mutex = pm, initialized = True\<rparr>)"
  have new: "Monitor_new api capi a store = Inr (?impl, ?store)"
    by (simp add: Monitor_new_def Mutex_Impl_new_def DefaultInitializer_def Init_def Monitor_blank_def DCHECK_def pm c)
  have "free_monitor held_by a store ?impl ?store" using pm(2) by (rule free_monitorI)
  moreover have "timeout \<noteq> 0" using assms(8,9) by auto
  moreover have "\<forall>rt \<in> set (map reading [0..<unat count]). \<exists>now. CurrentTime rt = Inr now \<and> in_int64 (now + timeout)"
    using assms(3) by simp
  ultimately obtain impl' store' where loop: "MonitorTimeout_loop api capi t timeout (map reading [0..<unat count]) ?impl ?store = Returns (impl', store')"
    "free_monitor held_by a store impl' store'" using MonitorTimeout_loop_returns [OF assms(1)] by blast
  from loop(2) obtain c' m' where s: "impl' = \<lparr>owned_mutex = Some a, mon_mutex = Some a, pthread_cond = Some c', cond_initialized = True\<rparr>"
    "held_by m' = None" "store' = store(a \<mapsto> \<lparr>pthread_mutex = m', initialized = True\<rparr>)" by (auto simp: free_monitor_def)
  have "pthread_mutex_destroy api m' = 0" "pthread_cond_destroy capi c' = 0" using assms(1) s(2) unfolding private_monitor_def by blast+
  then have "Monitor_delete api capi impl' store' = Inr store"
    using assms(2) by (simp add: s(1,3) Monitor_delete_def Cleanup_def deref_def Mutex_Impl_delete_def DCHECK_def fun_upd_idem)
  moreover have "MonitorTimeoutTest_success count timeout start stop = Inr (m \<le> stop - start \<and> 5 * (stop - start - m) < m)"
    by (rule MonitorTimeoutTest_success_iff [OF assms(8-10,6,7)])
  ultimately show ?thesis using assms(4,5) new loop(1) by (simp add: MonitorTimeoutTest_def call_of_res_def)
qed

theorem MonitorTimeoutTest_returns_witness:
  "let clock = (\<lambda>s. (0, \<lparr>tv_sec = s, tv_nsec = 0\<rparr>))
   in MonitorTimeoutTest posix_mutex posix_cond 7 5 1000 10 (clock 1) (\<lambda>i. clock 1) (clock 12) Map.empty = Returns (True, Map.empty)"
proof -
  have now: "CurrentTime (0, \<lparr>tv_sec = s, tv_nsec = 0\<rparr>) = Inr (s * 1000)" if "s \<in> {1, 12}" for s
  proof -
    have "valid_timespec \<lparr>tv_sec = s, tv_nsec = 0\<rparr>" using that by (auto simp: valid_timespec_def NS_PER_S_def)
    from ToMilliseconds_timespec_value [OF this] that show ?thesis
      by (auto simp: CurrentTime_def CurrentTimeTicks_def ToMilliseconds_timespec_def NS_PER_S_def)
  qed
  have "private_monitor posix_mutex posix_cond (\<lambda>m. m) 7"
    by (simp add: private_monitor_def posix_mutex_def posix_cond_def)
  from MonitorTimeoutTest_returns [OF this, of Map.empty 5 1000 "\<lambda>_. (0, \<lparr>tv_sec = 1, tv_nsec = 0\<rparr>)" 10 _ 1000 _ 12000 10000]
  show ?thesis by (simp add: now int64_bounds)
qed

end
