(* ===== verification/Spec2Isabelle.thy ===== *)
theory Spec2Isabelle
  imports Pool_Buffer Pool_Ids Splitter_System Monitor No_Starve Socket Test_Clients Block_Run Observer_Test Splitter_Run Factory_Test
begin

text \<open>
  A verification development for the C++ library under \<^verbatim>\<open>src/\<close>: time conversion, POSIX
  mutexes and monitors, threads and their factory, a thread pool, a scheduler of book-splitting jobs
  on top of it, a socket, and the unit tests of these.

  \<^bold>\<open>Conventions.\<close> A class is a record of its fields, an enumeration a datatype. A
  method is a function on the record. A call that throws, trips an assertion or has no meaning in C++
  returns \<open>Inl\<close> of a \<open>fault\<close> (theory \<open>Exceptions\<close>); \<open>bind_res\<close> of \<open>Prelude\<close> chains such calls. \<^verbatim>\<open>size_t\<close>
  is a 64-bit word. \<^verbatim>\<open>int64_t\<close> is an integer whose operations \<open>add64\<close>, \<open>mul64\<close>, \<open>div64\<close>, \<open>mod64\<close> return
  \<open>Undefined\<close> on overflow. What the code calls in the operating system or in third-party code is a
  parameter: a record of functions or a function argument. What a theorem needs of it is a named hypothesis
  or a locale, and each is shown to be satisfiable. Concurrent code is a step relation whose
  steps are the parts of the methods no other thread can interrupt: critical sections, waiting and waking up.
  Fields whose names begin with \<open>h_\<close>, \<open>l_\<close> or \<open>jobs_\<close> are history that no step reads.

  \<^bold>\<open>Theories.\<close>
  \<^item> \<open>Exceptions\<close>, \<open>Prelude\<close>: faults, checked arithmetic, counting in lists, reachability, and the
    locales \<open>inductive_invariant\<close> and \<open>relative_invariant\<close> with which every invariant is proved.
  \<^item> \<open>Time_Util\<close> (\<^verbatim>\<open>base/time_util.h\<close>, \<^verbatim>\<open>.cc\<close>): conversions between ticks; round trips, nearest rounding,
    monotony, absence of overflow.
  \<^item> \<open>Mutex\<close> (\<^verbatim>\<open>threads/mutex.h\<close>, \<^verbatim>\<open>.cc\<close>), \<open>Monitor\<close> (\<^verbatim>\<open>threads/monitor.h\<close>, \<^verbatim>\<open>.cc\<close>): the wrappers of pthread
    mutexes, rwlocks and condition variables with their guards, each an operation of one thread on the shared
    objects. The contract of a mutex is the locale \<open>mutex_contract\<close>; \<open>pthread_mutex_laws\<close> gives it for
    the code's methods from what POSIX promises.
  \<^item> \<open>No_Starve\<close> (\<^verbatim>\<open>NoStarveReadWriteMutex\<close>): the protocol of the gate mutex and the flag as a step relation.
  \<^item> \<open>Thread_Factory\<close> (\<^verbatim>\<open>threads/simple_thread_factory.h\<close>, \<^verbatim>\<open>.cc\<close>, \<^verbatim>\<open>threads/thread.h\<close>): the thread object, its
    life, and the computation of native priorities in single precision.
  \<^item> \<open>Thread_Manager\<close> (\<^verbatim>\<open>threads/thread_manager.h\<close>, \<^verbatim>\<open>.cc\<close>): the state of \<^verbatim>\<open>ThreadManager::Impl\<close> and one function per
    critical section of its methods and of \<^verbatim>\<open>Worker::Run\<close>. \<open>Thread_Pool\<close>: these sections run by any number
    of workers and clients, with condition variables, as \<open>pool_step\<close>.
  \<^item> \<open>Pool_Invariants\<close>: order, capacity, counters. \<open>Pool_Buffer\<close>: the queue refines a bounded first-in-first-out buffer, whose
    operations are a deterministic function, with the tasks added and the tasks handed to the workers as its inputs and outputs.
    \<open>Pool_Ids\<close>: \<^verbatim>\<open>id_map_\<close> has the ids of the living workers, so a task never blocks its worker in \<open>Add\<close>, but for a gap in \<^verbatim>\<open>AddWorker\<close>.
    \<open>Pool_Progress\<close>: no step of a worker is wasted, no producer waits with room in the queue.
    \<open>Pool_Managed\<close>: in a \<open>managed\<close> pool, where one thread calls \<^verbatim>\<open>Start\<close>, \<^verbatim>\<open>Stop\<close>, \<^verbatim>\<open>Join\<close> and \<^verbatim>\<open>AddWorker\<close>, nobody calls
    \<^verbatim>\<open>RemoveWorker\<close>, and every \<^verbatim>\<open>pthread_create\<close> succeeds, which workers exist at each of its control points.
    \<open>Pool_Wake\<close>: every worker that must leave is awake or will be woken. \<open>Pool_Liveness\<close>: from these, the pool
    comes to rest with its work done, and \<^verbatim>\<open>Join\<close> finishes every task.
  \<^item> \<open>Splitter\<close>, \<open>Scheduler\<close> (\<^verbatim>\<open>src/splitter\<close>): the splitting loop, jobs and observers; the scheduler's counter
    of pending jobs and the waiting for it. \<open>Splitter_System\<close>: the scheduler on its pool, both step relations
    composed; each refines its part, and the liveness of the pool becomes that of the jobs.
  \<^item> \<open>Socket\<close> (\<^verbatim>\<open>net/socket.h\<close>, \<^verbatim>\<open>.cc\<close>): opening, peeking, reading, closing, and the ownership of descriptors.
  \<^item> Programs on the pool. \<open>Pool_Client\<close>: one call of \<open>Add\<close> with its outcome, and the account of the tasks that were started,
    are running, and have returned. \<open>Pool_Session\<close>: the life of a \<^verbatim>\<open>SimpleThreadManager\<close>, from \<^verbatim>\<open>NewSimpleThreadManager\<close> to
    the destructor; the locale \<open>session_client\<close> is what a program with such a manager does to it and can rely on.
    \<open>Pool_Full\<close>: what the counters and \<open>Add\<close> say of a full pool. \<open>Session_Run\<close>: the first steps of a concrete session.
  \<^item> The unit tests, each on the monitor or on the pool it uses. \<open>Test_Clients\<close>, \<open>Factory_Test\<close>
    (\<^verbatim>\<open>threads/simple_thread_factory_unittest.cc\<close>): the two thread protocols of the file; the test of one thread and that of the timed waits. \<open>Load_Test\<close> (\<^verbatim>\<open>LoadTest\<close> of \<^verbatim>\<open>threads/thread_manager_unittest.cc\<close>): the test always
    comes to its end, and only a clock that does not advance makes its assertion fail. \<open>Test_Measures\<close>: the statistics and verdicts of the timing tests, in the double precision of \<open>Floats\<close>.
    \<open>Block_Test\<close>, \<open>Block_Run\<close> (\<^verbatim>\<open>BlockTaskTest\<close>): the probes of the full pool come out as expected, but the test can deadlock.
    \<open>Observer_Test\<close> (\<^verbatim>\<open>observer_unittest.cc\<close>): notification of a scheduler that may be gone. \<open>Splitter_Test\<close>,
    \<open>Splitter_Run\<close> (\<^verbatim>\<open>splitter_unittest.cc\<close>): the whole life of a \<^verbatim>\<open>SplitterJobScheduler\<close>, its invariant, and the ways it ends.
    \<open>Load_Test\<close>, \<open>Block_Test\<close>, \<open>Observer_Test\<close> and \<open>Splitter_Test\<close> interpret \<open>session_client\<close>.

  \<^bold>\<open>Bounds and fuel.\<close> Counters of threads and jobs wrap at \<open>2 ^ 64\<close>; where a theorem needs fewer, it says so.
  \<open>Peek\<close> takes fuel, one unit per call of \<^verbatim>\<open>poll\<close>; its theorem says exactly how much is enough. All other loops are
  functions that are proved to terminate, or step relations. Floating-point numbers are reals, rounded to 24 or 53
  bits after each operation; infinities and denormals do not arise from the values that occur. \<open>LoadTest_completes\<close> assumes
  nothing of the sleeps, and of the clock only that its readings are not negative; whether the assertion of the test
  fails is then up to the clock. It allows unnotified wake-ups, but only finitely many: they are a step
  relation of their own, also in \<open>Splitter_Test\<close>, where the theorems need a queue with room for all jobs (the test has 26 jobs
  and 1024 places). In \<open>Block_Test\<close> the tasks wake up only when they are notified, since their wait has no condition that
  it could test again.

  \<^bold>\<open>Not modelled.\<close> Logging; the abstract classes of \<^verbatim>\<open>net/transport.h\<close> and \<^verbatim>\<open>net/server_transport.h\<close>;
  \<^verbatim>\<open>net/server_socket.h\<close> and the functions of \<^verbatim>\<open>Socket\<close> that are declared and never defined; \<^verbatim>\<open>base/macros.h\<close>;
  the methods of \<^verbatim>\<open>Monitor\<close> and \<^verbatim>\<open>SimpleThreadFactory\<close> that only call the method of the same name of \<^verbatim>\<open>Impl\<close>;
  and what C++ leaves undefined about races. \<^verbatim>\<open>worker_count_\<close> is updated under one of two mutexes: with one controlling thread the
  two kinds of updates are never due at the same time (\<open>worker_count_updates_apart\<close>); reads of it, updates with several
  controlling threads, and the insertion into \<^verbatim>\<open>id_map_\<close> without a mutex have the meaning of some interleaving. \<^verbatim>\<open>WaitAllJobDone\<close> waits without the mutex, which is taken as a wait
  that neither needs nor takes it.
\<close>

end
